(* ===== verification/Prelude.thy ===== *)
theory Prelude
  imports Main "HOL-Library.Word"
begin

text \<open>
  Shared vocabulary of the development: machine integers, exceptional results, the steady
  clock, and the fragments of the C++ standard library that several components call
  (\<open>std::to_string\<close> on unsigned values and conversions between \<open>char\<close> and bytes),
  with the generic lemmas about them.
\<close>

unbundle bit_operations_syntax

section \<open>Machine integers\<close>

text \<open>The fixed-width unsigned types of \<open><cstdint>\<close>; \<open>size_t\<close> is 64 bits wide where its
  wrap-around matters and a \<open>nat\<close> where it is the size of a container.\<close>

type_synonym u8 = "8 word"
type_synonym u16 = "16 word"
type_synonym u32 = "32 word"
type_synonym u64 = "64 word"

named_theorems word_facts \<open>translations of word operations to natural numbers\<close>
named_theorems result_facts \<open>facts about exceptional results\<close>

lemma unat_and_255 [word_facts]: "unat (w AND 255) = unat w mod 256" for w :: u32
proof -
  have "unat (w AND mask 8) = take_bit 8 (unat w)"
    by (simp add: take_bit_eq_mask [symmetric] unsigned_take_bit_eq)
  then show ?thesis by (simp add: mask_eq_exp_minus_1 take_bit_eq_mod)
qed

lemma unat_drop_bit [word_facts]: "unat (drop_bit n w) = unat w div 2 ^ n" for w :: "'a::len word"
  by (subst unsigned_drop_bit_eq) (simp add: drop_bit_eq_div take_bit_nat_eq_self)

lemma unat_of_nat_small [word_facts]:
  "n < 2 ^ LENGTH('a) \<Longrightarrow> unat (of_nat n :: 'a::len word) = n"
  by (simp add: unat_of_nat)

lemma unat_Suc_less:
  fixes x y :: "'a::len word"
  assumes "x < y"
  shows "unat (x + 1) = unat x + 1"
proof -
  have "unat x < unat y" "unat y < 2 ^ LENGTH('a)" using assms by (auto simp: word_less_nat_alt)
  then have "unat x + 1 < 2 ^ LENGTH('a)" by linarith
  then show ?thesis by (simp add: unat_word_ariths del: unsigned_less)
qed

lemma or_low_byte:
  fixes r c :: u32
  assumes "unat c < 256"
  shows "push_bit 8 r OR c = r * 256 + c"
proof -
  have c: "c = take_bit 8 c"
  proof (rule word_unat_eq_iff [THEN iffD2])
    show "unat c = unat (take_bit 8 c)"
      using assms by (subst unsigned_take_bit_eq) (simp add: take_bit_eq_mod)
  qed
  have "\<not> (bit (push_bit 8 r) n \<and> bit c n)" for n
    by (subst c) (auto simp: bit_push_bit_iff bit_take_bit_iff)
  then have "push_bit 8 r OR c = push_bit 8 r + c"
    by (intro disjunctive_add_eq_or [symmetric] bit_word_eqI) (auto simp: bit_and_iff)
  then show ?thesis by (simp add: push_bit_eq_mult)
qed

text \<open>Clearing the lowest run of ones: \<open>x & (x + 1)\<close> is zero exactly on the masks \<open>2 ^ k - 1\<close>.\<close>

lemma nat_and_Suc_zero: "n AND Suc n = 0 \<Longrightarrow> \<exists>k. Suc n = 2 ^ k"
proof (induction n rule: less_induct)
  case (less n)
  have rec: "n AND Suc n = of_bool (odd n \<and> odd (Suc n)) + 2 * ((n div 2) AND (Suc n div 2))"
    by (rule and_rec)
  consider "n = 0" | "even n" "0 < n" | "odd n" by blast
  then show ?case
  proof cases
    case 1
    then show ?thesis by (intro exI [of _ 0]) simp
  next
    case 2
    then have "Suc n div 2 = n div 2" by presburger
    with rec less.prems 2 show ?thesis by auto
  next
    case 3
    then have half: "Suc n div 2 = Suc (n div 2)" "n div 2 < n" by presburger+
    with rec less.prems 3 have "(n div 2) AND Suc (n div 2) = 0" by simp
    with half less.IH obtain k where "Suc (n div 2) = 2 ^ k" by blast
    moreover from 3 have "Suc n = 2 * Suc (n div 2)" by presburger
    ultimately have "Suc n = 2 ^ Suc k" by simp
    then show ?thesis by blast
  qed
qed

lemma and_succ_zero_iff:
  fixes x :: "'a::len word"
  shows "x AND (x + 1) = 0 \<longleftrightarrow> (\<exists>k \<le> LENGTH('a). x = mask k)"
proof
  assume zero: "x AND (x + 1) = 0"
  show "\<exists>k \<le> LENGTH('a). x = mask k"
  proof (cases "x + 1 = 0")
    case True
    then have "x = mask LENGTH('a)" by (simp add: eq_neg_iff_add_eq_0 mask_full)
    then show ?thesis by blast
  next
    case False
    then have suc: "unat (x + 1) = Suc (unat x)" using unatSuc [of x] by (simp add: add.commute)
    have "unat x AND unat (x + 1) = 0"
      using zero by (metis unsigned_and_eq unsigned_0)
    then obtain k where k: "Suc (unat x) = 2 ^ k" using nat_and_Suc_zero suc by metis
    then have "2 ^ k < (2::nat) ^ LENGTH('a)" using suc unsigned_less [of "x + 1"] by metis
    then have "k < LENGTH('a)" by simp
    moreover have "x = mask k"
    proof -
      have "unat x = mask k" using k by (simp add: mask_eq_exp_minus_1)
      then have "(of_nat (unat x) :: 'a word) = of_nat (mask k)" by (rule arg_cong)
      then show ?thesis by (simp add: of_nat_mask_eq)
    qed
    ultimately show ?thesis by (auto intro: exI [of _ k])
  qed
next
  assume "\<exists>k \<le> LENGTH('a). x = mask k"
  then obtain k where "x = mask k" by blast
  then have "x + 1 = 2 ^ k" "x = mask k" by (simp_all add: mask_eq_exp_minus_1)
  then show "x AND (x + 1) = 0"
    by (auto intro!: bit_word_eqI simp: bit_simps)
qed

text \<open>The number of one bits of a word.\<close>

definition bit_count :: "'a::len word \<Rightarrow> nat" where
  "bit_count w = card {i. bit w i}"

lemma finite_bits [simp]: "finite {i. bit w i}" for w :: "'a::len word"
  by (rule finite_subset [of _ "{..<LENGTH('a)}"]) (auto dest: bit_imp_le_length)

lemma bit_count_le: "bit_count w \<le> LENGTH('a)" for w :: "'a::len word"
proof -
  have "bit_count w \<le> card {..<LENGTH('a)}"
    unfolding bit_count_def by (rule card_mono) (auto dest: bit_imp_le_length)
  then show ?thesis by simp
qed

lemma bit_count_0 [simp]: "bit_count 0 = 0"
  by (simp add: bit_count_def)

lemma bit_count_rec: "bit_count w = of_bool (bit w 0) + bit_count (drop_bit 1 w)"
proof -
  have "{i. bit w i} = (if bit w 0 then {0} else {}) \<union> Suc ` {i. bit (drop_bit 1 w) i}"
    by (auto simp: bit_drop_bit_eq image_iff gr0_conv_Suc) (metis not0_implies_Suc)+
  then show ?thesis
    by (simp add: bit_count_def card_image)
qed

section \<open>Decimal numerals\<close>

definition is_digit :: "char \<Rightarrow> bool" where
  "is_digit c \<longleftrightarrow> 48 \<le> (of_char c :: nat) \<and> (of_char c :: nat) \<le> 57"

definition digit_val :: "char \<Rightarrow> nat" where
  "digit_val c = of_char c - 48"

definition digit_char :: "nat \<Rightarrow> char" where
  "digit_char d = char_of (48 + d)"

text \<open>\<open>std::to_string\<close> of an unsigned value: its decimal digits, most significant first.\<close>

fun std_to_string :: "nat \<Rightarrow> string" where
  "std_to_string n =
     (if n < 10 then [digit_char n] else std_to_string (n div 10) @ [digit_char (n mod 10)])"

declare std_to_string.simps [simp del]

definition dec_value :: "string \<Rightarrow> nat" where
  "dec_value s = foldl (\<lambda>a c. a * 10 + digit_val c) 0 s"

lemma of_char_digit_char: "d < 10 \<Longrightarrow> (of_char (digit_char d) :: nat) = 48 + d"
  by (simp add: digit_char_def)

lemma is_digit_digit_char [simp]: "d < 10 \<Longrightarrow> is_digit (digit_char d)"
  by (simp add: is_digit_def of_char_digit_char)

lemma digit_val_digit_char [simp]: "d < 10 \<Longrightarrow> digit_val (digit_char d) = d"
  by (simp add: digit_val_def of_char_digit_char)

lemma digit_val_less: "is_digit c \<Longrightarrow> digit_val c < 10"
  by (auto simp: is_digit_def digit_val_def)

lemma dec_value_snoc [simp]: "dec_value (s @ [c]) = dec_value s * 10 + digit_val c"
  by (simp add: dec_value_def)

lemma dec_value_Nil [simp]: "dec_value [] = 0"
  by (simp add: dec_value_def)

lemma dec_value_append: "foldl (\<lambda>a c. a * 10 + digit_val c) v s = v * 10 ^ length s + dec_value s"
proof (induction s rule: rev_induct)
  case Nil
  then show ?case by simp
next
  case (snoc c s)
  then show ?case by (simp add: algebra_simps)
qed

lemma dec_value_Cons: "dec_value (c # s) = digit_val c * 10 ^ length s + dec_value s"
  unfolding dec_value_def using dec_value_append [of "digit_val c" s] by (simp add: dec_value_def)

lemma dec_value_bound: "list_all is_digit s \<Longrightarrow> dec_value s < 10 ^ length s"
proof (induction s rule: rev_induct)
  case (snoc c s)
  then have "dec_value s < 10 ^ length s" "digit_val c < 10" using digit_val_less by simp_all
  then show ?case by simp
qed simp

lemma dec_value_to_string [simp]: "dec_value (std_to_string n) = n"
proof (induction n rule: std_to_string.induct)
  case (1 n)
  then show ?case
    by (subst std_to_string.simps)
      (auto simp: dec_value_snoc [of "[]", simplified])
qed

lemma digits_to_string: "list_all is_digit (std_to_string n)"
proof (induction n rule: std_to_string.induct)
  case (1 n)
  then show ?case by (subst std_to_string.simps) auto
qed

lemma to_string_nonempty [simp]: "std_to_string n \<noteq> []"
  by (subst std_to_string.simps) simp

section \<open>The steady clock\<close>

text \<open>
  \<open>std::chrono::steady_clock::now()\<close> returns a new reading at every call. A \<open>clock\<close> is the
  sequence of the readings still to come, in nanoseconds; a function that reads it returns the rest.
\<close>

type_synonym clock = "nat \<Rightarrow> int"

definition clock_now :: "clock \<Rightarrow> int" where
  "clock_now clk = clk 0"

definition clock_rest :: "clock \<Rightarrow> clock" where
  "clock_rest clk = (\<lambda>n. clk (Suc n))"

text \<open>A clock all of whose remaining readings lie in an interval.\<close>

definition readings_in :: "int \<Rightarrow> int \<Rightarrow> clock \<Rightarrow> bool" where
  "readings_in lo hi clk \<longleftrightarrow> (\<forall>n. lo \<le> clk n \<and> clk n < hi)"

lemma readings_now: "readings_in lo hi clk \<Longrightarrow> lo \<le> clock_now clk \<and> clock_now clk < hi"
  by (simp add: readings_in_def clock_now_def)

lemma readings_rest [intro]: "readings_in lo hi clk \<Longrightarrow> readings_in lo hi (clock_rest clk)"
  by (simp add: readings_in_def clock_rest_def)

text \<open>Integer division of C++: towards zero.\<close>

definition trunc_div :: "int \<Rightarrow> int \<Rightarrow> int" where
  "trunc_div n d =
     (let q = abs n div abs d in if (n < 0) = (d < 0) then q else - q)"

lemma trunc_div_nonneg: "0 \<le> a \<Longrightarrow> 0 < b \<Longrightarrow> trunc_div a b = a div b"
  by (simp add: trunc_div_def)

text \<open>\<open>duration_cast<milliseconds>\<close> of a difference of two readings.\<close>

definition to_milliseconds :: "int \<Rightarrow> int" where
  "to_milliseconds ns = trunc_div ns 1000000"

lemma to_milliseconds_nonneg: "0 \<le> ns \<Longrightarrow> to_milliseconds ns = ns div 1000000"
  by (simp add: to_milliseconds_def trunc_div_nonneg)

end
