(* ===== verification/Addressing.thy ===== *)
theory Addressing
  imports Prelude
begin

text \<open>
  IPv4 addresses and subnet masks: \<^verbatim>\<open>include/network/addressing.hpp\<close> and
  \<^verbatim>\<open>src/network/addressing.cpp\<close> of the core engine. The dotted-decimal reader is the
  character loop of the constructor \<open>IPv4Address(std::string_view)\<close>, one \<open>fun\<close>
  equation per branch; the four \<open>std::invalid_argument\<close> throws are the constructors of
  \<open>addr_error\<close>. The facts: the reader accepts exactly the dotted quads with octets up to
  255, it inverts the printer, the textual mask constructor accepts exactly the 33
  contiguous masks, and \<open>to_prefix_length\<close> counts the mask's bits and inverts the prefix
  constructor.
\<close>

section \<open>Addresses\<close>

datatype ipv4_address = IPv4Address (to_u32: u32)

datatype addr_error =
    OctetExceeds255
  | MalformedSeparators
  | InvalidSymbol
  | MalformedSegmentCount
  | PrefixOutOfBounds
  | NonContiguousMask

record ip_scan =
  ip_result :: u32
  octets_found :: nat
  current_octet :: u32
  reading_digit :: bool

definition ip_scan_init :: ip_scan where
  "ip_scan_init =
     \<lparr>ip_result = 0, octets_found = 0, current_octet = 0, reading_digit = False\<rparr>"

definition ip_scan_char :: "ip_scan \<Rightarrow> char \<Rightarrow> addr_error + ip_scan" where
  "ip_scan_char st ch =
     (if is_digit ch then
        (let octet = current_octet st * 10 + of_nat (digit_val ch) in
         if 255 < octet then Inl OctetExceeds255
         else Inr (st\<lparr>current_octet := octet, reading_digit := True\<rparr>))
      else if ch = CHR ''.'' then
        (if \<not> reading_digit st \<or> 3 \<le> octets_found st then Inl MalformedSeparators
         else Inr (st\<lparr>ip_result := push_bit 8 (ip_result st) OR current_octet st,
                      current_octet := 0,
                      octets_found := octets_found st + 1,
                      reading_digit := False\<rparr>))
      else Inl InvalidSymbol)"

fun ip_scan_loop :: "ip_scan \<Rightarrow> string \<Rightarrow> addr_error + ip_scan" where
  "ip_scan_loop st [] = Inr st"
| "ip_scan_loop st (ch # rest) =
     (case ip_scan_char st ch of Inl e \<Rightarrow> Inl e | Inr st' \<Rightarrow> ip_scan_loop st' rest)"

definition ipv4_of_string :: "string \<Rightarrow> addr_error + ipv4_address" where
  "ipv4_of_string s =
     (case ip_scan_loop ip_scan_init s of
        Inl e \<Rightarrow> Inl e
      | Inr st \<Rightarrow>
          if octets_found st \<noteq> 3 \<or> \<not> reading_digit st then Inl MalformedSegmentCount
          else Inr (IPv4Address (push_bit 8 (ip_result st) OR current_octet st)))"

definition ipv4_to_string :: "ipv4_address \<Rightarrow> string" where
  "ipv4_to_string a =
     std_to_string (unat (drop_bit 24 (to_u32 a) AND 255)) @ ''.'' @
     std_to_string (unat (drop_bit 16 (to_u32 a) AND 255)) @ ''.'' @
     std_to_string (unat (drop_bit 8 (to_u32 a) AND 255)) @ ''.'' @
     std_to_string (unat (to_u32 a AND 255))"

subsection \<open>The language of the reader\<close>

definition octet_text :: "string \<Rightarrow> bool" where
  "octet_text s \<longleftrightarrow> s \<noteq> [] \<and> list_all is_digit s \<and> dec_value s \<le> 255"

lemma not_digit_dot [simp]: "\<not> is_digit (CHR ''.'')"
  by (simp add: is_digit_def)

lemma octet_text_to_string: "n \<le> 255 \<Longrightarrow> octet_text (std_to_string n)"
  by (simp add: octet_text_def digits_to_string)

lemma dec_fold_ge: "v \<le> foldl (\<lambda>a c. a * 10 + digit_val c) v s"
proof (induction s rule: rev_induct)
  case Nil
  then show ?case by simp
next
  case (snoc c s)
  then show ?case by simp
qed

text \<open>A digit keeps the octet below 256 exactly when the decimal value stays there.\<close>

lemma scan_digit:
  assumes "is_digit c" and "unat (current_octet st) \<le> 255"
  shows "ip_scan_char st c =
    (if unat (current_octet st) * 10 + digit_val c \<le> 255
     then Inr (st\<lparr>current_octet := of_nat (unat (current_octet st) * 10 + digit_val c),
                   reading_digit := True\<rparr>)
     else Inl OctetExceeds255)"
proof -
  let ?v = "unat (current_octet st) * 10 + digit_val c"
  have eq: "current_octet st * 10 + of_nat (digit_val c) = of_nat ?v"
    by simp
  have "?v < 2 ^ 32"
    using assms digit_val_less [OF assms(1)] by simp
  then have "unat (of_nat ?v :: u32) = ?v"
    by (intro unat_of_nat_small) simp
  then have "255 < (of_nat ?v :: u32) \<longleftrightarrow> 255 < ?v"
    by (simp add: word_less_nat_alt)
  then show ?thesis
    using assms(1) unfolding ip_scan_char_def Let_def eq by (auto simp: not_less)
qed

text \<open>Scanning a run of digits adds its decimal value to the current octet, or exceeds 255.\<close>

lemma scan_digits:
  assumes "list_all is_digit ds" and "unat (current_octet st) \<le> 255" and "ds \<noteq> []"
  defines "v \<equiv> foldl (\<lambda>a c. a * 10 + digit_val c) (unat (current_octet st)) ds"
  shows "ip_scan_loop st (ds @ rest) =
    (if v \<le> 255
     then ip_scan_loop (st\<lparr>current_octet := of_nat v, reading_digit := True\<rparr>) rest
     else Inl OctetExceeds255)"
  using assms(1-3) unfolding v_def
proof (induction ds arbitrary: st)
  case Nil
  then show ?case by simp
next
  case (Cons c ds)
  let ?w = "unat (current_octet st) * 10 + digit_val c"
  show ?case
  proof (cases "?w \<le> 255")
    case True
    then have w: "unat (of_nat ?w :: u32) = ?w"
      by (intro unat_of_nat_small) simp
    show ?thesis
    proof (cases "ds = []")
      case True
      then show ?thesis using Cons.prems by (simp add: scan_digit)
    next
      case False
      then show ?thesis
        using Cons.prems True w Cons.IH [of "st\<lparr>current_octet := of_nat ?w, reading_digit := True\<rparr>"]
        by (simp add: scan_digit)
    qed
  next
    case False
    moreover have "?w \<le> foldl (\<lambda>a c. a * 10 + digit_val c) ?w ds"
      by (rule dec_fold_ge)
    ultimately show ?thesis using Cons.prems by (auto simp: scan_digit)
  qed
qed

text \<open>
  A scan is \<open>fresh\<close> between octets. From a fresh scan, acceptance reads one octet text and a
  dot and goes on, or one last octet text.
\<close>

definition fresh :: "ip_scan \<Rightarrow> bool" where
  "fresh st \<longleftrightarrow> current_octet st = 0 \<and> \<not> reading_digit st"

definition push_octet :: "ip_scan \<Rightarrow> string \<Rightarrow> ip_scan" where
  "push_octet st ds =
     st\<lparr>ip_result := ip_result st * 256 + of_nat (dec_value ds), current_octet := 0,
        octets_found := octets_found st + 1, reading_digit := False\<rparr>"

definition accepts :: "ip_scan \<Rightarrow> string \<Rightarrow> ip_scan \<Rightarrow> bool" where
  "accepts st s fin \<longleftrightarrow>
     ip_scan_loop st s = Inr fin \<and> octets_found fin = 3 \<and> reading_digit fin"

lemma fresh_push_octet [simp]: "fresh (push_octet st ds)"
  by (simp add: fresh_def push_octet_def)

lemma octets_push_octet [simp]: "octets_found (push_octet st ds) = octets_found st + 1"
  by (simp add: push_octet_def)

lemma scan_fresh_digits:
  assumes "fresh st" and "list_all is_digit ds" and "ds \<noteq> []"
  shows "ip_scan_loop st (ds @ rest) =
    (if octet_text ds
     then ip_scan_loop (st\<lparr>current_octet := of_nat (dec_value ds), reading_digit := True\<rparr>) rest
     else Inl OctetExceeds255)"
  using assms scan_digits [of ds st rest] by (simp add: fresh_def octet_text_def dec_value_def)

lemma scan_dot:
  assumes "octet_text ds" and "fresh st" and "octets_found st < 3"
  shows "ip_scan_char (st\<lparr>current_octet := of_nat (dec_value ds), reading_digit := True\<rparr>) (CHR ''.'')
     = Inr (push_octet st ds)"
proof -
  have "unat (of_nat (dec_value ds) :: u32) < 256"
    using assms(1) by (subst unat_of_nat_small) (auto simp: octet_text_def)
  with assms show ?thesis
    by (simp add: ip_scan_char_def push_octet_def or_low_byte)
qed

lemma digits_then:
  obtains (all) "list_all is_digit s"
  | (other) ds c r where "s = ds @ c # r" "list_all is_digit ds" "\<not> is_digit c"
proof (cases "dropWhile is_digit s")
  case Nil
  then have "list_all is_digit s" by (simp add: dropWhile_eq_Nil_conv list_all_iff)
  then show ?thesis by (rule all)
next
  case (Cons c r)
  then have "s = takeWhile is_digit s @ c # r" by (metis takeWhile_dropWhile_id)
  moreover have "list_all is_digit (takeWhile is_digit s)"
    by (auto simp: list_all_iff dest: set_takeWhileD)
  moreover have "\<not> is_digit c" using Cons by (metis dropWhile_eq_Cons_conv)
  ultimately show ?thesis by (rule other)
qed

lemma accepts_last:
  assumes "fresh st" and "octets_found st = 3"
  shows "accepts st s fin \<longleftrightarrow> octet_text s \<and>
    fin = st\<lparr>current_octet := of_nat (dec_value s), reading_digit := True\<rparr>"
proof (cases s rule: digits_then)
  case all
  show ?thesis
  proof (cases "s = []")
    case True
    then show ?thesis using assms by (auto simp: accepts_def octet_text_def fresh_def)
  next
    case False
    then show ?thesis
      using all assms scan_fresh_digits [of st s "[]"] by (auto simp: accepts_def)
  qed
next
  case (other ds c r)
  have "\<not> octet_text s" using other by (simp add: octet_text_def)
  moreover have "\<not> accepts st s fin"
  proof (cases "ds = []")
    case True
    then show ?thesis using other assms by (simp add: accepts_def ip_scan_char_def fresh_def)
  next
    case False
    then show ?thesis
      using other assms scan_fresh_digits [of st ds "c # r"]
      by (auto simp: accepts_def ip_scan_char_def split: if_splits)
  qed
  ultimately show ?thesis by simp
qed

lemma accepts_more:
  assumes "fresh st" and "octets_found st < 3"
  shows "accepts st s fin \<longleftrightarrow>
    (\<exists>p r. s = p @ CHR ''.'' # r \<and> octet_text p \<and> accepts (push_octet st p) r fin)"
proof
  assume acc: "accepts st s fin"
  show "\<exists>p r. s = p @ CHR ''.'' # r \<and> octet_text p \<and> accepts (push_octet st p) r fin"
  proof (cases s rule: digits_then)
    case all
    then show ?thesis
      using acc assms scan_fresh_digits [of st s "[]"]
      by (cases "s = []") (auto simp: accepts_def fresh_def split: if_splits)
  next
    case (other ds c r)
    have "ds \<noteq> []"
      using acc other assms by (auto simp: accepts_def ip_scan_char_def fresh_def split: if_splits)
    moreover from this have "octet_text ds"
      using acc other assms scan_fresh_digits [of st ds "c # r"]
      by (auto simp: accepts_def split: if_splits)
    moreover have "c = CHR ''.''"
      using acc other assms scan_fresh_digits [of st ds "c # r"] calculation
      by (auto simp: accepts_def ip_scan_char_def split: if_splits)
    ultimately show ?thesis
      using acc other assms scan_fresh_digits [of st ds "c # r"] scan_dot [of ds st]
      by (auto simp: accepts_def)
  qed
next
  assume "\<exists>p r. s = p @ CHR ''.'' # r \<and> octet_text p \<and> accepts (push_octet st p) r fin"
  then obtain p r where *: "s = p @ CHR ''.'' # r" "octet_text p" "accepts (push_octet st p) r fin"
    by blast
  then have "list_all is_digit p" "p \<noteq> []" by (auto simp: octet_text_def)
  with * assms show "accepts st s fin"
    using scan_fresh_digits [of st p "CHR ''.'' # r"] scan_dot [of p st]
    by (simp add: accepts_def)
qed

lemmas accept_rules = accepts_last accepts_more

lemma ipv4_of_string_accepts:
  "ipv4_of_string s = Inr a \<longleftrightarrow>
     (\<exists>fin. accepts ip_scan_init s fin \<and>
        a = IPv4Address (push_bit 8 (ip_result fin) OR current_octet fin))"
  by (auto simp: ipv4_of_string_def accepts_def split: sum.splits)

definition quad_value :: "string \<Rightarrow> string \<Rightarrow> string \<Rightarrow> string \<Rightarrow> nat" where
  "quad_value p q r t =
     ((dec_value p * 256 + dec_value q) * 256 + dec_value r) * 256 + dec_value t"


definition quad_scan :: "string \<Rightarrow> string \<Rightarrow> string \<Rightarrow> string \<Rightarrow> ip_scan" where
  "quad_scan p q r t =
     (push_octet (push_octet (push_octet ip_scan_init p) q) r)
       \<lparr>current_octet := of_nat (dec_value t), reading_digit := True\<rparr>"

definition quad_text :: "string \<Rightarrow> string \<Rightarrow> string \<Rightarrow> string \<Rightarrow> string \<Rightarrow> bool" where
  "quad_text s p q r t \<longleftrightarrow> s = p @ ''.'' @ q @ ''.'' @ r @ ''.'' @ t \<and>
     octet_text p \<and> octet_text q \<and> octet_text r \<and> octet_text t"

lemma accepts_init_iff:
  "accepts ip_scan_init s fin \<longleftrightarrow> (\<exists>p q r t. quad_text s p q r t \<and> fin = quad_scan p q r t)"
proof -
  have "fresh ip_scan_init" "octets_found ip_scan_init = 0"
    by (simp_all add: fresh_def ip_scan_init_def)
  then show ?thesis by (simp add: accept_rules quad_scan_def quad_text_def) blast
qed

lemma quad_scan_value:
  assumes "octet_text t"
  shows "push_bit 8 (ip_result (quad_scan p q r t)) OR current_octet (quad_scan p q r t) =
      of_nat (quad_value p q r t)"
proof -
  have "unat (of_nat (dec_value t) :: u32) < 256"
    using assms by (subst unat_of_nat_small) (auto simp: octet_text_def)
  then show ?thesis
    by (simp add: or_low_byte push_octet_def ip_scan_init_def quad_value_def quad_scan_def)
qed

text \<open>C33 The reader \<open>IPv4Address(std::string_view)\<close> accepts exactly the dotted quads of four
  non-empty decimal numerals that are at most 255 each (leading zeros included), and its value is
  the four octets in network order.\<close>

theorem ipv4_of_string_iff:
  "ipv4_of_string s = Inr a \<longleftrightarrow>
     (\<exists>p q r t. s = p @ ''.'' @ q @ ''.'' @ r @ ''.'' @ t \<and>
        octet_text p \<and> octet_text q \<and> octet_text r \<and> octet_text t \<and>
        a = IPv4Address (of_nat (quad_value p q r t)))"
  (is "?parsed \<longleftrightarrow> ?quad")
proof -
  have "?parsed \<longleftrightarrow> (\<exists>p q r t. quad_text s p q r t \<and>
      a = IPv4Address (push_bit 8 (ip_result (quad_scan p q r t)) OR current_octet (quad_scan p q r t)))"
    unfolding ipv4_of_string_accepts accepts_init_iff by blast
  also have "\<dots> \<longleftrightarrow> (\<exists>p q r t. quad_text s p q r t \<and> a = IPv4Address (of_nat (quad_value p q r t)))"
    by (intro ex_cong1 conj_cong refl) (simp add: quad_scan_value quad_text_def)
  finally show ?thesis by (simp add: quad_text_def)
qed

lemma ipv4_of_quad:
  assumes "quad_text s p q r t"
  shows "ipv4_of_string s = Inr (IPv4Address (of_nat (quad_value p q r t)))"
  using assms quad_scan_value [of t p q r] unfolding ipv4_of_string_accepts accepts_init_iff
  by (auto simp: quad_text_def intro!: exI [of _ "quad_scan p q r t"])

lemma word_quad_split:
  fixes w :: u32
  shows "of_nat (((unat (drop_bit 24 w AND 255) * 256 + unat (drop_bit 16 w AND 255)) * 256
           + unat (drop_bit 8 w AND 255)) * 256 + unat (w AND 255)) = w"
proof -
  have lt: "unat w < 2 ^ 32" using unsigned_less [of w] by simp
  have "((n div 16777216 mod 256 * 256 + n div 65536 mod 256) * 256 + n div 256 mod 256) * 256
      + n mod 256 = n" if "n < 4294967296" for n :: nat
  proof -
    have "n div 65536 = n div 256 div 256" "n div 16777216 = n div 256 div 256 div 256"
      by (simp_all add: div_mult2_eq [symmetric])
    moreover have "n div 256 div 256 div 256 < 256"
      using that by (simp add: div_mult2_eq [symmetric] less_mult_imp_div_less)
    ultimately show ?thesis by (simp only: mod_less div_mult_mod_eq)
  qed
  from this [of "unat w"] lt
  have "((unat w div 16777216 mod 256 * 256 + unat w div 65536 mod 256) * 256 +
         unat w div 256 mod 256) * 256 + unat w mod 256 = unat w"
    by simp
  then have "of_nat (((unat w div 16777216 mod 256 * 256 + unat w div 65536 mod 256) * 256 +
         unat w div 256 mod 256) * 256 + unat w mod 256) = w"
    by (simp only: of_nat_unat) simp
  then show ?thesis by (simp only: word_facts) simp
qed

text \<open>C39 Reading back a printed address gives the address: \<open>IPv4Address(a.to_string())\<close> succeeds
  and equals \<open>a\<close>, for every 32-bit value.\<close>

theorem ipv4_print_parse: "ipv4_of_string (ipv4_to_string a) = Inr a"
proof -
  have octet: "octet_text (std_to_string (unat (x AND 255)))" for x :: u32
    by (intro octet_text_to_string) (simp add: unat_and_255)
  let ?t = "\<lambda>k. std_to_string (unat (drop_bit k (to_u32 a) AND 255))"
  have "a = IPv4Address (of_nat (quad_value (?t 24) (?t 16) (?t 8)
              (std_to_string (unat (to_u32 a AND 255)))))"
    using word_quad_split [of "to_u32 a"] by (simp add: quad_value_def)
  moreover have "quad_text (ipv4_to_string a) (?t 24) (?t 16) (?t 8)
      (std_to_string (unat (to_u32 a AND 255)))"
    by (simp add: quad_text_def ipv4_to_string_def octet)
  ultimately show ?thesis by (simp only: ipv4_of_quad)
qed

section \<open>Subnet masks\<close>

datatype subnet_mask = SubnetMask (mask_u32: u32)

text \<open>\<open>SubnetMask(int prefix_length)\<close>; the argument is a signed \<open>int\<close>, and \<open>~0u << k\<close> is
  evaluated for \<open>k\<close> between 0 and 31 only.\<close>

definition mask_of_prefix :: "int \<Rightarrow> addr_error + subnet_mask" where
  "mask_of_prefix prefix_length =
     (if prefix_length < 0 \<or> 32 < prefix_length then Inl PrefixOutOfBounds
      else Inr (SubnetMask (if prefix_length = 0 then 0
                            else push_bit (nat (32 - prefix_length)) (NOT 0))))"

definition mask_of_string :: "string \<Rightarrow> addr_error + subnet_mask" where
  "mask_of_string mask_str =
     (case ipv4_of_string mask_str of
        Inl e \<Rightarrow> Inl e
      | Inr parsed_ip \<Rightarrow>
          (let m = to_u32 parsed_ip in
           if m \<noteq> 0 \<and> (let inverted = NOT m in inverted AND (inverted + 1) \<noteq> 0)
           then Inl NonContiguousMask
           else Inr (SubnetMask m)))"

text \<open>The bit-counting loop of \<open>to_prefix_length\<close>, with its \<open>uint8_t\<close> counter.\<close>

function count_bits :: "u32 \<Rightarrow> u8 \<Rightarrow> u8" where
  "count_bits m count =
     (if m \<noteq> 0 then count_bits (drop_bit 1 m) (count + ucast (m AND 1)) else count)"
  by pat_completeness auto
termination
proof (relation "measure (\<lambda>(m, _). unat m)")
  fix m :: u32 and count :: u8
  assume "m \<noteq> 0"
  then have "0 < unat m" by (rule unat_gt_0 [THEN iffD2])
  then show "((drop_bit 1 m, count + ucast (m AND 1)), m, count) \<in> measure (\<lambda>(m, _). unat m)"
    by (simp add: unat_drop_bit)
qed simp

declare count_bits.simps [simp del]

definition to_prefix_length :: "subnet_mask \<Rightarrow> u8" where
  "to_prefix_length m = count_bits (mask_u32 m) 0"

definition mask_to_string :: "subnet_mask \<Rightarrow> string" where
  "mask_to_string m = ipv4_to_string (IPv4Address (mask_u32 m))"

definition prefix_mask :: "nat \<Rightarrow> u32" where
  "prefix_mask p = push_bit (32 - p) (mask p)"

lemma bit_prefix_mask:
  "p \<le> 32 \<Longrightarrow> bit (prefix_mask p) i \<longleftrightarrow> 32 - p \<le> i \<and> i < 32"
  by (auto simp: prefix_mask_def bit_simps)

lemma not_prefix_mask: "p \<le> 32 \<Longrightarrow> NOT (prefix_mask p) = mask (32 - p)"
  by (rule bit_word_eqI) (auto simp: bit_prefix_mask bit_simps)

lemma prefix_mask_0 [simp]: "prefix_mask 0 = 0"
  by (simp add: prefix_mask_def)

lemma bit_count_prefix_mask: "p \<le> 32 \<Longrightarrow> bit_count (prefix_mask p) = p"
proof -
  assume p: "p \<le> 32"
  then have "{i. bit (prefix_mask p) i} = {32 - p..<32}" by (auto simp: bit_prefix_mask)
  with p show ?thesis by (simp add: bit_count_def)
qed

lemma mask_of_prefix_nat:
  assumes "p \<le> 32"
  shows "mask_of_prefix (int p) = Inr (SubnetMask (prefix_mask p))"
proof -
  have "push_bit (nat (32 - int p)) (NOT 0) = prefix_mask p" if "p \<noteq> 0"
    using assms that
    by (intro bit_word_eqI) (auto simp: bit_prefix_mask bit_simps nat_diff_distrib)
  then show ?thesis using assms by (auto simp: mask_of_prefix_def)
qed

lemma contiguous_iff:
  fixes m :: u32
  shows "NOT m AND (NOT m + 1) = 0 \<longleftrightarrow> (\<exists>p \<le> 32. m = prefix_mask p)"
proof -
  have "NOT m AND (NOT m + 1) = 0 \<longleftrightarrow> (\<exists>k \<le> 32. NOT m = mask k)"
    by (simp add: and_succ_zero_iff)
  also have "\<dots> \<longleftrightarrow> (\<exists>p \<le> 32. NOT m = mask (32 - p))"
    by (metis diff_diff_cancel diff_le_self)
  also have "\<dots> \<longleftrightarrow> (\<exists>p \<le> 32. m = prefix_mask p)"
    by (metis bit.double_compl not_prefix_mask)
  finally show ?thesis .
qed

lemma count_bits_eq: "count_bits m count = count + of_nat (bit_count m)"
proof (induction m count rule: count_bits.induct)
  case (1 m count)
  show ?case
  proof (cases "m = 0")
    case True
    then show ?thesis by (simp add: count_bits.simps)
  next
    case False
    have "ucast (m AND 1) = (of_bool (bit m 0) :: u8)"
      by (simp add: and_one_eq bit_0 mod2_eq_if)
    with False 1 bit_count_rec [of m] show ?thesis
      by (simp add: count_bits.simps [of m])
  qed
qed

text \<open>\<open>SubnetMask(std::string_view)\<close> accepts a dotted quad exactly when its value is one of the
  33 contiguous masks, and then keeps that value: the test
  \<open>(inverted & (inverted + 1)) != 0\<close> rejects precisely the non-contiguous ones.\<close>

theorem mask_of_string_iff:
  "mask_of_string s = Inr m \<longleftrightarrow>
     (\<exists>a. ipv4_of_string s = Inr a \<and> (\<exists>p \<le> 32. to_u32 a = prefix_mask p) \<and> mask_u32 m = to_u32 a)"
proof -
  have "\<exists>p \<le> 32. (0 :: u32) = prefix_mask p" by (rule exI [of _ 0]) simp
  then show ?thesis
    by (cases m) (auto simp: mask_of_string_def Let_def contiguous_iff split: sum.splits)
qed

lemma unat_prefix_length: "unat (to_prefix_length m) = bit_count (mask_u32 m)"
proof -
  have "bit_count (mask_u32 m) \<le> 32" using bit_count_le [of "mask_u32 m"] by simp
  then show ?thesis
    unfolding to_prefix_length_def count_bits_eq by (simp add: unat_of_nat_small)
qed

text \<open>\<open>to_prefix_length\<close> returns the number of one bits of any mask, without overflow of its
  8-bit counter: it is at most 32.\<close>

theorem to_prefix_length_count:
  "unat (to_prefix_length m) = bit_count (mask_u32 m) \<and> unat (to_prefix_length m) \<le> 32"
  using bit_count_le [of "mask_u32 m"] by (simp add: unat_prefix_length)

text \<open>A mask built from a prefix length has that prefix length, for every legal length.\<close>

theorem prefix_length_roundtrip:
  assumes "0 \<le> n" and "n \<le> 32"
  shows "\<exists>m. mask_of_prefix n = Inr m \<and> int (unat (to_prefix_length m)) = n"
proof -
  have "mask_of_prefix n = Inr (SubnetMask (prefix_mask (nat n)))"
    using assms mask_of_prefix_nat [of "nat n"] by simp
  moreover have "bit_count (prefix_mask (nat n)) = nat n"
    using assms by (intro bit_count_prefix_mask) simp
  ultimately show ?thesis using assms by (simp add: unat_prefix_length)
qed

text \<open>Outside the legal range the constructor throws.\<close>

lemma mask_of_prefix_error: "n < 0 \<or> 32 < n \<Longrightarrow> mask_of_prefix n = Inl PrefixOutOfBounds"
  by (auto simp: mask_of_prefix_def)

lemma prefix_length_roundtrip_witness:
  "\<exists>m. mask_of_prefix 24 = Inr m \<and> int (unat (to_prefix_length m)) = 24"
  by (rule prefix_length_roundtrip [of 24]) simp_all

end
