(* ===== verification/Packet.thy ===== *)
theory Packet
  imports Prelude
begin

text \<open>
  The packet layer: \<^verbatim>\<open>include/core/packet.hpp\<close>, \<^verbatim>\<open>src/core/packet.cpp\<close> and the
  string messages of \<^verbatim>\<open>include/core/message.hpp\<close>, \<^verbatim>\<open>src/core/message.cpp\<close>.
  Objects are laid out in memory as bytes; \<open>memcpy\<close> is a partial operation whose failure
  (\<open>OutOfBounds\<close>) stands for an access outside an array, and \<open>htonl\<close>/\<open>ntohl\<close> depend on the
  byte order of the host, the parameter \<open>le\<close> (little endian). The facts: the wire format is
  big endian on every host, a packet written on one host is read back on any other, the
  reader's four outcomes, and the truncation done by the constructors.
\<close>

section \<open>Memory\<close>

datatype packet_error =
    HeaderTooSmall
  | ExceedsMTU
  | PayloadTruncated
  | OutOfBounds

text \<open>\<open>memcpy(dst + off, src, n)\<close> on arrays.\<close>

definition mem_copy :: "u8 list \<Rightarrow> nat \<Rightarrow> u8 list \<Rightarrow> nat \<Rightarrow> packet_error + u8 list" where
  "mem_copy dst off src n =
     (if n \<le> length src \<and> off + n \<le> length dst
      then Inr (take off dst @ take n src @ drop (off + n) dst)
      else Inl OutOfBounds)"

lemma mem_copy_error: "mem_copy dst off src n = Inl e \<Longrightarrow> e = OutOfBounds"
  by (simp add: mem_copy_def split: if_splits)

definition byte_of :: "nat \<Rightarrow> u32 \<Rightarrow> u8" where
  "byte_of i w = ucast (drop_bit (8 * i) w)"

text \<open>The four bytes of an object of type \<open>uint32_t\<close>, in address order.\<close>

definition u32_to_mem :: "bool \<Rightarrow> u32 \<Rightarrow> u8 list" where
  "u32_to_mem le w =
     (if le then [byte_of 0 w, byte_of 1 w, byte_of 2 w, byte_of 3 w]
      else [byte_of 3 w, byte_of 2 w, byte_of 1 w, byte_of 0 w])"

definition u32_of_bytes :: "u8 \<Rightarrow> u8 \<Rightarrow> u8 \<Rightarrow> u8 \<Rightarrow> u32" where
  "u32_of_bytes b3 b2 b1 b0 =
     push_bit 24 (ucast b3) OR push_bit 16 (ucast b2) OR push_bit 8 (ucast b1) OR ucast b0"

definition u32_of_mem :: "bool \<Rightarrow> u8 list \<Rightarrow> u32" where
  "u32_of_mem le bs =
     (if le then u32_of_bytes (bs ! 3) (bs ! 2) (bs ! 1) (bs ! 0)
      else u32_of_bytes (bs ! 0) (bs ! 1) (bs ! 2) (bs ! 3))"

text \<open>\<open>htonl\<close> and \<open>ntohl\<close> swap the bytes of a value on a little-endian host.\<close>

definition htonl :: "bool \<Rightarrow> u32 \<Rightarrow> u32" where
  "htonl le w =
     (if le then u32_of_bytes (byte_of 0 w) (byte_of 1 w) (byte_of 2 w) (byte_of 3 w) else w)"

lemma byte_of_u32 [simp]:
  "byte_of 0 (u32_of_bytes b3 b2 b1 b0) = b0"
  "byte_of (Suc 0) (u32_of_bytes b3 b2 b1 b0) = b1"
  "byte_of 2 (u32_of_bytes b3 b2 b1 b0) = b2"
  "byte_of 3 (u32_of_bytes b3 b2 b1 b0) = b3"
  by (rule bit_word_eqI; auto simp: byte_of_def u32_of_bytes_def bit_simps dest: bit_imp_le_length)+

lemma u32_of_byte_of [simp]:
  "u32_of_bytes (byte_of 3 w) (byte_of 2 w) (byte_of (Suc 0) w) (byte_of 0 w) = w"
proof (rule bit_word_eqI)
  fix n assume "n < LENGTH(32)"
  then consider "n < 8" | "8 \<le> n" "n < 16" | "16 \<le> n" "n < 24" | "24 \<le> n" "n < 32"
    by fastforce
  then show "bit (u32_of_bytes (byte_of 3 w) (byte_of 2 w) (byte_of (Suc 0) w) (byte_of 0 w)) n
      = bit w n"
    by cases (auto simp: byte_of_def u32_of_bytes_def bit_simps)
qed

lemma htonl_involution [simp]: "htonl le (htonl le w) = w"
  by (simp add: htonl_def)

section \<open>Packets\<close>

record packet_header =
  version :: u8
  ptype :: u8
  plength :: u32

record packet =
  header :: packet_header
  payload :: "u8 list"

definition MTU :: nat where
  "MTU = 1500"

definition sizeof_header :: nat where
  "sizeof_header = 6"

definition packet_zero :: packet where
  "packet_zero =
     \<lparr>header = \<lparr>version = 0, ptype = 0, plength = 0\<rparr>, payload = replicate MTU 0\<rparr>"

text \<open>\<open>Packet(uint8_t, const uint8_t*, uint32_t)\<close>: the pointer is null or points to an array.\<close>

definition packet_of_buffer :: "u8 \<Rightarrow> u8 list option \<Rightarrow> u32 \<Rightarrow> packet_error + packet" where
  "packet_of_buffer msg_type data len =
     (let l = (if 1500 < len then 1500 else len);
          p = packet_zero\<lparr>header := \<lparr>version = 1, ptype = msg_type, plength = l\<rparr>\<rparr>
      in case data of
           None \<Rightarrow> Inr p
         | Some d \<Rightarrow>
             if 0 < l then
               (case mem_copy (payload p) 0 d (unat l) of
                  Inl e \<Rightarrow> Inl e
                | Inr pl \<Rightarrow> Inr (p\<lparr>payload := pl\<rparr>))
             else Inr p)"

text \<open>\<open>Packet(uint8_t, const std::vector<uint8_t>&)\<close>.\<close>

definition packet_of_vector :: "u8 \<Rightarrow> u8 list \<Rightarrow> packet_error + packet" where
  "packet_of_vector msg_type data =
     (let l = (if MTU < length data then 1500 else of_nat (length data)) :: u32;
          p = packet_zero\<lparr>header := \<lparr>version = 1, ptype = msg_type, plength = l\<rparr>\<rparr>
      in if data \<noteq> [] \<and> 0 < l then
           (case mem_copy (payload p) 0 data (unat l) of
              Inl e \<Rightarrow> Inl e
            | Inr pl \<Rightarrow> Inr (p\<lparr>payload := pl\<rparr>))
         else Inr p)"

definition header_to_mem :: "bool \<Rightarrow> packet_header \<Rightarrow> u8 list" where
  "header_to_mem le h = [version h, ptype h] @ u32_to_mem le (plength h)"

definition header_of_mem :: "bool \<Rightarrow> u8 list \<Rightarrow> packet_header" where
  "header_of_mem le bs =
     \<lparr>version = bs ! 0, ptype = bs ! 1, plength = u32_of_mem le (take 4 (drop 2 bs))\<rparr>"

definition serialize :: "bool \<Rightarrow> packet \<Rightarrow> packet_error + u8 list" where
  "serialize le p =
     (let n = unat (plength (header p));
          buffer = replicate (sizeof_header + n) 0;
          net_header = (header p)\<lparr>plength := htonl le (plength (header p))\<rparr>
      in case mem_copy buffer 0 (header_to_mem le net_header) sizeof_header of
           Inl e \<Rightarrow> Inl e
         | Inr buffer \<Rightarrow>
             if 0 < plength (header p) then mem_copy buffer sizeof_header (payload p) n
             else Inr buffer)"

definition deserialize :: "bool \<Rightarrow> u8 list \<Rightarrow> packet_error + packet" where
  "deserialize le raw_data =
     (if length raw_data < sizeof_header then Inl HeaderTooSmall
      else
        let h = header_of_mem le (take sizeof_header raw_data);
            h = h\<lparr>plength := htonl le (plength h)\<rparr>;
            pkt = packet_zero\<lparr>header := h\<rparr>;
            n = unat (plength h)
        in if 1500 < plength h then Inl ExceedsMTU
           else if length raw_data < sizeof_header + n then Inl PayloadTruncated
           else if 0 < plength h then
             (case mem_copy (payload pkt) 0 (drop sizeof_header raw_data) n of
                Inl e \<Rightarrow> Inl e
              | Inr pl \<Rightarrow> Inr (pkt\<lparr>payload := pl\<rparr>))
           else Inr pkt)"

subsection \<open>Well-formed packets\<close>

text \<open>
  The type invariant: the array has \<open>MTU\<close> bytes, the length field stays within it, and the
  bytes behind the payload are the zeros of the constructor's \<open>memset\<close>.
\<close>

definition canonical :: "packet \<Rightarrow> bool" where
  "canonical p \<longleftrightarrow> length (payload p) = MTU \<and> unat (plength (header p)) \<le> MTU \<and>
     drop (unat (plength (header p))) (payload p) =
       replicate (MTU - unat (plength (header p))) 0"

definition packet_data :: "packet \<Rightarrow> u8 list" where
  "packet_data p = take (unat (plength (header p))) (payload p)"

definition be_bytes :: "u32 \<Rightarrow> u8 list" where
  "be_bytes w = [byte_of 3 w, byte_of 2 w, byte_of 1 w, byte_of 0 w]"

lemma u32_to_mem_htonl [simp]: "u32_to_mem le (htonl le w) = be_bytes w"
  by (simp add: u32_to_mem_def htonl_def be_bytes_def)

lemma htonl_of_mem [simp]:
  "htonl le (u32_of_mem le [a, b, c, d]) = u32_of_bytes a b c d"
  by (simp add: u32_of_mem_def htonl_def)

lemma htonl_of_mem_be [simp]: "htonl le (u32_of_mem le (be_bytes w)) = w"
  by (simp add: be_bytes_def)

lemma be_bytes_of_bytes [simp]: "be_bytes (u32_of_bytes a b c d) = [a, b, c, d]"
  by (simp add: be_bytes_def)

lemma length_be_bytes [simp]: "length (be_bytes w) = 4"
  by (simp add: be_bytes_def)

lemma unat_pos_iff: "0 < unat w \<longleftrightarrow> 0 < w" for w :: "'a::len word"
  by (simp add: word_less_nat_alt)

lemma word_1500: "1500 < w \<longleftrightarrow> MTU < unat w" for w :: u32
  by (simp add: word_less_nat_alt MTU_def)

lemma mem_copy_middle:
  assumes "length a = k" and "length b = n" and "n \<le> length src"
  shows "mem_copy (a @ b @ c) k src n = Inr (a @ take n src @ c)"
  using assms by (simp add: mem_copy_def)

lemma length_header_to_mem [simp]: "length (header_to_mem le h) = sizeof_header"
  by (simp add: header_to_mem_def u32_to_mem_def sizeof_header_def)

lemma serialize_wire:
  assumes "unat (plength (header p)) \<le> length (payload p)"
  shows "serialize le p =
    Inr (version (header p) # ptype (header p) # be_bytes (plength (header p)) @ packet_data p)"
proof -
  let ?n = "unat (plength (header p))"
  let ?h = "header_to_mem le ((header p)\<lparr>plength := htonl le (plength (header p))\<rparr>)"
  have h: "?h = version (header p) # ptype (header p) # be_bytes (plength (header p))"
    by (simp add: header_to_mem_def)
  have one: "mem_copy (replicate (sizeof_header + ?n) 0) 0 ?h sizeof_header =
      Inr (?h @ replicate ?n 0)"
    using mem_copy_middle [of "[]" 0 "replicate sizeof_header 0" sizeof_header ?h "replicate ?n 0"]
    by (simp add: replicate_add)
  have two: "mem_copy (?h @ replicate ?n 0) sizeof_header (payload p) ?n =
      Inr (?h @ take ?n (payload p))"
    using mem_copy_middle [of ?h sizeof_header "replicate ?n 0" ?n "payload p" "[]"] assms by simp
  have "?n = 0" if "\<not> 0 < plength (header p)"
    using that by (simp add: unat_pos_iff [symmetric])
  then show ?thesis
    unfolding serialize_def Let_def one two sum.case packet_data_def using h by auto
qed

lemma canonical_payload:
  assumes "canonical p"
  shows "payload p = packet_data p @ replicate (MTU - unat (plength (header p))) 0"
  using assms append_take_drop_id [of "unat (plength (header p))" "payload p"]
  by (simp add: canonical_def packet_data_def)

lemma length_packet_data: "canonical p \<Longrightarrow> length (packet_data p) = unat (plength (header p))"
  by (simp add: canonical_def packet_data_def)

text \<open>What the reader makes of a header followed by enough bytes.\<close>

lemma deserialize_wire:
  "deserialize le (v # t # be_bytes w @ rest) =
    (if MTU < unat w then Inl ExceedsMTU
     else if length rest < unat w then Inl PayloadTruncated
     else Inr \<lparr>header = \<lparr>version = v, ptype = t, plength = w\<rparr>,
               payload = take (unat w) rest @ replicate (MTU - unat w) 0\<rparr>)"
proof -
  have h: "header_of_mem le (take sizeof_header (v # t # be_bytes w @ rest)) =
      \<lparr>version = v, ptype = t, plength = u32_of_mem le (be_bytes w)\<rparr>"
    by (simp add: header_of_mem_def sizeof_header_def be_bytes_def)
  have d: "drop sizeof_header (v # t # be_bytes w @ rest) = rest"
    by (simp add: sizeof_header_def)
  have copy: "mem_copy (replicate MTU 0) 0 rest (unat w) =
      Inr (take (unat w) rest @ replicate (MTU - unat w) 0)"
    if "unat w \<le> MTU" "unat w \<le> length rest"
    using that by (simp add: mem_copy_def)
  have "unat w = 0" if "\<not> 0 < w" using that by (simp add: unat_pos_iff [symmetric])
  then show ?thesis
    unfolding deserialize_def Let_def h d
    by (auto simp: word_1500 sizeof_header_def packet_zero_def copy)
qed

lemma wire_cases:
  assumes "sizeof_header \<le> length raw"
  obtains v t w rest where "raw = v # t # be_bytes w @ rest"
proof -
  have "Suc (Suc (Suc (Suc (Suc (Suc 0))))) \<le> length raw"
    using assms by (simp add: sizeof_header_def)
  then obtain v t a b c d rest where "raw = v # t # a # b # c # d # rest"
    by (auto simp: Suc_le_length_iff)
  then show ?thesis using that [of v t "u32_of_bytes a b c d" rest] by simp
qed

subsection \<open>Properties\<close>

lemma serialize_deserialize:
  assumes "canonical p"
  shows "\<exists>bytes. serialize le p = Inr bytes \<and> deserialize le' bytes = Inr p"
proof -
  have "unat (plength (header p)) \<le> length (payload p)" "\<not> MTU < unat (plength (header p))"
    using assms by (simp_all add: canonical_def)
  moreover have "p = \<lparr>header = \<lparr>version = version (header p), ptype = ptype (header p),
        plength = plength (header p)\<rparr>,
      payload = packet_data p @ replicate (MTU - unat (plength (header p))) 0\<rparr>"
    using canonical_payload [OF assms] by simp
  moreover have "take (unat (plength (header p))) (packet_data p) = packet_data p"
    by (simp add: packet_data_def)
  ultimately show ?thesis
    by (simp add: serialize_wire deserialize_wire length_packet_data [OF assms])
qed

text \<open>C16 Round trip across hosts: a canonical packet serialised on a host of either byte order is
  read back as the same packet by \<open>deserialize\<close> on a host of either byte order.\<close>

theorem packet_roundtrip:
  assumes "canonical p"
  shows "\<exists>bytes. serialize le p = Inr bytes \<and> deserialize le' bytes = Inr p"
  by (rule serialize_deserialize [OF assms])

text \<open>A sample packet: type 2, payload \<open>7, 8\<close>.\<close>

definition sample_packet :: packet where
  "sample_packet = \<lparr>header = \<lparr>version = 1, ptype = 2, plength = 2\<rparr>, payload = 7 # 8 # replicate 1498 0\<rparr>"

lemma canonical_sample: "canonical sample_packet"
  by (simp add: canonical_def sample_packet_def MTU_def)

lemma packet_roundtrip_witness:
  "\<exists>bytes. serialize True sample_packet = Inr bytes \<and> deserialize False bytes = Inr sample_packet"
  by (rule packet_roundtrip [OF canonical_sample])

text \<open>The wire format does not depend on the host: \<open>serialize\<close> of a canonical packet yields the
  version byte, the type byte, the payload length with its most significant byte first, and then
  the payload bytes, and it never copies beyond the payload array.\<close>

theorem serialize_big_endian:
  assumes "canonical p"
  shows "serialize le p =
    Inr ([version (header p), ptype (header p),
          byte_of 3 (plength (header p)), byte_of 2 (plength (header p)),
          byte_of 1 (plength (header p)), byte_of 0 (plength (header p))] @ packet_data p)"
  using assms serialize_wire [of p le] by (simp add: canonical_def be_bytes_def)

lemma serialize_big_endian_witness: "serialize True sample_packet = Inr [1, 2, 0, 0, 0, 2, 7, 8]"
  using serialize_big_endian [OF canonical_sample]
  by (simp add: sample_packet_def packet_data_def byte_of_def)

text \<open>The length field of a buffer: its bytes 2 to 5, most significant first.\<close>

definition wire_length :: "u8 list \<Rightarrow> u32" where
  "wire_length raw = u32_of_bytes (raw ! 2) (raw ! 3) (raw ! 4) (raw ! 5)"

lemma wire_length_eq [simp]: "wire_length (v # t # be_bytes w @ rest) = w"
  by (simp add: wire_length_def be_bytes_def)

lemma take_wire [simp]:
  "take (6 + n) (v # t # be_bytes w @ rest) = v # t # be_bytes w @ take n rest"
  by (simp add: be_bytes_def eval_nat_numeral)

text \<open>C17 Every outcome of \<open>deserialize\<close>: fewer than 6 bytes, a length above the MTU, a truncated
  payload, or a packet; in the last case the packet is canonical and serialises to exactly the
  bytes it was read from, so bytes behind it are ignored. It never accesses memory out of bounds.\<close>

theorem deserialize_cases:
  "case deserialize le raw of
     Inl HeaderTooSmall \<Rightarrow> length raw < 6
   | Inl ExceedsMTU \<Rightarrow> 6 \<le> length raw \<and> 1500 < wire_length raw
   | Inl PayloadTruncated \<Rightarrow> 6 \<le> length raw \<and> length raw < 6 + unat (wire_length raw)
   | Inl OutOfBounds \<Rightarrow> False
   | Inr p \<Rightarrow> canonical p \<and> 6 + unat (plength (header p)) \<le> length raw \<and>
       serialize le p = Inr (take (6 + unat (plength (header p))) raw)"
proof (cases "sizeof_header \<le> length raw")
  case False
  then show ?thesis by (simp add: deserialize_def sizeof_header_def)
next
  case True
  then obtain v t w rest where raw: "raw = v # t # be_bytes w @ rest" by (rule wire_cases)
  show ?thesis
    unfolding raw deserialize_wire
    by (auto simp: word_1500 canonical_def serialize_wire packet_data_def)
qed

text \<open>The vector constructor cannot fail and gives a canonical packet of version 1 and the given
  type whose data is the vector's, cut to its first 1500 bytes.\<close>

theorem packet_of_vector_truncates:
  "\<exists>p. packet_of_vector t data = Inr p \<and> canonical p \<and> version (header p) = 1 \<and>
     ptype (header p) = t \<and> packet_data p = take 1500 data"
proof -
  let ?l = "(if MTU < length data then 1500 else of_nat (length data)) :: u32"
  have l: "unat ?l = min MTU (length data)"
    by (auto simp: MTU_def unat_of_nat_small)
  have copy: "mem_copy (replicate MTU 0) 0 data (min MTU (length data)) =
      Inr (take MTU data @ replicate (MTU - length data) 0)"
    by (simp add: mem_copy_def min_def)
  have "data = []" if "\<not> 0 < ?l"
  proof -
    have "unat ?l = 0" using that by (simp add: unat_pos_iff [symmetric])
    then show ?thesis using l by (simp add: MTU_def min_def split: if_splits)
  qed
  then show ?thesis
    using l copy unfolding packet_of_vector_def Let_def packet_zero_def
    by (auto simp: canonical_def packet_data_def MTU_def min_def)
qed

text \<open>
  The buffer constructor is only as safe as its caller: it trusts \<open>len\<close> for the size of the
  array. Within the array it agrees with the vector constructor; a null pointer gives a packet of
  zeros that still claims \<open>len\<close> bytes.
\<close>

lemma unat_clamp: "unat (if 1500 < len then 1500 else len :: u32) = min MTU (unat len)"
  by (auto simp: word_1500 MTU_def min_def)

text \<open>The pointer constructor copies the first \<open>min(len, 1500)\<close> bytes of its array when the
  array has that many, gives zeros for a null pointer, and reads out of bounds exactly when the
  array is shorter than the clamped length.\<close>

theorem packet_of_buffer_cases:
  "packet_of_buffer t None len =
     Inr \<lparr>header = \<lparr>version = 1, ptype = t, plength = (if 1500 < len then 1500 else len)\<rparr>,
          payload = replicate MTU 0\<rparr> \<and>
   packet_of_buffer t (Some d) len =
     (if length d < min MTU (unat len) then Inl OutOfBounds
      else Inr \<lparr>header = \<lparr>version = 1, ptype = t, plength = (if 1500 < len then 1500 else len)\<rparr>,
                payload = take (min MTU (unat len)) d @ replicate (MTU - unat len) 0\<rparr>)"
proof -
  define l where "l = (if 1500 < len then 1500 else len :: u32)"
  have l: "unat l = min MTU (unat len)" unfolding l_def by (rule unat_clamp)
  have "unat len = 0" if "\<not> 0 < l"
  proof -
    have "unat l = 0" using that by (simp add: unat_pos_iff [symmetric])
    then show ?thesis using l by (simp add: MTU_def min_def split: if_splits)
  qed
  moreover have "mem_copy (replicate MTU 0) 0 d (min MTU (unat len)) =
      (if length d < min MTU (unat len) then Inl OutOfBounds
       else Inr (take (min MTU (unat len)) d @ replicate (MTU - unat len) 0))"
    by (auto simp: mem_copy_def min_def)
  ultimately show ?thesis
    unfolding packet_of_buffer_def Let_def packet_zero_def l_def [symmetric] l
    by (auto simp: MTU_def)
qed

section \<open>Messages\<close>

text \<open>A \<open>Message\<close> is a string payload; \<open>char\<close> and \<open>uint8_t\<close> convert by their eight bits.\<close>

record message =
  mpayload :: string

definition byte_of_char :: "char \<Rightarrow> u8" where
  "byte_of_char c = of_nat (of_char c)"

definition char_of_byte :: "u8 \<Rightarrow> char" where
  "char_of_byte b = char_of (unat b)"

definition message_serialize :: "message \<Rightarrow> u8 list" where
  "message_serialize m = map byte_of_char (mpayload m)"

definition message_deserialize :: "u8 list \<Rightarrow> message" where
  "message_deserialize bytes = \<lparr>mpayload = map char_of_byte bytes\<rparr>"

lemma char_byte_char [simp]: "char_of_byte (byte_of_char c) = c"
  by (simp add: char_of_byte_def byte_of_char_def unat_of_nat)

lemma byte_char_byte [simp]: "byte_of_char (char_of_byte b) = b"
proof -
  have "unat b < 2 ^ LENGTH(8)" by (rule unsigned_less)
  then have "unat b mod 256 = unat b" by simp
  then show ?thesis
    unfolding char_of_byte_def byte_of_char_def of_char_of by (simp only: of_nat_unat) simp
qed

lemma char_of_byte_eq_iff: "char_of_byte b = c \<longleftrightarrow> b = byte_of_char c"
  by (metis char_byte_char byte_char_byte)

text \<open>Messages and byte vectors are in bijection: \<open>deserialize\<close> inverts \<open>serialize\<close> and
  conversely, for all 256 byte values.\<close>

theorem message_roundtrip:
  "message_deserialize (message_serialize m) = m \<and>
   message_serialize (message_deserialize bytes) = bytes"
  by (simp add: message_serialize_def message_deserialize_def comp_def map_idI)

end
