(* ===== verification/Arena.thy ===== *)
theory Arena
  imports Prelude
begin

text \<open>
  The bump allocator \<^verbatim>\<open>include/core/memory_arena.hpp\<close>. Addresses are natural numbers (the
  arena and everything in it lie below the top of the address space, so pointer arithmetic does not
  wrap); \<open>std::align\<close> is modelled from the C++ standard; the block returned by the aligned
  \<open>operator new\<close> is the argument \<open>start\<close> of the constructor. The facts: a request succeeds
  exactly when its aligned end stays within the arena, and in every sequence of allocations and
  resets the blocks handed out since the last reset are aligned, inside the arena and pairwise
  disjoint.
\<close>

record arena =
  arena_start :: nat
  arena_end :: nat
  current_cursor :: nat

datatype arena_error = BadAlloc

definition arena_new :: "nat \<Rightarrow> nat \<Rightarrow> arena" where
  "arena_new start bytes_capacity =
     \<lparr>arena_start = start, arena_end = start + bytes_capacity, current_cursor = start\<rparr>"

text \<open>
  \<open>std::align(alignment, size, ptr, space)\<close>: the least aligned address at or above \<open>ptr\<close>, if
  \<open>size\<close> bytes from there fit into the \<open>space\<close> bytes at \<open>ptr\<close>.
\<close>

definition align_up :: "nat \<Rightarrow> nat \<Rightarrow> nat" where
  "align_up alignment ptr = (ptr + alignment - 1) div alignment * alignment"

definition std_align :: "nat \<Rightarrow> nat \<Rightarrow> nat \<Rightarrow> nat \<Rightarrow> nat option" where
  "std_align alignment sz ptr space =
     (let aligned = align_up alignment ptr
      in if sz \<le> space \<and> aligned - ptr \<le> space - sz then Some aligned else None)"

text \<open>\<open>allocate<T>\<close> with \<open>size = sizeof(T)\<close> and \<open>alignment = alignof(T)\<close>.\<close>

definition arena_allocate :: "arena \<Rightarrow> nat \<Rightarrow> nat \<Rightarrow> arena_error + nat \<times> arena" where
  "arena_allocate a sz alignment =
     (case std_align alignment sz (current_cursor a) (arena_end a - current_cursor a) of
        None \<Rightarrow> Inl BadAlloc
      | Some ptr \<Rightarrow> Inr (ptr, a\<lparr>current_cursor := ptr + sz\<rparr>))"

definition arena_reset :: "arena \<Rightarrow> arena" where
  "arena_reset a = a\<lparr>current_cursor := arena_start a\<rparr>"

lemma align_up_ge: "0 < al \<Longrightarrow> ptr \<le> align_up al ptr"
proof -
  assume al: "0 < al"
  have "ptr + al - 1 < ((ptr + al - 1) div al + 1) * al"
    using al by (metis Suc_eq_plus1 dividend_less_div_times mult.commute mult_Suc_right add.commute)
  then show ?thesis using al by (simp add: align_up_def)
qed

lemma align_up_dvd: "al dvd align_up al ptr"
  by (simp add: align_up_def)

lemma align_up_less: "0 < al \<Longrightarrow> align_up al ptr < ptr + al"
  using div_times_less_eq_dividend [of "ptr + al - 1" al] unfolding align_up_def by linarith

lemma align_up_least: "0 < al \<Longrightarrow> al dvd q \<Longrightarrow> ptr \<le> q \<Longrightarrow> align_up al ptr \<le> q"
proof -
  assume *: "0 < al" "al dvd q" "ptr \<le> q"
  then obtain k where q: "q = al * k" by blast
  have "ptr + al - 1 < (k + 1) * al" using * q by (simp add: algebra_simps)
  then have "(ptr + al - 1) div al < k + 1" by (simp add: less_mult_imp_div_less)
  then show ?thesis using q by (simp add: align_up_def mult.commute)
qed

section \<open>One request\<close>

definition arena_wf :: "arena \<Rightarrow> bool" where
  "arena_wf a \<longleftrightarrow> arena_start a \<le> current_cursor a \<and> current_cursor a \<le> arena_end a"

lemma arena_wf_new: "arena_wf (arena_new start cap)"
  by (simp add: arena_wf_def arena_new_def)

lemma arena_wf_reset: "arena_wf a \<Longrightarrow> arena_wf (arena_reset a)"
  by (simp add: arena_wf_def arena_reset_def)

lemma allocate_eq:
  assumes "arena_wf a" and "0 < al"
  shows "arena_allocate a sz al =
    (if align_up al (current_cursor a) + sz \<le> arena_end a
     then Inr (align_up al (current_cursor a),
               a\<lparr>current_cursor := align_up al (current_cursor a) + sz\<rparr>)
     else Inl BadAlloc)"
  using assms align_up_ge [of al "current_cursor a"]
  by (auto simp: arena_allocate_def std_align_def Let_def arena_wf_def)

text \<open>A request for \<open>size\<close> bytes at a positive alignment throws \<open>bad_alloc\<close> exactly when no
  aligned address at or above the cursor leaves \<open>size\<close> bytes before the end of the arena; otherwise
  it returns the least such address and puts the cursor just behind the block.\<close>

theorem arena_allocate_spec:
  assumes "arena_wf a" and "0 < al"
  shows "(arena_allocate a sz al = Inl BadAlloc \<longleftrightarrow>
            \<not> (\<exists>q. al dvd q \<and> current_cursor a \<le> q \<and> q + sz \<le> arena_end a)) \<and>
         (\<forall>ptr a'. arena_allocate a sz al = Inr (ptr, a') \<longrightarrow>
            al dvd ptr \<and> current_cursor a \<le> ptr \<and> ptr + sz \<le> arena_end a \<and>
            (\<forall>q. al dvd q \<and> current_cursor a \<le> q \<longrightarrow> ptr \<le> q) \<and>
            a' = a\<lparr>current_cursor := ptr + sz\<rparr>)"
proof -
  let ?q = "align_up al (current_cursor a)"
  have q: "al dvd ?q" "current_cursor a \<le> ?q"
    using assms by (simp_all add: align_up_dvd align_up_ge)
  have least: "?q \<le> q" if "al dvd q" "current_cursor a \<le> q" for q
    using that assms align_up_least by blast
  have "(\<exists>q. al dvd q \<and> current_cursor a \<le> q \<and> q + sz \<le> arena_end a) \<longleftrightarrow> ?q + sz \<le> arena_end a"
    using q least by (meson add_le_mono1 le_trans)
  then show ?thesis
    unfolding allocate_eq [OF assms] using q least by auto
qed

lemma arena_allocate_spec_witness:
  "arena_allocate (arena_new 64 10240) 1506 1 = Inr (64, (arena_new 64 10240)\<lparr>current_cursor := 1570\<rparr>)
   \<and> (1::nat) dvd 64"
proof -
  have "arena_allocate (arena_new 64 10240) 1506 1 =
      Inr (64, (arena_new 64 10240)\<lparr>current_cursor := 1570\<rparr>)"
    by (simp add: arena_allocate_def std_align_def align_up_def arena_new_def)
  then show ?thesis
    using arena_allocate_spec [OF arena_wf_new, of 1 64 10240 1506] by simp
qed

section \<open>Sequences of requests\<close>

text \<open>
  A run over requests and resets, with the list of blocks (address and size) handed out since the
  last reset, newest first. A failed request leaves the arena unchanged (the exception propagates
  to the caller) and adds no block.
\<close>

datatype arena_op = Allocate nat nat | Reset

type_synonym block = "nat \<times> nat"

fun arena_step :: "arena \<times> block list \<Rightarrow> arena_op \<Rightarrow> arena \<times> block list" where
  "arena_step (a, live) (Allocate sz al) =
     (case arena_allocate a sz al of
        Inl _ \<Rightarrow> (a, live)
      | Inr (ptr, a') \<Rightarrow> (a', (ptr, sz) # live))"
| "arena_step (a, live) Reset = (arena_reset a, [])"

definition arena_run :: "arena \<Rightarrow> arena_op list \<Rightarrow> arena \<times> block list" where
  "arena_run a ops = foldl arena_step (a, []) ops"

fun disjoint_blocks :: "block list \<Rightarrow> bool" where
  "disjoint_blocks [] = True"
| "disjoint_blocks ((p, n) # bs) =
     ((\<forall>(q, m) \<in> set bs. q + m \<le> p \<or> p + n \<le> q) \<and> disjoint_blocks bs)"

definition live_inv :: "nat \<Rightarrow> nat \<Rightarrow> arena \<times> block list \<Rightarrow> bool" where
  "live_inv lo hi st \<longleftrightarrow>
     (case st of (a, live) \<Rightarrow>
        arena_wf a \<and> arena_start a = lo \<and> arena_end a = hi \<and> disjoint_blocks live \<and>
        (\<forall>(p, n) \<in> set live. lo \<le> p \<and> p + n \<le> current_cursor a))"

fun positive_alignment :: "arena_op \<Rightarrow> bool" where
  "positive_alignment (Allocate _ al) = (0 < al)"
| "positive_alignment Reset = True"

lemma arena_step_inv:
  assumes "live_inv lo hi st" and "positive_alignment op"
  shows "live_inv lo hi (arena_step st op)"
proof (cases op)
  case Reset
  then show ?thesis
    using assms by (cases st) (auto simp: live_inv_def arena_reset_def arena_wf_def)
next
  case (Allocate sz al)
  obtain a live where st: "st = (a, live)" by force
  let ?q = "align_up al (current_cursor a)"
  have wf: "arena_wf a" and al: "0 < al" using assms Allocate st by (auto simp: live_inv_def)
  have "current_cursor a \<le> ?q" using al by (rule align_up_ge)
  then show ?thesis
    using assms(1) wf Allocate st
    by (fastforce simp: allocate_eq [OF wf al] live_inv_def arena_wf_def)
qed

lemma arena_run_inv:
  assumes "list_all positive_alignment ops"
  shows "live_inv start (start + cap) (arena_run (arena_new start cap) ops)"
proof -
  have "live_inv lo hi (foldl arena_step st ops)" if "live_inv lo hi st" for lo hi st
    using assms that by (induction ops arbitrary: st) (auto simp: arena_step_inv)
  moreover have "live_inv start (start + cap) (arena_new start cap, [])"
    by (simp add: live_inv_def arena_wf_new) (simp add: arena_new_def)
  ultimately show ?thesis by (simp add: arena_run_def)
qed

text \<open>C32 Memory safety of the arena: after any sequence of allocations and resets of a fresh arena,
  the blocks handed out since the last reset lie inside the arena and no two of them overlap.\<close>

theorem arena_blocks_disjoint:
  assumes "list_all positive_alignment ops"
    and "arena_run (arena_new start cap) ops = (a, live)"
  shows "disjoint_blocks live \<and> (\<forall>(p, n) \<in> set live. start \<le> p \<and> p + n \<le> start + cap)"
  using arena_run_inv [OF assms(1), of start cap] assms(2)
  by (fastforce simp: live_inv_def arena_wf_def)

lemma arena_blocks_disjoint_witness:
  "disjoint_blocks [(72, 16), (64, 5)] \<and>
   list_all (\<lambda>(p, n). (64::nat) \<le> p \<and> p + n \<le> 64 + 100) [(72, 16), (64, 5)]"
proof -
  have 1: "list_all positive_alignment [Allocate 3 4, Reset, Allocate 5 1, Allocate 16 8]" by simp
  have 2: "arena_run (arena_new 64 100) [Allocate 3 4, Reset, Allocate 5 1, Allocate 16 8] =
      (\<lparr>arena_start = 64, arena_end = 164, current_cursor = 88\<rparr>, [(72, 16), (64, 5)])"
    by (simp add: arena_run_def arena_new_def arena_allocate_def std_align_def align_up_def
        arena_reset_def)
  from arena_blocks_disjoint [OF 1 2] show ?thesis by simp
qed

end
