(* ===== verification/Arp.thy ===== *)
theory Arp
  imports Prelude "HOL-Library.AList"
begin

text \<open>
  The ARP cache: \<^verbatim>\<open>include/network/arp.hpp\<close> and \<^verbatim>\<open>src/network/arp.cpp\<close>. The usage
  list is a list of nodes with identities, so that the iterators which the hash map stores
  (\<open>list_position\<close>) are references that can dangle: splicing or erasing through an iterator whose
  node is gone, and \<open>back()\<close> of an empty list, are undefined behaviour and become error values. The
  hash map is an association list with distinct keys (its iteration order is never used).

  The abstract component is a least-recently-used list of (address, MAC) pairs. The interface
  \<open>lru_cache\<close> states what a client may rely on; the model of the code interprets it, so every
  sequence of operations behaves like the abstract list and never reaches an error value.
\<close>

section \<open>The cache of the code\<close>

record cache_node =
  mac_address :: string
  list_position :: nat

record arp_cache =
  capacity_limit :: nat
  usage_list :: "(nat \<times> string) list"
  cache_map :: "(string \<times> cache_node) list"
  next_node :: nat

datatype arp_error = ZeroCapacity | DanglingIterator | BackOfEmptyList

definition arp_new :: "nat \<Rightarrow> arp_error + arp_cache" where
  "arp_new max_capacity =
     (if max_capacity = 0 then Inl ZeroCapacity
      else Inr \<lparr>capacity_limit = max_capacity, usage_list = [], cache_map = [], next_node = 0\<rparr>)"

definition arp_size :: "arp_cache \<Rightarrow> nat" where
  "arp_size c = length (cache_map c)"

text \<open>\<open>splice(begin, list, it)\<close> and \<open>erase(it)\<close> of \<open>std::list\<close>.\<close>

definition splice_front :: "nat \<Rightarrow> (nat \<times> string) list \<Rightarrow> arp_error + (nat \<times> string) list" where
  "splice_front it xs =
     (case map_of xs it of
        None \<Rightarrow> Inl DanglingIterator
      | Some ip \<Rightarrow> Inr ((it, ip) # AList.delete it xs))"

definition erase_node :: "nat \<Rightarrow> (nat \<times> string) list \<Rightarrow> arp_error + (nat \<times> string) list" where
  "erase_node it xs =
     (case map_of xs it of None \<Rightarrow> Inl DanglingIterator | Some _ \<Rightarrow> Inr (AList.delete it xs))"

definition arp_get :: "arp_cache \<Rightarrow> string \<Rightarrow> arp_error + (bool \<times> string) \<times> arp_cache" where
  "arp_get c ip =
     (case map_of (cache_map c) ip of
        None \<Rightarrow> Inr ((False, []), c)
      | Some node \<Rightarrow>
          (case splice_front (list_position node) (usage_list c) of
             Inl e \<Rightarrow> Inl e
           | Inr ul \<Rightarrow> Inr ((True, mac_address node), c\<lparr>usage_list := ul\<rparr>)))"

definition arp_evict :: "arp_cache \<Rightarrow> arp_error + arp_cache" where
  "arp_evict c =
     (if capacity_limit c \<le> arp_size c then
        (if usage_list c = [] then Inl BackOfEmptyList
         else
           let eviction_target_key = snd (last (usage_list c))
           in Inr (c\<lparr>cache_map := AList.delete eviction_target_key (cache_map c),
                     usage_list := butlast (usage_list c)\<rparr>))
      else Inr c)"

definition arp_put :: "arp_cache \<Rightarrow> string \<Rightarrow> string \<Rightarrow> arp_error + arp_cache" where
  "arp_put c ip mac =
     (case map_of (cache_map c) ip of
        Some node \<Rightarrow>
          (let c = c\<lparr>cache_map := AList.update ip (node\<lparr>mac_address := mac\<rparr>) (cache_map c)\<rparr> in
           case splice_front (list_position node) (usage_list c) of
             Inl e \<Rightarrow> Inl e
           | Inr ul \<Rightarrow> Inr (c\<lparr>usage_list := ul\<rparr>))
      | None \<Rightarrow>
          (case arp_evict c of
             Inl e \<Rightarrow> Inl e
           | Inr c \<Rightarrow>
               Inr (c\<lparr>usage_list := (next_node c, ip) # usage_list c,
                      cache_map := AList.update ip
                        \<lparr>mac_address = mac, list_position = next_node c\<rparr> (cache_map c),
                      next_node := next_node c + 1\<rparr>)))"

definition arp_invalidate :: "arp_cache \<Rightarrow> string \<Rightarrow> arp_error + bool \<times> arp_cache" where
  "arp_invalidate c ip =
     (case map_of (cache_map c) ip of
        None \<Rightarrow> Inr (False, c)
      | Some node \<Rightarrow>
          (case erase_node (list_position node) (usage_list c) of
             Inl e \<Rightarrow> Inl e
           | Inr ul \<Rightarrow>
               Inr (True, c\<lparr>usage_list := ul, cache_map := AList.delete ip (cache_map c)\<rparr>)))"

section \<open>The abstract cache\<close>

type_synonym lru = "(string \<times> string) list"

definition lru_get :: "lru \<Rightarrow> string \<Rightarrow> (bool \<times> string) \<times> lru" where
  "lru_get xs ip =
     (case map_of xs ip of
        None \<Rightarrow> ((False, []), xs)
      | Some mac \<Rightarrow> ((True, mac), (ip, mac) # AList.delete ip xs))"

definition lru_put :: "nat \<Rightarrow> lru \<Rightarrow> string \<Rightarrow> string \<Rightarrow> lru" where
  "lru_put cap xs ip mac =
     (if ip \<in> fst ` set xs then (ip, mac) # AList.delete ip xs
      else (ip, mac) # (if cap \<le> length xs then butlast xs else xs))"

definition lru_invalidate :: "lru \<Rightarrow> string \<Rightarrow> bool \<times> lru" where
  "lru_invalidate xs ip = (ip \<in> fst ` set xs, AList.delete ip xs)"

definition arp_abs :: "arp_cache \<Rightarrow> lru" where
  "arp_abs c =
     map (\<lambda>(_, ip). (ip, mac_address (the (map_of (cache_map c) ip)))) (usage_list c)"

text \<open>
  The structural invariant: list and map hold the same keys, every stored iterator is the node that
  carries its key, and node identities are fresh.
\<close>

definition node_of :: "(string \<times> cache_node) list \<Rightarrow> string \<Rightarrow> nat option" where
  "node_of cm ip = map_option list_position (map_of cm ip)"

definition linked :: "(nat \<times> string) list \<Rightarrow> (string \<times> cache_node) list \<Rightarrow> bool" where
  "linked ul cm \<longleftrightarrow>
     distinct (map fst ul) \<and> distinct (map snd ul) \<and> distinct (map fst cm) \<and>
     (\<forall>ip i. node_of cm ip = Some i \<longleftrightarrow> (i, ip) \<in> set ul)"

definition arp_inv :: "arp_cache \<Rightarrow> bool" where
  "arp_inv c \<longleftrightarrow>
     0 < capacity_limit c \<and> length (usage_list c) \<le> capacity_limit c \<and>
     linked (usage_list c) (cache_map c) \<and> (\<forall>(i, _) \<in> set (usage_list c). i < next_node c)"

subsection \<open>Linked lists and maps\<close>

lemma delete_filter: "AList.delete k xs = filter (\<lambda>x. fst x \<noteq> k) xs"
  by (auto simp: AList.delete_eq intro!: filter_cong)

lemma node_of_Some: "map_of cm ip = Some nd \<Longrightarrow> node_of cm ip = Some (list_position nd)"
  by (simp add: node_of_def)

lemma node_of_None: "node_of cm ip = None \<longleftrightarrow> map_of cm ip = None"
  by (simp add: node_of_def)

lemma node_of_update:
  "node_of (AList.update ip nd cm) = (node_of cm)(ip \<mapsto> list_position nd)"
  by (auto simp: node_of_def update_conv')

lemma node_of_delete: "node_of (AList.delete ip cm) = (node_of cm)(ip := None)"
  by (auto simp: node_of_def delete_conv')

lemma linked_node:
  assumes "linked ul cm" and "map_of cm ip = Some nd"
  shows "(list_position nd, ip) \<in> set ul" and "map_of ul (list_position nd) = Some ip"
proof -
  show *: "(list_position nd, ip) \<in> set ul"
    using assms(1) node_of_Some [OF assms(2)] unfolding linked_def by blast
  then show "map_of ul (list_position nd) = Some ip"
    using assms(1) unfolding linked_def by (intro map_of_is_SomeI) auto
qed

lemma linked_none: "linked ul cm \<Longrightarrow> map_of cm ip = None \<longleftrightarrow> ip \<notin> snd ` set ul"
  unfolding linked_def node_of_None [symmetric] by (cases "node_of cm ip") force+

lemma linked_keys: "linked ul cm \<Longrightarrow> set (map fst cm) = set (map snd ul)"
  using linked_none [of ul cm] by (auto simp: map_of_eq_None_iff)

lemma linked_length: "linked ul cm \<Longrightarrow> length cm = length ul"
  using linked_keys [of ul cm] distinct_card [of "map fst cm"] distinct_card [of "map snd ul"]
  by (auto simp: linked_def)

lemma same_node:
  assumes "linked ul cm" and "(i, ip) \<in> set ul" and "(j, jp) \<in> set ul"
  shows "i = j \<longleftrightarrow> ip = jp"
proof -
  have "inj_on fst (set ul)" "inj_on snd (set ul)"
    using assms(1) by (auto simp: linked_def distinct_map)
  then show ?thesis
    using inj_onD [of fst "set ul" "(i, ip)" "(j, jp)"]
      inj_onD [of snd "set ul" "(i, ip)" "(j, jp)"] assms(2,3) by auto
qed

text \<open>A node is found by its identity or by its key.\<close>

lemma node_key_iff:
  assumes "linked ul cm" and "map_of cm ip = Some nd" and "x \<in> set ul"
  shows "fst x = list_position nd \<longleftrightarrow> snd x = ip"
  using same_node [OF assms(1) linked_node(1) [OF assms(1,2)], of "fst x" "snd x"] assms(3) by auto

lemma delete_by_node:
  assumes "linked ul cm" and "map_of cm ip = Some nd"
  shows "AList.delete (list_position nd) ul = filter (\<lambda>x. snd x \<noteq> ip) ul"
  unfolding delete_filter using node_key_iff [OF assms] by (intro filter_cong) auto

lemma splice_linked:
  assumes "linked ul cm" and "map_of cm ip = Some nd"
  shows "splice_front (list_position nd) ul =
    Inr ((list_position nd, ip) # filter (\<lambda>x. snd x \<noteq> ip) ul)"
  using linked_node(2) [OF assms] by (simp add: splice_front_def delete_by_node [OF assms])

lemma erase_linked:
  assumes "linked ul cm" and "map_of cm ip = Some nd"
  shows "erase_node (list_position nd) ul = Inr (filter (\<lambda>x. snd x \<noteq> ip) ul)"
  using linked_node(2) [OF assms] by (simp add: erase_node_def delete_by_node [OF assms])

lemma moved_set:
  assumes "linked ul cm" and "map_of cm ip = Some nd"
  shows "set ((list_position nd, ip) # filter (\<lambda>x. snd x \<noteq> ip) ul) = set ul"
proof (intro equalityI subsetI)
  fix x assume "x \<in> set ((list_position nd, ip) # filter (\<lambda>x. snd x \<noteq> ip) ul)"
  then show "x \<in> set ul" using linked_node(1) [OF assms] by auto
next
  fix x assume x: "x \<in> set ul"
  show "x \<in> set ((list_position nd, ip) # filter (\<lambda>x. snd x \<noteq> ip) ul)"
  proof (cases "snd x = ip")
    case True
    then have "x = (list_position nd, ip)"
      using node_key_iff [OF assms x] by (simp add: prod_eq_iff)
    then show ?thesis by simp
  next
    case False
    with x show ?thesis by simp
  qed
qed

text \<open>The four changes an operation makes to a linked pair.\<close>

lemma linked_move:
  assumes "linked ul cm" and "map_of cm ip = Some nd"
  shows "linked ((list_position nd, ip) # filter (\<lambda>x. snd x \<noteq> ip) ul) cm"
proof -
  have "list_position nd \<notin> fst ` set (filter (\<lambda>x. snd x \<noteq> ip) ul)"
    using node_key_iff [OF assms] by force
  then show ?thesis
    using assms(1) moved_set [OF assms] unfolding linked_def by (auto simp: distinct_map_filter)
qed

lemma linked_update:
  assumes "linked ul cm" and "map_of cm ip = Some nd" and "list_position nd' = list_position nd"
  shows "linked ul (AList.update ip nd' cm)"
proof -
  have "node_of (AList.update ip nd' cm) = node_of cm"
    using node_of_Some [OF assms(2)] assms(3) by (auto simp: node_of_update)
  then show ?thesis using assms(1) by (simp add: linked_def distinct_update)
qed

lemma linked_delete:
  assumes "linked ul cm"
  shows "linked (filter (\<lambda>x. snd x \<noteq> ip) ul) (AList.delete ip cm)"
  using assms unfolding linked_def
  by (auto simp: node_of_delete distinct_delete distinct_map_filter)

lemma linked_insert:
  assumes "linked ul cm" and "\<forall>(i, _) \<in> set ul. i < n" and "map_of cm ip = None"
    and "list_position nd = n"
  shows "linked ((n, ip) # ul) (AList.update ip nd cm)"
proof -
  have "n \<notin> fst ` set ul" using assms(2) by auto
  moreover have "ip \<notin> snd ` set ul" using linked_none [OF assms(1)] assms(3) by simp
  moreover have "(i, ip) \<notin> set ul" for i using calculation by force
  ultimately show ?thesis
    using assms unfolding linked_def
    by (auto simp: node_of_update distinct_update)
qed

subsection \<open>The abstraction of a linked pair\<close>

definition entries :: "(string \<times> cache_node) list \<Rightarrow> (nat \<times> string) list \<Rightarrow> lru" where
  "entries cm ul = map (\<lambda>(_, ip). (ip, mac_address (the (map_of cm ip)))) ul"

lemma arp_abs_entries: "arp_abs c = entries (cache_map c) (usage_list c)"
  by (simp add: arp_abs_def entries_def)

lemma entries_Cons [simp]:
  "entries cm ((i, ip) # ul) = (ip, mac_address (the (map_of cm ip))) # entries cm ul"
  by (simp add: entries_def)

lemma length_entries [simp]: "length (entries cm ul) = length ul"
  by (simp add: entries_def)

lemma fst_entries [simp]: "map fst (entries cm ul) = map snd ul"
  by (auto simp: entries_def)

lemma fst_set_entries [simp]: "fst ` set (entries cm ul) = snd ` set ul"
  by (metis fst_entries list.set_map)

lemma entries_filter: "AList.delete ip (entries cm ul) = entries cm (filter (\<lambda>x. snd x \<noteq> ip) ul)"
  unfolding delete_filter entries_def
  by (induction ul) auto

lemma entries_butlast: "entries cm (butlast ul) = butlast (entries cm ul)"
  by (simp add: entries_def map_butlast)

lemma entries_cong:
  "(\<And>ip. ip \<in> snd ` set ul \<Longrightarrow> map_of cm ip = map_of cm' ip) \<Longrightarrow> entries cm ul = entries cm' ul"
  by (force simp: entries_def)

lemma map_of_entries:
  assumes "linked ul cm"
  shows "map_of (entries cm ul) ip = map_option mac_address (map_of cm ip)"
proof (cases "map_of cm ip")
  case None
  then have "map_of (entries cm ul) ip = None"
    unfolding map_of_eq_None_iff using linked_none [OF assms, THEN iffD1, OF None] by simp
  then show ?thesis using None by simp
next
  case (Some nd)
  have "(ip, mac_address nd) \<in> set (entries cm ul)"
    using linked_node(1) [OF assms Some] Some by (force simp: entries_def)
  moreover have "distinct (map fst (entries cm ul))"
    using assms by (simp add: linked_def)
  ultimately show ?thesis using Some by (simp add: map_of_is_SomeI)
qed

lemma filter_last_key:
  assumes "distinct (map snd ul)" and "ul \<noteq> []"
  shows "filter (\<lambda>x. snd x \<noteq> snd (last ul)) ul = butlast ul"
proof -
  obtain ys y where ul: "ul = ys @ [y]" using assms(2) by (metis append_butlast_last_id)
  then have "snd y \<notin> snd ` set ys" using assms(1) by simp
  then have "filter (\<lambda>x. snd x \<noteq> snd y) ys = ys" 
    by (intro filter_True ballI notI) (erule notE, erule rev_image_eqI, simp)
  then show ?thesis using ul by simp
qed

subsection \<open>Each operation implements its abstract counterpart\<close>

lemma arp_get_refines:
  assumes "arp_inv c"
  shows "\<exists>c'. arp_get c ip = Inr (fst (lru_get (arp_abs c) ip), c') \<and> arp_inv c' \<and>
    capacity_limit c' = capacity_limit c \<and> arp_abs c' = snd (lru_get (arp_abs c) ip)"
proof -
  have l: "linked (usage_list c) (cache_map c)" using assms by (simp add: arp_inv_def)
  show ?thesis
  proof (cases "map_of (cache_map c) ip")
    case None
    then show ?thesis
      using assms by (simp add: arp_get_def lru_get_def arp_abs_entries map_of_entries [OF l])
  next
    case (Some nd)
    let ?ul = "(list_position nd, ip) # filter (\<lambda>x. snd x \<noteq> ip) (usage_list c)"
    have "arp_get c ip = Inr ((True, mac_address nd), c\<lparr>usage_list := ?ul\<rparr>)"
      using Some by (simp add: arp_get_def splice_linked [OF l Some])
    moreover have "length ?ul = length (usage_list c)"
      using linked_length [OF l] linked_length [OF linked_move [OF l Some]] by simp
    then have "arp_inv (c\<lparr>usage_list := ?ul\<rparr>)"
      using assms linked_move [OF l Some] moved_set [OF l Some]
      unfolding arp_inv_def by (simp del: set_simps)
    moreover have "lru_get (arp_abs c) ip =
        ((True, mac_address nd), arp_abs (c\<lparr>usage_list := ?ul\<rparr>))"
      using Some by (simp add: lru_get_def arp_abs_entries map_of_entries [OF l] entries_filter)
    ultimately show ?thesis by simp
  qed
qed

lemma arp_invalidate_refines:
  assumes "arp_inv c"
  shows "\<exists>c'. arp_invalidate c ip = Inr (fst (lru_invalidate (arp_abs c) ip), c') \<and> arp_inv c' \<and>
    capacity_limit c' = capacity_limit c \<and> arp_abs c' = snd (lru_invalidate (arp_abs c) ip)"
proof -
  have l: "linked (usage_list c) (cache_map c)" using assms by (simp add: arp_inv_def)
  let ?ul = "filter (\<lambda>x. snd x \<noteq> ip) (usage_list c)"
  have abs: "entries (AList.delete ip (cache_map c)) ?ul = AList.delete ip (arp_abs c)"
    unfolding arp_abs_entries entries_filter by (rule entries_cong) (auto simp: delete_conv')
  show ?thesis
  proof (cases "map_of (cache_map c) ip")
    case None
    then have "ip \<notin> snd ` set (usage_list c)" using linked_none [OF l] by simp
    then show ?thesis
      using assms None
      by (simp add: arp_invalidate_def lru_invalidate_def arp_abs_entries delete_idem)
  next
    case (Some nd)
    then have "ip \<in> snd ` set (usage_list c)" using linked_none [OF l, of ip] by simp
    moreover have "length ?ul \<le> capacity_limit c"
      using assms length_filter_le [of _ "usage_list c"] unfolding arp_inv_def by (meson le_trans)
    moreover have "arp_invalidate c ip =
        Inr (True, c\<lparr>usage_list := ?ul, cache_map := AList.delete ip (cache_map c)\<rparr>)"
      using Some by (simp add: arp_invalidate_def erase_linked [OF l Some])
    moreover have "arp_inv (c\<lparr>usage_list := ?ul, cache_map := AList.delete ip (cache_map c)\<rparr>)"
      using assms linked_delete [OF l, of ip] calculation(2) by (auto simp: arp_inv_def)
    ultimately show ?thesis
      using abs by (simp add: lru_invalidate_def arp_abs_entries)
  qed
qed

lemma arp_evict_refines:
  assumes "arp_inv c"
  shows "\<exists>c'. arp_evict c = Inr c' \<and> linked (usage_list c') (cache_map c') \<and>
    capacity_limit c' = capacity_limit c \<and> next_node c' = next_node c \<and>
    length (usage_list c') < capacity_limit c \<and> set (usage_list c') \<subseteq> set (usage_list c) \<and>
    arp_abs c' =
      (if capacity_limit c \<le> length (arp_abs c) then butlast (arp_abs c) else arp_abs c)"
proof -
  have l: "linked (usage_list c) (cache_map c)" and ne: "0 < capacity_limit c"
    and le: "length (usage_list c) \<le> capacity_limit c"
    using assms by (simp_all add: arp_inv_def)
  have sz: "arp_size c = length (arp_abs c)" "length (arp_abs c) = length (usage_list c)"
    by (simp_all add: arp_size_def linked_length [OF l] arp_abs_entries)
  show ?thesis
  proof (cases "capacity_limit c \<le> length (arp_abs c)")
    case False
    then show ?thesis using l sz by (intro exI [of _ c]) (simp add: arp_evict_def)
  next
    case True
    then have ul: "usage_list c \<noteq> []" using ne sz by auto
    let ?k = "snd (last (usage_list c))"
    let ?cm = "AList.delete ?k (cache_map c)"
    let ?c = "c\<lparr>cache_map := ?cm, usage_list := butlast (usage_list c)\<rparr>"
    have flt: "filter (\<lambda>x. snd x \<noteq> ?k) (usage_list c) = butlast (usage_list c)"
      using l ul by (intro filter_last_key) (simp_all add: linked_def)
    have "linked (butlast (usage_list c)) ?cm" using linked_delete [OF l, of ?k] flt by simp
    moreover have "entries ?cm (butlast (usage_list c)) =
        entries (cache_map c) (butlast (usage_list c))"
      unfolding flt [symmetric] by (rule entries_cong) (auto simp: delete_conv')
    moreover have "arp_evict c = Inr ?c" using True ul sz by (simp add: arp_evict_def Let_def)
    ultimately show ?thesis
      using True ul le ne
      by (intro exI [of _ ?c]) (auto simp: arp_abs_entries entries_butlast dest: in_set_butlastD)
  qed
qed

lemma arp_put_refines:
  assumes "arp_inv c"
  shows "\<exists>c'. arp_put c ip mac = Inr c' \<and> arp_inv c' \<and>
    capacity_limit c' = capacity_limit c \<and>
    arp_abs c' = lru_put (capacity_limit c) (arp_abs c) ip mac"
proof -
  have l: "linked (usage_list c) (cache_map c)" using assms by (simp add: arp_inv_def)
  have keys: "fst ` set (arp_abs c) = snd ` set (usage_list c)" by (simp add: arp_abs_entries)
  show ?thesis
  proof (cases "map_of (cache_map c) ip")
    case (Some nd)
    let ?cm = "AList.update ip (nd\<lparr>mac_address := mac\<rparr>) (cache_map c)"
    let ?ul = "(list_position nd, ip) # filter (\<lambda>x. snd x \<noteq> ip) (usage_list c)"
    let ?c = "c\<lparr>cache_map := ?cm, usage_list := ?ul\<rparr>"
    have l': "linked ?ul ?cm" by (rule linked_update [OF linked_move [OF l Some] Some]) simp
    have "arp_put c ip mac = Inr ?c"
      using Some by (simp add: arp_put_def splice_linked [OF l Some] Let_def)
    moreover have "length ?ul = length (usage_list c)"
      using linked_length [OF l] linked_length [OF linked_move [OF l Some]] by simp
    then have "arp_inv ?c"
      using assms l' moved_set [OF l Some] unfolding arp_inv_def by (simp del: set_simps)
    moreover have "entries ?cm (filter (\<lambda>x. snd x \<noteq> ip) (usage_list c)) =
        AList.delete ip (arp_abs c)"
      unfolding arp_abs_entries entries_filter by (rule entries_cong) (auto simp: update_conv')
    then have "arp_abs ?c = (ip, mac) # AList.delete ip (arp_abs c)"
      by (simp add: arp_abs_entries update_conv')
    moreover have "ip \<in> fst ` set (arp_abs c)"
      unfolding keys using linked_none [OF l, of ip] Some by simp
    ultimately show ?thesis by (simp add: lru_put_def)
  next
    case None
    obtain d where d: "arp_evict c = Inr d" "linked (usage_list d) (cache_map d)"
      "capacity_limit d = capacity_limit c" "next_node d = next_node c"
      "length (usage_list d) < capacity_limit c" "set (usage_list d) \<subseteq> set (usage_list c)"
      "arp_abs d =
        (if capacity_limit c \<le> length (arp_abs c) then butlast (arp_abs c) else arp_abs c)"
      using arp_evict_refines [OF assms] by blast
    let ?nd = "\<lparr>mac_address = mac, list_position = next_node d\<rparr>"
    let ?c = "d\<lparr>usage_list := (next_node d, ip) # usage_list d,
                cache_map := AList.update ip ?nd (cache_map d), next_node := next_node d + 1\<rparr>"
    have out: "ip \<notin> snd ` set (usage_list c)" using linked_none [OF l] None by simp
    then have out': "ip \<notin> snd ` set (usage_list d)" using d(6) by auto
    then have none: "map_of (cache_map d) ip = None" using linked_none [OF d(2)] by simp
    have less: "\<forall>(i, _) \<in> set (usage_list d). i < next_node d"
      using assms d(4,6) unfolding arp_inv_def by auto
    have "linked ((next_node d, ip) # usage_list d) (AList.update ip ?nd (cache_map d))"
      by (rule linked_insert [OF d(2) less none]) simp
    then have "arp_inv ?c" using assms d(3,5) less by (auto simp: arp_inv_def)
    moreover have "arp_put c ip mac = Inr ?c" using None d(1) by (simp add: arp_put_def)
    moreover have "entries (AList.update ip ?nd (cache_map d)) (usage_list d) = arp_abs d"
      unfolding arp_abs_entries using out' by (intro entries_cong) (auto simp: update_conv')
    then have "arp_abs ?c = (ip, mac) # arp_abs d" by (simp add: arp_abs_entries update_conv')
    ultimately show ?thesis using d(3,7) out keys by (simp add: lru_put_def)
  qed
qed

lemma arp_new_inv: "arp_new n = Inr c \<Longrightarrow> arp_inv c \<and> arp_abs c = [] \<and> capacity_limit c = n"
  by (auto simp: arp_new_def arp_inv_def linked_def node_of_def arp_abs_def split: if_splits)

section \<open>Sequences of operations\<close>

datatype cache_op = Put string string | Get string | Invalidate string

datatype cache_out = Stored | Found bool string | Removed bool

fun cache_step ::
  "('c \<Rightarrow> string \<Rightarrow> 'e + (bool \<times> string) \<times> 'c) \<Rightarrow> ('c \<Rightarrow> string \<Rightarrow> string \<Rightarrow> 'e + 'c) \<Rightarrow>
   ('c \<Rightarrow> string \<Rightarrow> 'e + bool \<times> 'c) \<Rightarrow> 'c \<Rightarrow> cache_op \<Rightarrow> 'e + cache_out \<times> 'c" where
  "cache_step get put inval c (Put ip mac) =
     (case put c ip mac of Inl e \<Rightarrow> Inl e | Inr c' \<Rightarrow> Inr (Stored, c'))"
| "cache_step get put inval c (Get ip) =
     (case get c ip of Inl e \<Rightarrow> Inl e | Inr ((b, mac), c') \<Rightarrow> Inr (Found b mac, c'))"
| "cache_step get put inval c (Invalidate ip) =
     (case inval c ip of Inl e \<Rightarrow> Inl e | Inr (b, c') \<Rightarrow> Inr (Removed b, c'))"

fun cache_run ::
  "('c \<Rightarrow> string \<Rightarrow> 'e + (bool \<times> string) \<times> 'c) \<Rightarrow> ('c \<Rightarrow> string \<Rightarrow> string \<Rightarrow> 'e + 'c) \<Rightarrow>
   ('c \<Rightarrow> string \<Rightarrow> 'e + bool \<times> 'c) \<Rightarrow> 'c \<Rightarrow> cache_op list \<Rightarrow> 'e + cache_out list \<times> 'c" where
  "cache_run get put inval c [] = Inr ([], c)"
| "cache_run get put inval c (op # ops) =
     (case cache_step get put inval c op of
        Inl e \<Rightarrow> Inl e
      | Inr (out, c') \<Rightarrow>
          (case cache_run get put inval c' ops of
             Inl e \<Rightarrow> Inl e
           | Inr (outs, c'') \<Rightarrow> Inr (out # outs, c'')))"

abbreviation arp_run :: "arp_cache \<Rightarrow> cache_op list \<Rightarrow> arp_error + cache_out list \<times> arp_cache" where
  "arp_run \<equiv> cache_run arp_get arp_put arp_invalidate"

fun lru_step :: "nat \<Rightarrow> lru \<Rightarrow> cache_op \<Rightarrow> cache_out \<times> lru" where
  "lru_step cap xs (Put ip mac) = (Stored, lru_put cap xs ip mac)"
| "lru_step cap xs (Get ip) = (case lru_get xs ip of ((b, mac), xs') \<Rightarrow> (Found b mac, xs'))"
| "lru_step cap xs (Invalidate ip) = (case lru_invalidate xs ip of (b, xs') \<Rightarrow> (Removed b, xs'))"

fun lru_run :: "nat \<Rightarrow> lru \<Rightarrow> cache_op list \<Rightarrow> cache_out list \<times> lru" where
  "lru_run cap xs [] = ([], xs)"
| "lru_run cap xs (op # ops) =
     (case lru_step cap xs op of
        (out, xs') \<Rightarrow> (case lru_run cap xs' ops of (outs, xs'') \<Rightarrow> (out # outs, xs'')))"

subsection \<open>The interface\<close>

locale lru_cache =
  fixes get :: "'c \<Rightarrow> string \<Rightarrow> 'e + (bool \<times> string) \<times> 'c"
    and put :: "'c \<Rightarrow> string \<Rightarrow> string \<Rightarrow> 'e + 'c"
    and inval :: "'c \<Rightarrow> string \<Rightarrow> 'e + bool \<times> 'c"
    and inv :: "'c \<Rightarrow> bool"
    and cap :: "'c \<Rightarrow> nat"
    and abs :: "'c \<Rightarrow> lru"
  assumes get_law: "inv c \<Longrightarrow> \<exists>c'. get c ip = Inr (fst (lru_get (abs c) ip), c') \<and> inv c' \<and>
      cap c' = cap c \<and> abs c' = snd (lru_get (abs c) ip)"
    and put_law: "inv c \<Longrightarrow> \<exists>c'. put c ip mac = Inr c' \<and> inv c' \<and>
      cap c' = cap c \<and> abs c' = lru_put (cap c) (abs c) ip mac"
    and inval_law: "inv c \<Longrightarrow> \<exists>c'. inval c ip = Inr (fst (lru_invalidate (abs c) ip), c') \<and>
      inv c' \<and> cap c' = cap c \<and> abs c' = snd (lru_invalidate (abs c) ip)"
    and size_law: "inv c \<Longrightarrow> length (abs c) \<le> cap c"
begin

lemma step_refines:
  assumes "inv c"
  shows "\<exists>c'. cache_step get put inval c op = Inr (fst (lru_step (cap c) (abs c) op), c') \<and>
    inv c' \<and> cap c' = cap c \<and> abs c' = snd (lru_step (cap c) (abs c) op)"
proof (cases op)
  case (Put ip mac)
  then show ?thesis using put_law [OF assms, of ip mac] by auto
next
  case (Get ip)
  then show ?thesis using get_law [OF assms, of ip] by (auto split: prod.splits)
next
  case (Invalidate ip)
  then show ?thesis using inval_law [OF assms, of ip] by (auto split: prod.splits)
qed

lemma run_refines:
  assumes "inv c"
  shows "\<exists>c'. cache_run get put inval c ops = Inr (fst (lru_run (cap c) (abs c) ops), c') \<and>
    inv c' \<and> cap c' = cap c \<and> abs c' = snd (lru_run (cap c) (abs c) ops)"
  using assms
proof (induction ops arbitrary: c)
  case Nil
  then show ?case by simp
next
  case (Cons op ops)
  obtain c' where c': "cache_step get put inval c op = Inr (fst (lru_step (cap c) (abs c) op), c')"
      "inv c'" "cap c' = cap c" "abs c' = snd (lru_step (cap c) (abs c) op)"
    using step_refines [OF Cons.prems] by blast
  then show ?case
    using Cons.IH [OF c'(2)] by (auto split: prod.splits)
qed

lemma run_bounded:
  "inv c \<Longrightarrow> cache_run get put inval c ops = Inr (outs, c') \<Longrightarrow> length (abs c') \<le> cap c"
  using run_refines [of c ops] size_law [of c'] by auto

end

interpretation arp: lru_cache arp_get arp_put arp_invalidate arp_inv capacity_limit arp_abs
proof unfold_locales
  show "arp_inv c \<Longrightarrow> length (arp_abs c) \<le> capacity_limit c" for c
    by (simp add: arp_inv_def arp_abs_def)
qed (rule arp_get_refines arp_put_refines arp_invalidate_refines; assumption)+

text \<open>C8 Refinement: every sequence of \<open>put\<close>, \<open>get\<close> and \<open>invalidate\<close> on a new cache of positive
  capacity runs without touching a dangling iterator or the back of an empty list, answers exactly
  as the abstract least-recently-used list does, and never holds more entries than its capacity.\<close>

theorem arp_refines_lru:
  assumes "0 < n"
  shows "\<exists>c c'. arp_new n = Inr c \<and> arp_run c ops = Inr (fst (lru_run n [] ops), c') \<and>
    arp_abs c' = snd (lru_run n [] ops) \<and> arp_size c' \<le> n"
proof -
  obtain c where c: "arp_new n = Inr c" using assms by (simp add: arp_new_def)
  from arp_new_inv [OF c] arp.run_refines [of c ops] obtain c' where
    c': "arp_run c ops = Inr (fst (lru_run n [] ops), c')" "arp_inv c'" "capacity_limit c' = n"
      "arp_abs c' = snd (lru_run n [] ops)"
    by auto
  have "arp_size c' \<le> n"
    using c'(2,3) linked_length by (auto simp: arp_inv_def arp_size_def)
  with c c' show ?thesis by blast
qed

lemma arp_refines_lru_witness:
  "\<exists>c c'. arp_new 2 = Inr c \<and>
     arp_run c [Put ''a'' ''A'', Put ''b'' ''B'', Get ''a'', Put ''c'' ''C'', Get ''b'', Get ''a''] =
       Inr ([Stored, Stored, Found True ''A'', Stored, Found False [], Found True ''A''], c') \<and>
     arp_size c' \<le> 2"
  using arp_refines_lru [of 2
    "[Put ''a'' ''A'', Put ''b'' ''B'', Get ''a'', Put ''c'' ''C'', Get ''b'', Get ''a'']"]
  by (auto simp: lru_put_def lru_get_def)

section \<open>Retention\<close>

text \<open>
  What least-recently-used means to a client: an entry is still there as long as fewer than
  \<open>cap\<close> other keys have been stored or looked up since it was written.
\<close>

fun touches :: "cache_op \<Rightarrow> string set" where
  "touches (Put ip _) = {ip}"
| "touches (Get ip) = {ip}"
| "touches (Invalidate _) = {}"

fun overwrites :: "string \<Rightarrow> cache_op \<Rightarrow> bool" where
  "overwrites k (Put ip _) = (ip = k)"
| "overwrites k (Get _) = False"
| "overwrites k (Invalidate ip) = (ip = k)"

definition ahead :: "string set \<Rightarrow> string \<Rightarrow> string \<Rightarrow> lru \<Rightarrow> bool" where
  "ahead T ip mac xs \<longleftrightarrow> distinct (map fst xs) \<and> map_of xs ip = Some mac \<and>
     fst ` set (takeWhile (\<lambda>x. fst x \<noteq> ip) xs) \<subseteq> T"

lemma takeWhile_filter_subset:
  "(\<And>x. \<not> P x \<Longrightarrow> Q x) \<Longrightarrow> set (takeWhile P (filter Q xs)) \<subseteq> set (takeWhile P xs)"
  by (induction xs) auto

lemma set_takeWhile_butlast: "set (takeWhile P (butlast xs)) \<subseteq> set (takeWhile P xs)"
  by (induction xs) auto

lemma deleted_key [simp]: "k \<notin> fst ` set (AList.delete k xs)"
  by (auto simp: delete_filter)

lemma ahead_delete:
  assumes "ahead T ip mac xs" and "k \<noteq> ip"
  shows "ahead T ip mac (AList.delete k xs)"
proof -
  have "set (takeWhile (\<lambda>x. fst x \<noteq> ip) (filter (\<lambda>x. fst x \<noteq> k) xs)) \<subseteq>
      set (takeWhile (\<lambda>x. fst x \<noteq> ip) xs)"
    using assms(2) by (intro takeWhile_filter_subset) auto
  then show ?thesis
    using assms unfolding ahead_def
    by (auto simp: distinct_delete delete_conv' delete_filter [symmetric])
qed

lemma ahead_Cons:
  assumes "ahead T ip mac xs" and "k \<in> T" and "k \<noteq> ip" and "k \<notin> fst ` set xs"
  shows "ahead T ip mac ((k, m) # xs)"
  using assms by (auto simp: ahead_def)

lemma ahead_front: "ahead T ip mac xs \<Longrightarrow> ahead T ip mac ((ip, mac) # AList.delete ip xs)"
  by (simp add: ahead_def distinct_delete)

lemma ahead_butlast:
  assumes a: "ahead T ip mac xs" and T: "finite T" "card T < cap" "k \<in> T"
    and k: "k \<notin> fst ` set xs" and full: "cap \<le> length xs"
  shows "ahead T ip mac (butlast xs)"
proof -
  have "map_of xs ip \<noteq> None" using a by (simp add: ahead_def)
  then have ip: "ip \<in> fst ` set xs" by (simp add: map_of_eq_None_iff)
  then obtain ys y where xs: "xs = ys @ [y]" by (metis append_butlast_last_id empty_iff empty_set
      image_empty)
  have d: "distinct (map fst ys)" "fst y \<notin> fst ` set ys" using a xs by (auto simp: ahead_def)
  have "fst y \<noteq> ip"
  proof
    assume y: "fst y = ip"
    then have "takeWhile (\<lambda>x. fst x \<noteq> ip) xs = ys"
      using d(2) unfolding xs by (subst takeWhile_append2) (auto simp: rev_image_eqI)
    then have "insert k (fst ` set ys) \<subseteq> T" using a T(3) by (simp add: ahead_def)
    then have "card (insert k (fst ` set ys)) \<le> card T" using T(1) by (intro card_mono)
    moreover have "card (fst ` set ys) = length ys" using d(1) distinct_card by fastforce
    ultimately show False using k T(2) full xs by simp
  qed
  then have "map_of ys ip = Some mac"
    using a unfolding xs ahead_def by (auto simp: map_add_def split: option.splits)
  then show ?thesis
    using a d set_takeWhile_butlast [of "\<lambda>x. fst x \<noteq> ip" xs] unfolding xs ahead_def
    by auto
qed

lemma ahead_step:
  assumes a: "ahead T ip mac xs" and T: "finite T" "card T < cap"
    and op: "touches op \<subseteq> insert ip T" "\<not> overwrites ip op"
  shows "ahead T ip mac (snd (lru_step cap xs op))"
proof (cases op)
  case (Put k m)
  then have k: "k \<in> T" "k \<noteq> ip" using op by auto
  have "k \<notin> fst ` set (butlast xs)" if "k \<notin> fst ` set xs"
    using that by (auto dest: in_set_butlastD)
  then show ?thesis
    using Put k a ahead_delete [OF a k(2)] ahead_butlast [OF a T k(1)] ahead_Cons
    by (auto simp: lru_put_def)
next
  case (Get k)
  show ?thesis
  proof (cases "k = ip")
    case True
    then show ?thesis using Get a ahead_front [OF a] by (auto simp: lru_get_def ahead_def)
  next
    case False
    then have "k \<in> T" using op Get by auto
    then show ?thesis
      using Get False a ahead_Cons [OF ahead_delete [OF a False], of k]
      by (auto simp: lru_get_def split: option.splits)
  qed
next
  case (Invalidate k)
  then show ?thesis using op ahead_delete [OF a] by (auto simp: lru_invalidate_def)
qed

lemma ahead_run:
  assumes "finite T" and "card T < cap" and "ahead T ip mac xs"
    and "\<forall>op \<in> set ops. touches op \<subseteq> insert ip T \<and> \<not> overwrites ip op"
  shows "ahead T ip mac (snd (lru_run cap xs ops))"
  using assms(3,4)
proof (induction ops arbitrary: xs)
  case Nil
  then show ?case by simp
next
  case (Cons op ops)
  then have "ahead T ip mac (snd (lru_step cap xs op))"
    using ahead_step [OF _ assms(1,2)] by auto
  then have "ahead T ip mac (snd (lru_run cap (snd (lru_step cap xs op)) ops))"
    using Cons by auto
  then show ?case by (auto split: prod.splits)
qed

lemma lru_run_append:
  "lru_run cap xs (ops @ ops') =
     (fst (lru_run cap xs ops) @ fst (lru_run cap (snd (lru_run cap xs ops)) ops'),
      snd (lru_run cap (snd (lru_run cap xs ops)) ops'))"
  by (induction ops arbitrary: xs) (auto split: prod.splits)

lemma ahead_put:
  assumes "distinct (map fst xs)"
  shows "ahead T ip mac (lru_put cap xs ip mac)"
  using assms
  by (auto simp: ahead_def lru_put_def distinct_delete map_butlast distinct_butlast
      dest: in_set_butlastD)

lemma ahead_get: "ahead T ip mac xs \<Longrightarrow> fst (lru_step cap xs (Get ip)) = Found True mac"
  by (simp add: ahead_def lru_get_def)

text \<open>Retention: after \<open>put(ip, mac)\<close>, an interval of operations that neither stores nor
  invalidates \<open>ip\<close> and that stores or looks up fewer other addresses than the cache's capacity
  leaves the entry in place: \<open>get(ip)\<close> then finds \<open>mac\<close>.\<close>

theorem arp_retains:
  assumes "arp_inv c"
    and "\<forall>op \<in> set ops. \<not> overwrites ip op"
    and "card (\<Union> (touches ` set ops) - {ip}) < capacity_limit c"
  shows "\<exists>outs c'. arp_run c (Put ip mac # ops @ [Get ip]) = Inr (outs @ [Found True mac], c')"
proof -
  define T where "T = \<Union> (touches ` set ops) - {ip}"
  define xs where "xs = lru_put (capacity_limit c) (arp_abs c) ip mac"
  have "finite (touches op)" for op by (cases op) auto
  then have "finite T" unfolding T_def by blast
  moreover have "distinct (map fst (arp_abs c))"
    using assms(1) by (simp add: arp_abs_entries arp_inv_def linked_def)
  then have "ahead T ip mac xs" unfolding xs_def by (rule ahead_put)
  ultimately have "ahead T ip mac (snd (lru_run (capacity_limit c) xs ops))"
    using assms(2,3) by (intro ahead_run) (auto simp: T_def)
  then have "fst (lru_step (capacity_limit c) (snd (lru_run (capacity_limit c) xs ops)) (Get ip)) =
      Found True mac"
    by (rule ahead_get)
  then have "fst (lru_run (capacity_limit c) (arp_abs c) (Put ip mac # ops @ [Get ip])) =
      (Stored # fst (lru_run (capacity_limit c) xs ops)) @ [Found True mac]"
    by (auto simp: lru_run_append xs_def simp del: lru_step.simps(2) split: prod.splits)
  then show ?thesis
    using arp.run_refines [OF assms(1), of "Put ip mac # ops @ [Get ip]"] by metis
qed

lemma arp_retains_witness:
  "\<exists>outs c'. arp_run \<lparr>capacity_limit = 2, usage_list = [], cache_map = [], next_node = 0\<rparr>
     (Put ''a'' ''A'' # [Put ''b'' ''B'', Get ''a'', Get ''b''] @ [Get ''a'']) =
     Inr (outs @ [Found True ''A''], c')"
proof (rule arp_retains)
  show "arp_inv \<lparr>capacity_limit = 2, usage_list = [], cache_map = [], next_node = 0\<rparr>"
    using arp_new_inv [of 2] by (simp add: arp_new_def)
qed (auto simp: card_insert_if)

end
