(* ===== verification/Breaker.thy ===== *)
theory Breaker
  imports Prelude
begin

text \<open>
  The circuit breaker: \<^verbatim>\<open>include/network/circuit_breaker.hpp\<close> and
  \<^verbatim>\<open>src/network/circuit_breaker.cpp\<close>. The counters keep their 32 bits, the recovery
  timeout its 64 bits with the signed reinterpretation of \<open>static_cast<long long>\<close>, and every
  call of \<open>steady_clock::now()\<close> consumes a reading of the clock. The calls on one breaker are taken
  in sequence. The facts: the state invariant, the legal state changes, the exact number of
  consecutive failures that opens the breaker, how long it stays open, and its recovery.
\<close>

section \<open>The breaker of the code\<close>

datatype circuit_state = Closed | Open | HalfOpen

record circuit_breaker =
  cb_state :: circuit_state
  failure_threshold :: u32
  recovery_timeout_ms :: u64
  failure_count :: u32
  success_count :: u32
  last_state_change :: int

definition cb_new :: "u32 \<Rightarrow> u64 \<Rightarrow> clock \<Rightarrow> circuit_breaker \<times> clock" where
  "cb_new threshold timeout clk =
     (\<lparr>cb_state = Closed, failure_threshold = threshold, recovery_timeout_ms = timeout,
       failure_count = 0, success_count = 0, last_state_change = clock_now clk\<rparr>,
      clock_rest clk)"

definition cb_default :: "clock \<Rightarrow> circuit_breaker \<times> clock" where
  "cb_default clk = cb_new 3 5000 clk"

text \<open>The copy constructor and the assignment operator copy every field.\<close>

definition cb_copy :: "circuit_breaker \<Rightarrow> circuit_breaker" where
  "cb_copy other =
     \<lparr>cb_state = cb_state other, failure_threshold = failure_threshold other,
      recovery_timeout_ms = recovery_timeout_ms other, failure_count = failure_count other,
      success_count = success_count other, last_state_change = last_state_change other\<rparr>"

definition cb_transition :: "circuit_state \<Rightarrow> circuit_breaker \<Rightarrow> clock \<Rightarrow> circuit_breaker \<times> clock" where
  "cb_transition new_state cb clk =
     (cb\<lparr>cb_state := new_state, failure_count := 0, success_count := 0,
         last_state_change := clock_now clk\<rparr>,
      clock_rest clk)"

definition cb_get_state :: "circuit_breaker \<Rightarrow> clock \<Rightarrow> circuit_state \<times> circuit_breaker \<times> clock" where
  "cb_get_state cb clk =
     (let (cb', clk') =
        (if cb_state cb = Open then
           (let elapsed = to_milliseconds (clock_now clk - last_state_change cb) in
            if sint (recovery_timeout_ms cb) \<le> elapsed
            then cb_transition HalfOpen cb (clock_rest clk)
            else (cb, clock_rest clk))
         else (cb, clk))
      in (cb_state cb', cb', clk'))"

definition cb_record_success :: "circuit_breaker \<Rightarrow> clock \<Rightarrow> bool \<times> circuit_breaker \<times> clock" where
  "cb_record_success cb clk =
     (let (_, cb, clk) = cb_get_state cb clk in
      case cb_state cb of
        HalfOpen \<Rightarrow>
          (let prev_success = success_count cb; cb = cb\<lparr>success_count := prev_success + 1\<rparr> in
           if 3 \<le> prev_success + 1 then (True, cb_transition Closed cb clk)
           else (False, cb, clk))
      | Closed \<Rightarrow> (False, cb\<lparr>failure_count := 0\<rparr>, clk)
      | Open \<Rightarrow> (False, cb, clk))"

definition cb_record_failure :: "circuit_breaker \<Rightarrow> clock \<Rightarrow> bool \<times> circuit_breaker \<times> clock" where
  "cb_record_failure cb clk =
     (let (_, cb, clk) = cb_get_state cb clk in
      case cb_state cb of
        Closed \<Rightarrow>
          (let prev_failures = failure_count cb; cb = cb\<lparr>failure_count := prev_failures + 1\<rparr> in
           if failure_threshold cb \<le> prev_failures + 1 then (True, cb_transition Open cb clk)
           else (False, cb, clk))
      | HalfOpen \<Rightarrow> (True, cb_transition Open cb clk)
      | Open \<Rightarrow> (False, cb, clk))"

section \<open>Runs\<close>

datatype cb_op = Success | Failure | Query

fun cb_step :: "cb_op \<Rightarrow> circuit_breaker \<Rightarrow> clock \<Rightarrow> circuit_breaker \<times> clock" where
  "cb_step Success cb clk = snd (cb_record_success cb clk)"
| "cb_step Failure cb clk = snd (cb_record_failure cb clk)"
| "cb_step Query cb clk = snd (cb_get_state cb clk)"

fun cb_run :: "cb_op list \<Rightarrow> circuit_breaker \<Rightarrow> clock \<Rightarrow> circuit_breaker \<times> clock" where
  "cb_run [] cb clk = (cb, clk)"
| "cb_run (op # ops) cb clk = (let (cb', clk') = cb_step op cb clk in cb_run ops cb' clk')"

lemmas cb_defs =
  cb_new_def cb_default_def cb_transition_def cb_get_state_def cb_record_success_def
  cb_record_failure_def Let_def

lemma cb_copy_id: "cb_copy cb = cb"
  by (simp add: cb_copy_def)

text \<open>No operation changes the configuration.\<close>

lemma cb_step_config [simp]:
  "failure_threshold (fst (cb_step op cb clk)) = failure_threshold cb"
  "recovery_timeout_ms (fst (cb_step op cb clk)) = recovery_timeout_ms cb"
  by (cases op; auto simp: cb_defs split: circuit_state.splits)+

subsection \<open>The state invariant\<close>

text \<open>
  Between calls a closed breaker is below its threshold (so a further failure cannot wrap the
  counter), a half-open one has seen fewer than three successes, and each counter is zero outside
  the state that uses it.
\<close>

fun cb_inv :: "circuit_breaker \<Rightarrow> bool" where
  "cb_inv cb =
     (case cb_state cb of
        Closed \<Rightarrow> success_count cb = 0 \<and>
          (failure_count cb = 0 \<or> failure_count cb < failure_threshold cb)
      | Open \<Rightarrow> failure_count cb = 0 \<and> success_count cb = 0
      | HalfOpen \<Rightarrow> failure_count cb = 0 \<and> success_count cb < 3)"

lemma cb_inv_new: "cb_inv (fst (cb_new th to clk))"
  by (simp add: cb_new_def)

lemma cb_inv_step: "cb_inv cb \<Longrightarrow> cb_inv (fst (cb_step op cb clk))"
  by (cases op; cases "cb_state cb") (auto simp: cb_defs not_le)

lemma cb_run_inv: "cb_inv cb \<Longrightarrow> cb_inv (fst (cb_run ops cb clk))"
proof (induction ops arbitrary: cb clk)
  case Nil
  then show ?case by simp
next
  case (Cons op ops)
  obtain cb' clk' where s: "cb_step op cb clk = (cb', clk')" by force
  then have "cb_inv cb'" using cb_inv_step [OF Cons.prems, of op clk] by simp
  then show ?case using Cons.IH s by simp
qed

subsection \<open>State changes\<close>

text \<open>The edges of the state machine, labelled with the operation that takes them.\<close>

inductive cb_edge :: "cb_op \<Rightarrow> circuit_state \<Rightarrow> circuit_state \<Rightarrow> bool" where
  stay: "cb_edge op s s"
| trip: "cb_edge Failure Closed Open"
| probe: "cb_edge Query Open HalfOpen"
| probe_success: "cb_edge Success Open HalfOpen"
| close: "cb_edge Success HalfOpen Closed"
| reopen: "cb_edge Failure HalfOpen Open"

inductive_cases cb_edge_from_open: "cb_edge op Open s"
inductive_cases cb_edge_from_half: "cb_edge op HalfOpen s"
inductive_cases cb_edge_from_closed: "cb_edge op Closed s"
inductive_simps cb_edge_simps: "cb_edge op s t"

text \<open>Every call of \<open>get_state\<close>, \<open>record_success\<close> and \<open>record_failure\<close> on a breaker that
  satisfies the state invariant keeps the invariant and changes the state along an edge of the
  state machine: in particular an open breaker never closes without passing through half-open, and
  only a failure opens one.\<close>

theorem cb_step_edges:
  assumes "cb_inv cb"
  shows "cb_inv (fst (cb_step op cb clk)) \<and>
    cb_edge op (cb_state cb) (cb_state (fst (cb_step op cb clk)))"
proof -
  have "cb_edge op (cb_state cb) (cb_state (fst (cb_step op cb clk)))"
    using assms by (cases op; cases "cb_state cb") (auto simp: cb_defs cb_edge_simps word_le_nat_alt)
  then show ?thesis using cb_inv_step [OF assms] by simp
qed

lemma cb_step_edges_witness:
  "cb_inv (fst (cb_step Failure (fst (cb_new 1 5000 (\<lambda>n. int n))) (\<lambda>n. int n))) \<and>
   cb_edge Failure Closed
     (cb_state (fst (cb_step Failure (fst (cb_new 1 5000 (\<lambda>n. int n))) (\<lambda>n. int n))))"
  using cb_step_edges [OF cb_inv_new, of Failure 1 5000 "\<lambda>n. int n" "\<lambda>n. int n"]
  by (simp add: cb_new_def)

subsection \<open>Opening\<close>

text \<open>
  The specification of tripping: with \<open>n\<close> failures on record, a sequence of operations trips a
  breaker of threshold \<open>k\<close> when it takes some streak of failures, not interrupted by a success, to
  \<open>k\<close>.
\<close>

fun trips :: "nat \<Rightarrow> nat \<Rightarrow> cb_op list \<Rightarrow> bool" where
  "trips k n [] = False"
| "trips k n (Failure # ops) = (k \<le> n + 1 \<or> trips k (n + 1) ops)"
| "trips k n (Success # ops) = trips k 0 ops"
| "trips k n (Query # ops) = trips k n ops"

fun streak :: "nat \<Rightarrow> cb_op list \<Rightarrow> nat" where
  "streak n [] = n"
| "streak n (Failure # ops) = streak (n + 1) ops"
| "streak n (Success # ops) = streak 0 ops"
| "streak n (Query # ops) = streak n ops"

lemma ms_less: "x < 1000000 * d \<Longrightarrow> x div 1000000 < d" for x d :: int
  by linarith

lemma readings_elapsed:
  assumes "readings_in t0 (t0 + 1000000 * d) clk" and "t0 \<le> t"
  shows "to_milliseconds (clock_now clk - t) < d"
proof (cases "0 \<le> clock_now clk - t")
  case True
  have "clock_now clk - t < 1000000 * d" using readings_now [OF assms(1)] assms(2) by simp
  then have "(clock_now clk - t) div 1000000 < d" by (rule ms_less)
  then show ?thesis using True by (simp add: to_milliseconds_nonneg)
next
  case False
  have "0 < d" using readings_now [OF assms(1)] by linarith
  moreover have "to_milliseconds (clock_now clk - t) \<le> 0"
    using False by (auto simp: to_milliseconds_def trunc_div_def sgn_if pos_imp_zdiv_nonneg_iff)
  ultimately show ?thesis by simp
qed

lemma stays_open:
  assumes "cb_state cb = Open" and "t0 \<le> last_state_change cb"
    and "readings_in t0 (t0 + 1000000 * sint (recovery_timeout_ms cb)) clk"
  shows "fst (cb_run ops cb clk) = cb"
  using assms
proof (induction ops arbitrary: clk)
  case Nil
  then show ?case by simp
next
  case (Cons op ops)
  have "to_milliseconds (clock_now clk - last_state_change cb) < sint (recovery_timeout_ms cb)"
    using Cons.prems by (intro readings_elapsed)
  then have "cb_step op cb clk = (cb, clock_rest clk)"
    using Cons.prems(1) by (cases op) (auto simp: cb_defs)
  then show ?case using Cons.IH Cons.prems readings_rest by simp
qed

lemma closed_run:
  assumes "cb_state cb = Closed" and "failure_count cb < failure_threshold cb"
    and "readings_in t0 (t0 + 1000000 * sint (recovery_timeout_ms cb)) clk"
  shows "if trips (unat (failure_threshold cb)) (unat (failure_count cb)) ops
    then cb_state (fst (cb_run ops cb clk)) = Open
    else cb_state (fst (cb_run ops cb clk)) = Closed \<and>
      unat (failure_count (fst (cb_run ops cb clk))) = streak (unat (failure_count cb)) ops"
  using assms
proof (induction ops arbitrary: cb clk)
  case Nil
  then show ?case by simp
next
  case (Cons op ops)
  note closed = Cons.prems(1) and less = Cons.prems(2) and clk = Cons.prems(3)
  have suc: "unat (failure_count cb + 1) = unat (failure_count cb) + 1"
    by (rule unat_Suc_less [OF less])
  show ?case
  proof (cases op)
    case Success
    have "0 < failure_threshold cb" using less by (metis word_gt_0 word_not_simps(1))
    then show ?thesis
      using Cons.IH [of "cb\<lparr>failure_count := 0\<rparr>" clk] closed clk Success by (simp add: cb_defs)
  next
    case Query
    then show ?thesis using Cons.IH [OF closed less clk] closed by (simp add: cb_defs)
  next
    case Failure
    show ?thesis
    proof (cases "failure_threshold cb \<le> failure_count cb + 1")
      case True
      let ?cb = "fst (cb_transition Open (cb\<lparr>failure_count := failure_count cb + 1\<rparr>) clk)"
      have "fst (cb_run ops ?cb (clock_rest clk)) = ?cb"
        using clk readings_now [OF clk]
        by (intro stays_open [of _ t0]) (auto simp: cb_transition_def)
      then show ?thesis
        using True suc closed Failure by (simp add: cb_defs word_le_nat_alt)
    next
      case False
      then show ?thesis
        using Cons.IH [of "cb\<lparr>failure_count := failure_count cb + 1\<rparr>" clk] suc closed clk Failure
        by (simp add: cb_defs word_le_nat_alt word_less_nat_alt)
    qed
  qed
qed

text \<open>C18 Within a window shorter than the recovery timeout, a new breaker of positive threshold
  \<open>k\<close> is open after a sequence of calls exactly when some \<open>k\<close> consecutive failures occurred in it;
  otherwise it is closed and its counter is the current streak of failures.\<close>

theorem breaker_trips:
  assumes "0 < k" and "readings_in t0 (t0 + 1000000 * sint timeout) clk"
    and "cb_new k timeout clk = (cb0, clk0)" and "cb_run ops cb0 clk0 = (cb, clk')"
  shows "(cb_state cb = Open \<longleftrightarrow> trips (unat k) 0 ops) \<and>
    (\<not> trips (unat k) 0 ops \<longrightarrow> cb_state cb = Closed \<and> unat (failure_count cb) = streak 0 ops)"
proof -
  have "cb0 = \<lparr>cb_state = Closed, failure_threshold = k, recovery_timeout_ms = timeout,
      failure_count = 0, success_count = 0, last_state_change = clock_now clk\<rparr>"
    "clk0 = clock_rest clk"
    using assms(3) by (simp_all add: cb_new_def)
  then show ?thesis
    using closed_run [of cb0 t0 clk0 ops] assms readings_rest [OF assms(2)]
    by (auto split: if_splits)
qed

lemma breaker_trips_witness:
  "cb_state (fst (cb_run [Failure, Failure, Success, Failure, Query, Failure, Failure]
      (fst (cb_new 3 5000 (\<lambda>n. 0))) (clock_rest (\<lambda>n. 0)))) = Open"
proof -
  let ?ops = "[Failure, Failure, Success, Failure, Query, Failure, Failure]"
  let ?cb0 = "fst (cb_new 3 5000 (\<lambda>n. 0))"
  have "readings_in 0 (0 + 1000000 * sint (5000 :: u64)) (\<lambda>n. 0)"
    by (simp add: readings_in_def)
  moreover have "cb_new 3 5000 (\<lambda>n. 0) = (?cb0, clock_rest (\<lambda>n. 0))" by (simp add: cb_new_def)
  moreover have "cb_run ?ops ?cb0 (clock_rest (\<lambda>n. 0)) =
      (fst (cb_run ?ops ?cb0 (clock_rest (\<lambda>n. 0))), snd (cb_run ?ops ?cb0 (clock_rest (\<lambda>n. 0))))"
    by simp
  ultimately show ?thesis using breaker_trips [of 3 0 5000] by fastforce
qed

subsection \<open>Recovery\<close>

lemma elapsed_ms:
  "1000000 * d \<le> now - since \<Longrightarrow> since \<le> now \<Longrightarrow> d \<le> to_milliseconds (now - since)"
  by (subst to_milliseconds_nonneg) linarith+

text \<open>C35 Recovery: once the timeout has elapsed on an open breaker, three successes in a row close
  it, the third reporting the change, with the breaker half-open in between; a failure at that
  point opens it again and restarts the timeout.\<close>

theorem breaker_recovers:
  assumes "cb_state cb = Open" and "last_state_change cb \<le> clock_now clk"
    and "1000000 * sint (recovery_timeout_ms cb) \<le> clock_now clk - last_state_change cb"
    and "cb_record_success cb clk = (r1, cb1, clk1)"
    and "cb_record_success cb1 clk1 = (r2, cb2, clk2)"
    and "cb_record_success cb2 clk2 = (r3, cb3, clk3)"
    and "cb_record_failure cb2 clk2 = (r4, cb4, clk4)"
  shows "(r1, r2, r3, r4) = (False, False, True, True) \<and>
    cb_state cb1 = HalfOpen \<and> cb_state cb2 = HalfOpen \<and> cb_state cb3 = Closed \<and>
    cb_state cb4 = Open \<and> last_state_change cb4 = clock_now clk2"
proof -
  have "sint (recovery_timeout_ms cb) \<le> to_milliseconds (clock_now clk - last_state_change cb)"
    using assms(2,3) by (intro elapsed_ms)
  then have 1: "r1 = False" "cb_state cb1 = HalfOpen" "success_count cb1 = 1"
    using assms(1,4) by (auto simp: cb_defs word_le_nat_alt split: if_splits)
  then have 2: "r2 = False" "cb_state cb2 = HalfOpen" "success_count cb2 = 2"
    using assms(5) by (auto simp: cb_defs word_le_nat_alt)
  then have 3: "r3 = True" "cb_state cb3 = Closed"
    using assms(6) by (auto simp: cb_defs)
  have 4: "r4 = True" "cb_state cb4 = Open" "last_state_change cb4 = clock_now clk2"
    using 2 assms(7) by (auto simp: cb_defs)
  from 1 2 3 4 show ?thesis by simp
qed

lemma breaker_recovers_witness:
  "\<exists>cb clk r1 cb1 clk1 r2 cb2 clk2 r3 cb3 clk3.
     cb_state cb = Open \<and> cb_record_success cb clk = (r1, cb1, clk1) \<and>
     cb_record_success cb1 clk1 = (r2, cb2, clk2) \<and>
     cb_record_success cb2 clk2 = (r3, cb3, clk3) \<and> cb_state cb3 = Closed"
proof -
  let ?cb = "\<lparr>cb_state = Open, failure_threshold = 3, recovery_timeout_ms = 5000,
    failure_count = 0, success_count = 0, last_state_change = 7\<rparr>"
  let ?clk = "\<lambda>n. 5000000007 + int n"
  obtain r1 cb1 clk1 where 1: "cb_record_success ?cb ?clk = (r1, cb1, clk1)" by (metis prod_cases3)
  obtain r2 cb2 clk2 where 2: "cb_record_success cb1 clk1 = (r2, cb2, clk2)" by (metis prod_cases3)
  obtain r3 cb3 clk3 where 3: "cb_record_success cb2 clk2 = (r3, cb3, clk3)" by (metis prod_cases3)
  obtain r4 cb4 clk4 where 4: "cb_record_failure cb2 clk2 = (r4, cb4, clk4)" by (metis prod_cases3)
  have "cb_state ?cb = Open \<and> cb_state cb3 = Closed"
    using breaker_recovers [OF _ _ _ 1 2 3 4] by (simp add: clock_now_def)
  with 1 2 3 show ?thesis by blast
qed

text \<open>The timeout is compared as a signed 64-bit number: a breaker whose recovery timeout is
  \<open>2 ^ 63\<close> ms or more (for instance \<open>UINT64_MAX\<close>, meant as "never") is half-open again at the first
  query after it opened.\<close>

theorem huge_timeout_recovers_at_once:
  assumes "2 ^ 63 \<le> unat (recovery_timeout_ms cb)" and "cb_state cb = Open"
    and "last_state_change cb \<le> clock_now clk"
  shows "fst (cb_get_state cb clk) = HalfOpen"
proof -
  let ?w = "recovery_timeout_ms cb"
  have "unat ?w < 2 ^ LENGTH(64)" by (rule unsigned_less)
  then have "unat ?w div 2 ^ 63 = 1" using assms(1) by (intro div_nat_eqI) simp_all
  then have "bit (unat ?w) 63" by (simp add: bit_iff_odd)
  then have "bit ?w 63" by (simp add: bit_unsigned_iff)
  then have "sint ?w < 0" using bit_last_iff [of ?w] by simp
  moreover have "0 \<le> to_milliseconds (clock_now clk - last_state_change cb)"
    using assms(3) by (simp add: to_milliseconds_nonneg)
  ultimately show ?thesis using assms(2) by (simp add: cb_defs)
qed

lemma huge_timeout_recovers_at_once_witness:
  "fst (cb_get_state \<lparr>cb_state = Open, failure_threshold = 3, recovery_timeout_ms = - 1,
     failure_count = 0, success_count = 0, last_state_change = 5\<rparr> (\<lambda>n. 6)) = HalfOpen"
  by (rule huge_timeout_recovers_at_once) (simp_all add: clock_now_def unsigned_minus_1_eq_mask mask_eq_exp_minus_1)

end
