(* ===== verification/Binary64.thy ===== *)
theory Binary64
  imports Complex_Main Prelude "HOL-Library.Log_Nat"
begin

text \<open>
  The type \<open>double\<close> of the C++ sources: IEEE 754 binary64 values as rational numbers, infinities and
  NaN, with every operation rounded to nearest, ties to even. Zero carries no sign (no expression of
  the sources depends on it). Conversions to integers truncate, and are undefined behaviour
  (\<open>None\<close>) when the truncated value does not fit. The main fact: a rational with a 53-bit
  significand in the exponent range is represented exactly, so arithmetic on the configured values
  of the sources computes without rounding.
\<close>

datatype double = Finite rat | Infinite bool | NaN

text \<open>The exponent of the leading binary digit of a positive rational.\<close>

definition flog2 :: "rat \<Rightarrow> int" where
  "flog2 q =
     (let (n, d) = quotient_of q; k = bitlen n - bitlen d
      in if 2 powi k \<le> q then k else k - 1)"

definition round_half_even :: "rat \<Rightarrow> int" where
  "round_half_even q =
     (let f = \<lfloor>q\<rfloor>; r = q - of_int f
      in if r < 1 / 2 then f else if 1 / 2 < r then f + 1 else if even f then f else f + 1)"

definition round_binary64 :: "rat \<Rightarrow> double" where
  "round_binary64 q =
     (if q = 0 then Finite 0
      else
        let e = max (flog2 \<bar>q\<bar>) (- 1022) - 52;
            r = of_int (round_half_even (\<bar>q\<bar> / 2 powi e)) * 2 powi e
        in if 2 powi 1024 \<le> r then Infinite (q < 0) else Finite (if q < 0 then - r else r))"

definition double_of_nat :: "nat \<Rightarrow> double" where
  "double_of_nat n = round_binary64 (of_nat n)"

fun f_div :: "double \<Rightarrow> double \<Rightarrow> double" where
  "f_div (Finite a) (Finite b) =
     (if b = 0 then (if a = 0 then NaN else Infinite (a < 0)) else round_binary64 (a / b))"
| "f_div (Finite a) (Infinite s) = Finite 0"
| "f_div (Infinite s) (Finite b) = Infinite (s \<noteq> (b < 0))"
| "f_div _ _ = NaN"

fun f_add :: "double \<Rightarrow> double \<Rightarrow> double" where
  "f_add (Finite a) (Finite b) = round_binary64 (a + b)"
| "f_add (Finite a) (Infinite s) = Infinite s"
| "f_add (Infinite s) (Finite b) = Infinite s"
| "f_add (Infinite s) (Infinite s') = (if s = s' then Infinite s else NaN)"
| "f_add _ _ = NaN"

fun f_sub :: "double \<Rightarrow> double \<Rightarrow> double" where
  "f_sub (Finite a) (Finite b) = round_binary64 (a - b)"
| "f_sub (Finite a) (Infinite s) = Infinite (\<not> s)"
| "f_sub (Infinite s) (Finite b) = Infinite s"
| "f_sub (Infinite s) (Infinite s') = (if s = s' then NaN else Infinite s)"
| "f_sub _ _ = NaN"

fun f_mul :: "double \<Rightarrow> double \<Rightarrow> double" where
  "f_mul (Finite a) (Finite b) = round_binary64 (a * b)"
| "f_mul (Finite a) (Infinite s) = (if a = 0 then NaN else Infinite (s \<noteq> (a < 0)))"
| "f_mul (Infinite s) (Finite b) = (if b = 0 then NaN else Infinite (s \<noteq> (b < 0)))"
| "f_mul (Infinite s) (Infinite s') = Infinite (s \<noteq> s')"
| "f_mul _ _ = NaN"

text \<open>\<open>static_cast<uint64_t>(x)\<close>.\<close>

definition trunc_rat :: "rat \<Rightarrow> int" where
  "trunc_rat q = (if q < 0 then - \<lfloor>- q\<rfloor> else \<lfloor>q\<rfloor>)"

fun double_to_u64 :: "double \<Rightarrow> u64 option" where
  "double_to_u64 (Finite q) =
     (if 0 \<le> trunc_rat q \<and> trunc_rat q < 2 ^ 64 then Some (of_int (trunc_rat q)) else None)"
| "double_to_u64 _ = None"

section \<open>Exactness\<close>

lemma powi_bitlen:
  assumes "0 < n"
  shows "(2::rat) powi (bitlen n - 1) \<le> of_int n" and "of_int n < (2::rat) powi bitlen n"
proof -
  have pos: "1 \<le> bitlen n" using assms bitlen_eq_zero_iff [of n] bitlen_nonneg [of n] by linarith
  have "2 ^ nat (bitlen n - 1) \<le> n" "n < 2 ^ nat (bitlen n)" using bitlen_bounds [OF assms] by auto
  then have "(of_int (2 ^ nat (bitlen n - 1)) :: rat) \<le> of_int n"
    "(of_int n :: rat) < of_int (2 ^ nat (bitlen n))"
    by (simp_all only: of_int_le_iff of_int_less_iff)
  then show "(2::rat) powi (bitlen n - 1) \<le> of_int n" "of_int n < (2::rat) powi bitlen n"
    using pos by (simp_all add: power_int_def)
qed

lemma flog2_bounds:
  assumes "0 < q"
  shows "2 powi flog2 q \<le> q \<and> q < 2 powi (flog2 q + 1)"
proof -
  obtain n d where nd: "quotient_of q = (n, d)" by force
  then have d: "0 < d" and q: "q = of_int n / of_int d"
    by (auto dest: quotient_of_denom_pos quotient_of_div)
  with assms have n: "0 < n" by (simp add: zero_less_divide_iff)
  let ?k = "bitlen n - bitlen d"
  note N = powi_bitlen [OF n] and D = powi_bitlen [OF d]
  have dpos: "(0::rat) < of_int d" using d by simp
  have "q < 2 powi bitlen n / of_int d"
    unfolding q using N(2) dpos by (intro divide_strict_right_mono)
  also have "\<dots> \<le> 2 powi bitlen n / 2 powi (bitlen d - 1)"
    using D(1) dpos by (intro divide_left_mono) auto
  also have "\<dots> = 2 powi (?k + 1)"
    by (simp add: power_int_diff power_int_add)
  finally have up: "q < 2 powi (?k + 1)" .
  have "2 powi (?k - 1) = 2 powi (bitlen n - 1) / (2::rat) powi bitlen d"
    by (simp add: power_int_diff)
  also have "\<dots> \<le> 2 powi (bitlen n - 1) / of_int d"
    using D(2) dpos by (intro divide_left_mono) auto
  also have "\<dots> \<le> q" unfolding q using N(1) dpos by (intro divide_right_mono) auto
  finally have low: "2 powi (?k - 1) \<le> q" .
  show ?thesis using up low by (auto simp: flog2_def nd not_le Let_def)
qed

lemma flog2_less:
  assumes "0 < q" and "q < 2 powi k"
  shows "flog2 q < k"
proof (rule ccontr)
  assume "\<not> flog2 q < k"
  then have "(2::rat) powi k \<le> 2 powi flog2 q" by (intro power_int_increasing) auto
  then show False using flog2_bounds [OF assms(1)] assms(2) by linarith
qed

lemma round_half_even_int [simp]: "round_half_even (of_int z) = z"
  by (simp add: round_half_even_def)

text \<open>Values with a significand of at most 53 bits are not rounded.\<close>

lemma round_binary64_exact:
  assumes "\<bar>m\<bar> < 2 ^ 53" and "- 1074 \<le> e" and "e \<le> 970"
  shows "round_binary64 (of_int m * 2 powi e) = Finite (of_int m * 2 powi e)"
proof (cases "m = 0")
  case True
  then show ?thesis by (simp add: round_binary64_def)
next
  case False
  let ?q = "of_int m * (2::rat) powi e"
  let ?a = "of_int \<bar>m\<bar> * (2::rat) powi e"
  have abs: "\<bar>?q\<bar> = ?a" by (simp add: abs_mult)
  have q: "?q \<noteq> 0" "0 < ?a" using False by simp_all
  define E where "E = max (flog2 ?a) (- 1022) - 52"
  have "(of_int \<bar>m\<bar> :: rat) < of_int (2 ^ 53)" using assms(1) by (simp only: of_int_less_iff)
  then have "?a < 2 ^ 53 * 2 powi e" by (intro mult_strict_right_mono) auto
  also have "\<dots> = 2 powi (53 + e)" by (simp add: power_int_add)
  finally have lt: "?a < 2 powi (53 + e)" .
  have "flog2 ?a < 53 + e" by (rule flog2_less [OF q(2) lt])
  then have E: "E \<le> e" using assms(2) by (simp add: E_def)
  have "?a / 2 powi E = of_int \<bar>m\<bar> * 2 powi (e - E)" by (simp add: power_int_diff)
  also have "\<dots> = of_int (\<bar>m\<bar> * 2 ^ nat (e - E))" using E by (simp add: power_int_def)
  finally have "round_half_even (?a / 2 powi E) = \<bar>m\<bar> * 2 ^ nat (e - E)"
    by (simp only: round_half_even_int)
  then have "of_int (round_half_even (?a / 2 powi E)) = (of_int \<bar>m\<bar> :: rat) * 2 powi (e - E)"
    using E by (simp add: power_int_def)
  then have r: "of_int (round_half_even (?a / 2 powi E)) * 2 powi E = ?a"
    by (simp add: power_int_diff)
  have "(2::rat) powi (53 + e) \<le> 2 powi 1024" using assms(3) by (intro power_int_increasing) auto
  then have big: "\<not> 2 powi 1024 \<le> ?a" using lt by linarith
  have "0 < (2::rat) powi e" by simp
  then have sgn: "(if ?q < 0 then - ?a else ?a) = ?q"
    using False by (auto simp: mult_less_0_iff not_less)
  have "round_binary64 ?q = (if 2 powi 1024 \<le> ?a then Infinite (?q < 0)
      else Finite (if ?q < 0 then - ?a else ?a))"
    using q(1) r unfolding round_binary64_def Let_def abs E_def by simp
  then show ?thesis using big sgn by simp
qed

lemma round_binary64_int:
  assumes "\<bar>m\<bar> < 2 ^ 53"
  shows "round_binary64 (of_int m) = Finite (of_int m)"
  using round_binary64_exact [OF assms, of 0] by simp

lemma round_binary64_nat: "n < 2 ^ 53 \<Longrightarrow> round_binary64 (of_nat n) = Finite (of_nat n)"
  using round_binary64_int [of "int n"] by simp

lemma double_of_nat_exact: "n < 2 ^ 53 \<Longrightarrow> double_of_nat n = Finite (of_nat n)"
  using round_binary64_int [of "int n"] by (simp add: double_of_nat_def)

text \<open>Rounding changes a value of moderate size by less than a factor of two.\<close>

lemma round_half_even_near: "of_int (round_half_even x) \<le> x + 1 / 2 \<and> x - 1 / 2 \<le> of_int (round_half_even x)"
  unfolding round_half_even_def Let_def by (auto simp: not_less) linarith+

lemma round_binary64_near:
  assumes "2 powi - 1000 \<le> q" and "q \<le> 2 powi 1000"
  shows "\<exists>r. round_binary64 q = Finite r \<and> q / 2 \<le> r \<and> r \<le> 2 * q"
proof -
  have "(0::rat) < 2 powi - 1000" by simp
  then have q: "0 < q" using assms(1) by (rule less_le_trans)
  note fl = flog2_bounds [OF q]
  have "- 1000 < flog2 q + 1"
  proof (rule ccontr)
    assume "\<not> - 1000 < flog2 q + 1"
    then have "(2::rat) powi (flog2 q + 1) \<le> 2 powi - 1000" by (intro power_int_increasing) auto
    then show False using fl assms(1) by linarith
  qed
  then have e: "max (flog2 q) (- 1022) - 52 = flog2 q - 52" by simp
  define b where "b = (2::rat) powi (flog2 q - 52)"
  define x where "x = q / b"
  define n where "n = round_half_even x"
  have b: "0 < b" by (simp add: b_def)
  have "b \<le> 2 powi flog2 q" unfolding b_def by (intro power_int_increasing) auto
  then have "b \<le> q" using fl by linarith
  then have x: "1 \<le> x" using b by (simp add: x_def)
  have "x / 2 \<le> of_int n" "of_int n \<le> 2 * x"
    using round_half_even_near [of x] x unfolding n_def by linarith+
  then have "x / 2 * b \<le> of_int n * b" "of_int n * b \<le> 2 * x * b" using b by (simp_all add: mult_right_mono)
  then have r: "q / 2 \<le> of_int n * b" "of_int n * b \<le> 2 * q" using b by (simp_all add: x_def)
  have "2 * q \<le> 2 * 2 powi 1000" using assms(2) by simp
  also have "\<dots> < (2::rat) powi 1024" by simp
  finally have "\<not> 2 powi 1024 \<le> of_int n * b" using r(2) by linarith
  then have "round_binary64 q = Finite (of_int n * b)"
    using q unfolding round_binary64_def Let_def by (simp add: e flip: b_def x_def n_def)
  with r show ?thesis by blast
qed

end
