(* ===== verification/RateLimiter.thy ===== *)
theory RateLimiter
  imports Binary64
begin

text \<open>
  The GCRA rate limiter \<^verbatim>\<open>include/network/rate_limiter.hpp\<close>: its constructor on doubles,
  \<open>allow()\<close> as the sequence of its atomic steps (read the clock, load the theoretical arrival time,
  evaluate, compare-and-swap, which may also fail spuriously), and the interleavings of any number of
  threads that call it. The facts: what one call does when nothing interferes, that every
  interleaving is equivalent to the calls taken one after the other in the order they finish, and
  that the admitted packets of any stretch of that order conform to the configured rate and burst.
\<close>

section \<open>The limiter\<close>

record rate_limiter =
  emission_interval_ns :: u64
  tolerance_ns :: u64
  tat_ns :: u64

text \<open>The constructor; a cast of an unrepresentable double (for instance for a rate of 0) is
  undefined behaviour.\<close>

definition gcra_new :: "double \<Rightarrow> double \<Rightarrow> rate_limiter option" where
  "gcra_new rate_per_second burst_capacity =
     (case double_to_u64 (f_div (Finite 1000000000) rate_per_second) of
        None \<Rightarrow> None
      | Some t \<Rightarrow>
          (case double_to_u64 (f_mul (f_sub burst_capacity (Finite 1)) (double_of_nat (unat t))) of
             None \<Rightarrow> None
           | Some tau \<Rightarrow>
               Some \<lparr>emission_interval_ns = t, tolerance_ns = tau, tat_ns = 0\<rparr>))"

text \<open>The test and the new value of the body of the loop in \<open>allow()\<close>.\<close>

definition gcra_limited :: "rate_limiter \<Rightarrow> u64 \<Rightarrow> u64 \<Rightarrow> bool" where
  "gcra_limited l t current_tat \<longleftrightarrow> t < current_tat \<and> tolerance_ns l < current_tat - t"

definition gcra_next :: "rate_limiter \<Rightarrow> u64 \<Rightarrow> u64 \<Rightarrow> u64" where
  "gcra_next l t current_tat = max t current_tat + emission_interval_ns l"

text \<open>
  A whole call by a thread that runs alone. \<open>spurious\<close> is the number of compare-and-swaps that fail
  although the value is the expected one; each of them reloads the same value.
\<close>

fun gcra_allow_loop :: "rate_limiter \<Rightarrow> u64 \<Rightarrow> u64 \<Rightarrow> nat \<Rightarrow> bool \<times> rate_limiter" where
  "gcra_allow_loop l t current_tat 0 =
     (if gcra_limited l t current_tat then (False, l)
      else (True, l\<lparr>tat_ns := gcra_next l t current_tat\<rparr>))"
| "gcra_allow_loop l t current_tat (Suc spurious) =
     (if gcra_limited l t current_tat then (False, l)
      else gcra_allow_loop l t (tat_ns l) spurious)"

definition gcra_allow :: "nat \<Rightarrow> rate_limiter \<Rightarrow> u64 \<Rightarrow> bool \<times> rate_limiter" where
  "gcra_allow spurious l t = gcra_allow_loop l t (tat_ns l) spurious"

text \<open>The same as one atomic step.\<close>

definition gcra_atomic :: "rate_limiter \<Rightarrow> u64 \<Rightarrow> bool \<times> rate_limiter" where
  "gcra_atomic l t =
     (if gcra_limited l t (tat_ns l) then (False, l)
      else (True, l\<lparr>tat_ns := gcra_next l t (tat_ns l)\<rparr>))"

lemma gcra_allow_atomic: "gcra_allow spurious l t = gcra_atomic l t"
proof -
  have "gcra_allow_loop l t (tat_ns l) spurious = gcra_atomic l t"
    by (induction spurious) (simp_all add: gcra_atomic_def)
  then show ?thesis by (simp add: gcra_allow_def)
qed

text \<open>The calls of a list of arrival times, one after the other.\<close>

fun gcra_run :: "rate_limiter \<Rightarrow> u64 list \<Rightarrow> bool list \<times> rate_limiter" where
  "gcra_run l [] = ([], l)"
| "gcra_run l (t # ts) =
     (let (ok, l') = gcra_atomic l t; (oks, l'') = gcra_run l' ts in (ok # oks, l''))"

section \<open>Conformance\<close>

text \<open>
  Arrival times below \<open>horizon\<close> keep the theoretical arrival time from wrapping; the bound leaves
  room for the tolerance and one interval.
\<close>

definition no_wrap :: "rate_limiter \<Rightarrow> nat \<Rightarrow> bool" where
  "no_wrap l horizon \<longleftrightarrow>
     horizon + unat (tolerance_ns l) + unat (emission_interval_ns l) < 2 ^ 64"

lemma gcra_limited_unat:
  "gcra_limited l t c \<longleftrightarrow> unat t + unat (tolerance_ns l) < unat c"
proof -
  have "unat (c - t) = unat c - unat t" if "t < c"
    using that by (simp add: unat_sub word_less_nat_alt word_le_nat_alt)
  then show ?thesis
    by (auto simp: gcra_limited_def word_less_nat_alt)
qed

text \<open>The decision in the limiter's contract: a packet is admitted when the theoretical arrival time is ahead of the
  clock by at most the tolerance, and then moves it one interval further, from the packet's own time if that is later.\<close>

definition admits :: "rate_limiter \<Rightarrow> u64 \<Rightarrow> bool" where
  "admits l t \<longleftrightarrow> unat (tat_ns l) \<le> unat t + unat (tolerance_ns l)"

definition charged :: "rate_limiter \<Rightarrow> u64 \<Rightarrow> rate_limiter" where
  "charged l t =
     (if admits l t
      then l\<lparr>tat_ns := (if t \<le> tat_ns l then tat_ns l else t) + emission_interval_ns l\<rparr> else l)"

lemma gcra_atomic_spec: "gcra_atomic l t = (admits l t, charged l t)"
  by (auto simp: gcra_atomic_def admits_def charged_def gcra_limited_unat gcra_next_def max_def)

lemma gcra_next_unat:
  assumes "no_wrap l h" and "unat t \<le> h" and "\<not> gcra_limited l t c"
  shows "unat (gcra_next l t c) = max (unat t) (unat c) + unat (emission_interval_ns l)"
proof -
  have m: "unat (max t c) = max (unat t) (unat c)"
    by (auto simp: max_def word_le_nat_alt)
  have "max (unat t) (unat c) + unat (emission_interval_ns l) < 2 ^ 64"
    using assms by (auto simp: no_wrap_def gcra_limited_unat)
  then show ?thesis by (simp add: gcra_next_def unat_word_ariths m)
qed

definition admitted :: "u64 list \<Rightarrow> bool list \<Rightarrow> u64 list" where
  "admitted ts oks = map fst (filter snd (zip ts oks))"

lemma admitted_simps [simp]:
  "admitted [] oks = []"
  "admitted (t # ts) (ok # oks) = (if ok then t # admitted ts oks else admitted ts oks)"
  by (simp_all add: admitted_def)

lemma atomic_config [simp]:
  "emission_interval_ns (snd (gcra_atomic l t)) = emission_interval_ns l"
  "tolerance_ns (snd (gcra_atomic l t)) = tolerance_ns l"
  by (simp_all add: gcra_atomic_def)

lemma no_wrap_atomic [simp]: "no_wrap (snd (gcra_atomic l t)) h = no_wrap l h"
  by (simp add: no_wrap_def)

lemma gcra_run_Cons:
  "gcra_run l (t # ts) =
     (fst (gcra_atomic l t) # fst (gcra_run (snd (gcra_atomic l t)) ts),
      snd (gcra_run (snd (gcra_atomic l t)) ts))"
  by (simp add: Let_def split: prod.splits)

lemma gcra_run_config [simp]:
  "emission_interval_ns (snd (gcra_run l ts)) = emission_interval_ns l"
  "tolerance_ns (snd (gcra_run l ts)) = tolerance_ns l"
  by (induction ts arbitrary: l) (simp_all add: gcra_run_Cons del: gcra_run.simps(2))

lemma atomic_cases:
  assumes "no_wrap l h" and "unat t \<le> h"
  obtains (reject) "gcra_atomic l t = (False, l)"
      "unat t + unat (tolerance_ns l) < unat (tat_ns l)"
  | (admit) l' where "gcra_atomic l t = (True, l')"
      "unat (tat_ns l') = max (unat t) (unat (tat_ns l)) + unat (emission_interval_ns l)"
      "unat (tat_ns l) \<le> unat t + unat (tolerance_ns l)"
      "emission_interval_ns l' = emission_interval_ns l" "tolerance_ns l' = tolerance_ns l"
proof (cases "gcra_limited l t (tat_ns l)")
  case True
  then show ?thesis using reject by (simp add: gcra_atomic_def gcra_limited_unat)
next
  case False
  then show ?thesis
    using admit [of "l\<lparr>tat_ns := gcra_next l t (tat_ns l)\<rparr>"] gcra_next_unat [OF assms False]
    by (simp add: gcra_atomic_def gcra_limited_unat not_less)
qed

lemma gcra_run_lower:
  assumes "no_wrap l h" and "\<forall>t \<in> set ts. unat t \<le> h"
    and "\<forall>t \<in> set (admitted ts (fst (gcra_run l ts))). a \<le> unat t"
  defines "n \<equiv> length (admitted ts (fst (gcra_run l ts)))"
  shows "unat (tat_ns l) + n * unat (emission_interval_ns l) \<le> unat (tat_ns (snd (gcra_run l ts)))
    \<and> (0 < n \<longrightarrow> a + n * unat (emission_interval_ns l) \<le> unat (tat_ns (snd (gcra_run l ts))))"
  using assms(1-3) unfolding n_def
proof (induction ts arbitrary: l)
  case Nil
  then show ?case by simp
next
  case (Cons t ts)
  have t: "unat t \<le> h" using Cons.prems by simp
  from Cons.prems(1) t show ?case
  proof (cases rule: atomic_cases)
    case reject
    then show ?thesis using Cons by (simp add: gcra_run_Cons del: gcra_run.simps(2))
  next
    case (admit l')
    have "no_wrap l' h" using Cons.prems(1) admit by (simp add: no_wrap_def)
    then show ?thesis
      using Cons.IH [of l'] Cons.prems(2,3) admit
      by (simp add: gcra_run_Cons del: gcra_run.simps(2)) (intro conjI; linarith)
  qed
qed

lemma gcra_run_upper:
  assumes "no_wrap l h" and "\<forall>t \<in> set ts. unat t \<le> h"
    and "\<forall>t \<in> set (admitted ts (fst (gcra_run l ts))). unat t \<le> b"
    and "admitted ts (fst (gcra_run l ts)) \<noteq> [] \<or>
      unat (tat_ns l) \<le> b + unat (tolerance_ns l) + unat (emission_interval_ns l)"
  shows "unat (tat_ns (snd (gcra_run l ts))) \<le>
    b + unat (tolerance_ns l) + unat (emission_interval_ns l)"
  using assms
proof (induction ts arbitrary: l)
  case Nil
  then show ?case by simp
next
  case (Cons t ts)
  have t: "unat t \<le> h" using Cons.prems by simp
  from Cons.prems(1) t show ?case
  proof (cases rule: atomic_cases)
    case reject
    then show ?thesis using Cons by (simp add: gcra_run_Cons del: gcra_run.simps(2))
  next
    case (admit l')
    have "no_wrap l' h" using Cons.prems(1) admit by (simp add: no_wrap_def)
    moreover have "unat t \<le> b"
      using Cons.prems(3) admit by (simp add: gcra_run_Cons del: gcra_run.simps(2))
    ultimately show ?thesis
      using Cons.IH [of l'] Cons.prems(2,3) admit
      by (simp add: gcra_run_Cons del: gcra_run.simps(2))
  qed
qed

lemma gcra_window:
  assumes "no_wrap l h" and "\<forall>t \<in> set ts. unat t \<le> h"
    and "\<forall>t \<in> set (admitted ts (fst (gcra_run l ts))). a \<le> unat t \<and> unat t \<le> b"
    and "a \<le> b"
  shows "length (admitted ts (fst (gcra_run l ts))) * unat (emission_interval_ns l) \<le>
    unat (emission_interval_ns l) + (b - a) + unat (tolerance_ns l)"
proof (cases "admitted ts (fst (gcra_run l ts)) = []")
  case False
  then show ?thesis
    using gcra_run_lower [of l h ts a] gcra_run_upper [of l h ts b] assms by auto
qed simp

text \<open>C19 Rate conformance: over any stretch of consecutive calls, with arrival times in any order,
  if all admitted packets arrive between \<open>a\<close> and \<open>b\<close> then all but one of their emission intervals
  fit into \<open>b - a\<close> plus the tolerance: at most \<open>1 + (b - a + tolerance) / interval\<close> are admitted.\<close>

theorem gcra_conformance:
  assumes "no_wrap l h" and "\<forall>t \<in> set ts. unat t \<le> h"
    and "\<forall>t \<in> set (admitted ts (fst (gcra_run l ts))). a \<le> unat t \<and> unat t \<le> b"
    and "a \<le> b"
  shows "length (admitted ts (fst (gcra_run l ts))) * unat (emission_interval_ns l) \<le>
    unat (emission_interval_ns l) + (b - a) + unat (tolerance_ns l)"
  by (rule gcra_window [OF assms])

text \<open>Bursts: with the theoretical arrival time \<open>k\<close> intervals ahead, \<open>K - k\<close> more packets pass.\<close>

abbreviation burst_size :: "rate_limiter \<Rightarrow> nat" where
  "burst_size l \<equiv> unat (tolerance_ns l) div unat (emission_interval_ns l) + 1"

lemma burst_ahead:
  assumes "no_wrap l (unat t)" and "0 < unat (emission_interval_ns l)"
    and "unat (tat_ns l) = unat t + k * unat (emission_interval_ns l)"
  shows "fst (gcra_run l (replicate n t)) =
    replicate (min n (burst_size l - k)) True @ replicate (n - (burst_size l - k)) False"
  using assms
proof (induction n arbitrary: l k)
  case 0
  then show ?case by simp
next
  case (Suc n)
  have full: "unat (tolerance_ns l) < k * unat (emission_interval_ns l) \<longleftrightarrow> burst_size l \<le> k"
    using Suc.prems(2) by (simp add: div_less_iff_less_mult [symmetric] Suc_le_eq)
  from Suc.prems(1) le_refl show ?case
  proof (cases rule: atomic_cases)
    case reject
    then have "burst_size l \<le> k" using full Suc.prems(3) by simp
    then show ?thesis
      using Suc.IH [OF Suc.prems] reject by (simp add: gcra_run_Cons del: gcra_run.simps(2))
  next
    case (admit l')
    have k: "k < burst_size l" using full admit(3) Suc.prems(3) by linarith
    have "no_wrap l' (unat t)" using Suc.prems(1) admit by (simp add: no_wrap_def)
    then have "fst (gcra_run l' (replicate n t)) =
        replicate (min n (burst_size l - Suc k)) True @ replicate (n - (burst_size l - Suc k)) False"
      using Suc.IH [of l' "Suc k"] Suc.prems(2,3) admit by simp
    moreover have "burst_size l - k = Suc (burst_size l - Suc k)" using k by simp
    ultimately show ?thesis
      using admit(1) by (simp add: gcra_run_Cons del: gcra_run.simps(2))
  qed
qed

text \<open>A burst of calls at one instant, on a limiter that has been idle, admits exactly the first
  \<open>tolerance / interval + 1\<close> packets.\<close>

theorem gcra_burst:
  assumes "no_wrap l (unat t)" and "0 < unat (emission_interval_ns l)" and "tat_ns l \<le> t"
  shows "fst (gcra_run l (replicate n t)) =
    replicate (min n (burst_size l)) True @ replicate (n - burst_size l) False"
proof (cases n)
  case (Suc m)
  from assms(1) le_refl show ?thesis
  proof (cases rule: atomic_cases)
    case reject
    then show ?thesis using assms(3) by (simp add: word_le_nat_alt)
  next
    case (admit l')
    have "no_wrap l' (unat t)" using assms(1) admit by (simp add: no_wrap_def)
    moreover have "unat (tat_ns l') = unat t + 1 * unat (emission_interval_ns l')"
      using admit assms(3) by (simp add: word_le_nat_alt max_def)
    ultimately have "fst (gcra_run l' (replicate m t)) =
        replicate (min m (burst_size l - 1)) True @ replicate (m - (burst_size l - 1)) False"
      using burst_ahead [of l' t 1 m] assms(2) admit by simp
    then show ?thesis using admit Suc by (simp add: gcra_run_Cons del: gcra_run.simps(2))
  qed
qed simp

text \<open>The constructor computes the interval and the tolerance exactly for whole rates that divide
  a second and whole bursts: interval \<open>10 ^ 9 / r\<close> ns and tolerance \<open>(b - 1)\<close> intervals, so that a
  burst of exactly \<open>b\<close> packets passes at once.\<close>

theorem gcra_new_exact:
  assumes "0 < r" and "r dvd 10 ^ 9" and "1 \<le> b" and "b < 2 ^ 53"
    and "(b - 1) * (10 ^ 9 div r) < 2 ^ 53"
  shows "\<exists>l. gcra_new (Finite (of_nat r)) (Finite (of_nat b)) = Some l \<and>
    unat (emission_interval_ns l) = 10 ^ 9 div r \<and>
    unat (tolerance_ns l) = (b - 1) * (10 ^ 9 div r) \<and> tat_ns l = 0 \<and> burst_size l = b"
proof -
  define T where "T = (10 ^ 9 :: nat) div r"
  define tau where "tau = (b - 1) * T"
  have T: "r * T = 10 ^ 9" using assms(2) by (simp add: T_def)
  then have "T \<noteq> 0" by (metis mult_0_right power_not_zero zero_neq_numeral)
  have "T \<le> 10 ^ 9" by (simp add: T_def)
  then have lt: "T < 2 ^ 53" by (rule le_less_trans) simp
  have lt': "tau < 2 ^ 53" using assms(5) unfolding tau_def T_def .
  have "(1000000000 :: rat) / of_nat r = of_nat T"
  proof -
    have "of_nat (r * T) = (of_nat (10 ^ 9) :: rat)" by (simp only: T)
    then have "of_nat r * of_nat T = (1000000000 :: rat)" by simp
    then show ?thesis using assms(1) by (simp add: divide_eq_eq mult.commute)
  qed
  then have 1: "f_div (Finite 1000000000) (Finite (of_nat r)) = Finite (of_nat T)"
    using assms(1) lt by (simp add: round_binary64_nat)
  have b: "(of_nat b :: rat) - 1 = of_nat (b - 1)" using assms(3) by (simp only: of_nat_diff of_nat_1)
  have "b - 1 < 2 ^ 53" using assms(4) by (rule less_imp_diff_less)
  then have 2: "f_sub (Finite (of_nat b)) (Finite 1) = Finite (of_nat (b - 1))"
    unfolding f_sub.simps b by (rule round_binary64_nat)
  have 3: "f_mul (Finite (of_nat (b - 1))) (Finite (of_nat T)) = Finite (of_nat tau)"
    unfolding f_mul.simps of_nat_mult [symmetric] tau_def [symmetric]
    using lt' by (rule round_binary64_nat)
  have u: "double_to_u64 (Finite (of_nat n)) = Some (of_nat n)" if "n < 2 ^ 53" for n
    using that by (simp add: trunc_rat_def)
  have n: "unat (of_nat n :: u64) = n" if "n < 2 ^ 53" for n
    using that by (intro unat_of_nat_small) simp
  have "gcra_new (Finite (of_nat r)) (Finite (of_nat b)) =
      Some \<lparr>emission_interval_ns = of_nat T, tolerance_ns = of_nat tau, tat_ns = 0\<rparr>"
    unfolding gcra_new_def 1 2 u [OF lt] option.case n [OF lt] double_of_nat_exact [OF lt] 3
      u [OF lt'] by (rule refl)
  moreover have "tau div T + 1 = b" using \<open>T \<noteq> 0\<close> assms(3) by (simp add: tau_def)
  ultimately show ?thesis
    using n [OF lt] n [OF lt'] unfolding T_def [symmetric] tau_def [symmetric] by simp
qed

lemma gcra_new_exact_witness:
  "\<exists>l. gcra_new (Finite 10) (Finite 5) = Some l \<and> unat (emission_interval_ns l) = 100000000 \<and>
     unat (tolerance_ns l) = 400000000 \<and> burst_size l = 5"
  using gcra_new_exact [of 10 5] by (auto simp: dvd_def)

lemma gcra_burst_witness:
  "fst (gcra_run \<lparr>emission_interval_ns = 10, tolerance_ns = 10, tat_ns = 0\<rparr>
     (replicate 3 1000)) = [True, True, False]"
  using gcra_burst [of "\<lparr>emission_interval_ns = 10, tolerance_ns = 10, tat_ns = 0\<rparr>" 1000 3]
  by (simp add: no_wrap_def)

lemma gcra_conformance_witness:
  "length (admitted [5, 5, 5] (fst (gcra_run
      \<lparr>emission_interval_ns = 10, tolerance_ns = 10, tat_ns = 0\<rparr> [5, 5, 5]))) * 10 \<le> 10 + 0 + (10 :: nat)"
  using gcra_conformance [of "\<lparr>emission_interval_ns = 10, tolerance_ns = 10, tat_ns = 0\<rparr>" 5 "[5, 5, 5]" 5 5]
  by (simp add: no_wrap_def gcra_atomic_def gcra_limited_def gcra_next_def Let_def)

section \<open>Threads\<close>

text \<open>
  Any number of threads call \<open>allow()\<close> on one limiter. A thread is idle, has read the clock, or has
  loaded \<open>current_tat\<close> and is about to evaluate it. \<open>history\<close> records the finished calls in the
  order in which they finish; it is not part of the program's state.
\<close>

datatype gcra_pc = Idle | Ready u64 | Loaded u64 u64

record gcra_sys =
  limiter :: rate_limiter
  pcs :: "nat \<Rightarrow> gcra_pc"
  history :: "(u64 \<times> bool) list"

definition gcra_init :: "rate_limiter \<Rightarrow> gcra_sys" where
  "gcra_init l = \<lparr>limiter = l, pcs = (\<lambda>_. Idle), history = []\<rparr>"

inductive gcra_step :: "nat \<Rightarrow> gcra_sys \<Rightarrow> gcra_sys \<Rightarrow> bool" where
  read_clock: "pcs s i = Idle \<Longrightarrow> unat t \<le> h \<Longrightarrow>
    gcra_step h s (s\<lparr>pcs := (pcs s)(i := Ready t)\<rparr>)"
| load: "pcs s i = Ready t \<Longrightarrow>
    gcra_step h s (s\<lparr>pcs := (pcs s)(i := Loaded t (tat_ns (limiter s)))\<rparr>)"
| limited: "pcs s i = Loaded t c \<Longrightarrow> gcra_limited (limiter s) t c \<Longrightarrow>
    gcra_step h s (s\<lparr>pcs := (pcs s)(i := Idle), history := history s @ [(t, False)]\<rparr>)"
| cas_success: "pcs s i = Loaded t c \<Longrightarrow> \<not> gcra_limited (limiter s) t c \<Longrightarrow>
    tat_ns (limiter s) = c \<Longrightarrow>
    gcra_step h s (s\<lparr>pcs := (pcs s)(i := Idle),
      limiter := (limiter s)\<lparr>tat_ns := gcra_next (limiter s) t c\<rparr>,
      history := history s @ [(t, True)]\<rparr>)"
| cas_failure: "pcs s i = Loaded t c \<Longrightarrow> \<not> gcra_limited (limiter s) t c \<Longrightarrow>
    gcra_step h s (s\<lparr>pcs := (pcs s)(i := Loaded t (tat_ns (limiter s)))\<rparr>)"

inductive gcra_reach :: "nat \<Rightarrow> rate_limiter \<Rightarrow> gcra_sys \<Rightarrow> bool" for h l where
  init: "gcra_reach h l (gcra_init l)"
| step: "gcra_reach h l s \<Longrightarrow> gcra_step h s s' \<Longrightarrow> gcra_reach h l s'"

text \<open>
  The invariant: the limiter is the one reached by running the history in sequence, every loaded
  value is one the limiter has not fallen below, and all arrival times are within the horizon.
\<close>

definition gcra_inv :: "nat \<Rightarrow> rate_limiter \<Rightarrow> gcra_sys \<Rightarrow> bool" where
  "gcra_inv h l s \<longleftrightarrow>
     gcra_run l (map fst (history s)) = (map snd (history s), limiter s) \<and>
     (\<forall>(t, _) \<in> set (history s). unat t \<le> h) \<and>
     (\<forall>i t. pcs s i = Ready t \<longrightarrow> unat t \<le> h) \<and>
     (\<forall>i t c. pcs s i = Loaded t c \<longrightarrow> unat t \<le> h \<and> c \<le> tat_ns (limiter s))"

lemma gcra_run_append:
  "gcra_run l (ts @ us) =
     (fst (gcra_run l ts) @ fst (gcra_run (snd (gcra_run l ts)) us),
      snd (gcra_run (snd (gcra_run l ts)) us))"
  by (induction ts arbitrary: l) (auto simp: gcra_run_Cons simp del: gcra_run.simps(2))

lemma gcra_limited_mono: "gcra_limited l t c \<Longrightarrow> c \<le> c' \<Longrightarrow> gcra_limited l t c'"
  by (auto simp: gcra_limited_unat word_le_nat_alt)

lemma gcra_step_inv:
  assumes "gcra_step h s s'" and "no_wrap l h" and "gcra_inv h l s"
  shows "gcra_inv h l s'"
  using assms
proof (induction rule: gcra_step.induct)
  case (limited s i t c h)
  then have "c \<le> tat_ns (limiter s)" by (simp add: gcra_inv_def)
  with limited have "gcra_atomic (limiter s) t = (False, limiter s)"
    using gcra_limited_mono by (simp add: gcra_atomic_def)
  then show ?case
    using limited by (auto simp: gcra_inv_def gcra_run_append Let_def)
next
  case (cas_success s i t c h)
  have cfg: "no_wrap (limiter s) h"
    using cas_success gcra_run_config [of l "map fst (history s)"]
    by (simp add: gcra_inv_def no_wrap_def)
  have t: "unat t \<le> h" using cas_success by (simp add: gcra_inv_def)
  have "unat (gcra_next (limiter s) t c) = max (unat t) (unat c) + unat (emission_interval_ns (limiter s))"
    using cfg t cas_success(2) by (rule gcra_next_unat)
  then have "c \<le> gcra_next (limiter s) t c" by (simp add: word_le_nat_alt)
  moreover have "gcra_atomic (limiter s) t =
      (True, (limiter s)\<lparr>tat_ns := gcra_next (limiter s) t c\<rparr>)"
    using cas_success(2,3) by (simp add: gcra_atomic_def)
  ultimately show ?case
    using cas_success t order_trans by (fastforce simp: gcra_inv_def gcra_run_append Let_def)
qed (auto simp: gcra_inv_def)

lemma gcra_reach_inv: "gcra_reach h l s \<Longrightarrow> no_wrap l h \<Longrightarrow> gcra_inv h l s"
proof (induction rule: gcra_reach.induct)
  case init
  then show ?case by (simp add: gcra_inv_def gcra_init_def)
next
  case (step s s')
  then show ?case by (blast intro: gcra_step_inv)
qed

text \<open>C7 Thread safety: in every reachable state of any number of threads calling \<open>allow()\<close>
  concurrently, with clock readings up to \<open>h\<close>, the results of the finished calls and the stored
  arrival time are those of the same calls executed one after the other in the order in which they
  finished.\<close>

theorem gcra_linearizable:
  assumes "gcra_reach h l s" and "no_wrap l h"
  shows "gcra_run l (map fst (history s)) = (map snd (history s), limiter s)"
  using gcra_reach_inv [OF assms] by (simp add: gcra_inv_def)

lemma gcra_linearizable_witness:
  "\<exists>s. gcra_reach 5 \<lparr>emission_interval_ns = 10, tolerance_ns = 0, tat_ns = 0\<rparr> s \<and>
     history s = [(5, True), (5, False)] \<and>
     gcra_run \<lparr>emission_interval_ns = 10, tolerance_ns = 0, tat_ns = 0\<rparr> [5, 5] =
       ([True, False], limiter s)"
proof -
  let ?l = "\<lparr>emission_interval_ns = 10, tolerance_ns = 0, tat_ns = 0\<rparr>"
  let ?pcs = "\<lambda>p0 p1 i. if i = (0::nat) then p0 else if i = 1 then p1 else Idle"
  let ?st = "\<lambda>tat p0 p1 hist. \<lparr>limiter = \<lparr>emission_interval_ns = 10, tolerance_ns = 0, tat_ns = tat\<rparr>,
    pcs = ?pcs p0 p1, history = hist\<rparr>"
  have upd: "(?pcs p q)(0 := r) = ?pcs r q" "(?pcs p q)(1 := r) = ?pcs p r"
    "(?pcs p q)(Suc 0 := r) = ?pcs p r"
    for p q r :: gcra_pc by auto
  have idle: "(\<lambda>i. Idle) = ?pcs Idle Idle" by auto
  have 0: "gcra_reach 5 ?l (?st 0 Idle Idle [])"
    using gcra_reach.init [of 5 ?l] by (simp add: gcra_init_def idle)
  have 1: "gcra_reach 5 ?l (?st 0 (Ready 5) Idle [])"
    using gcra_reach.step [OF 0 gcra_step.read_clock [of _ 0 5]] by (simp add: upd)
  have 2: "gcra_reach 5 ?l (?st 0 (Loaded 5 0) Idle [])"
    using gcra_reach.step [OF 1 gcra_step.load [of _ 0 5]] by (simp add: upd)
  have 3: "gcra_reach 5 ?l (?st 0 (Loaded 5 0) (Ready 5) [])"
    using gcra_reach.step [OF 2 gcra_step.read_clock [of _ 1 5]] by (simp add: upd)
  have 4: "gcra_reach 5 ?l (?st 0 (Loaded 5 0) (Loaded 5 0) [])"
    using gcra_reach.step [OF 3 gcra_step.load [of _ 1 5]] by (simp add: upd)
  have 5: "gcra_reach 5 ?l (?st 15 Idle (Loaded 5 0) [(5, True)])"
    using gcra_reach.step [OF 4 gcra_step.cas_success [of _ 0 5 0]]
    by (simp add: upd gcra_limited_def gcra_next_def)
  have 6: "gcra_reach 5 ?l (?st 15 Idle (Loaded 5 15) [(5, True)])"
    using gcra_reach.step [OF 5 gcra_step.cas_failure [of _ 1 5 0]] by (simp add: upd gcra_limited_def)
  have 7: "gcra_reach 5 ?l (?st 15 Idle Idle [(5, True), (5, False)])"
    using gcra_reach.step [OF 6 gcra_step.limited [of _ 1 5 15]] by (simp add: upd gcra_limited_def)
  show ?thesis
    using 7 gcra_linearizable [OF 7] by (intro exI [of _ "?st 15 Idle Idle [(5, True), (5, False)]"])
      (simp add: no_wrap_def)
qed

end
