(* ===== verification/Node.thy ===== *)
theory Node
  imports Addressing RateLimiter
begin

text \<open>
  Hosts: \<^verbatim>\<open>include/network/node.hpp\<close> and \<^verbatim>\<open>src/network/node.cpp\<close>: identity, address,
  mask, the subnet test \<open>is_local\<close> and the optional rate limiter. The facts: \<open>is_local\<close> compares the
  leading bits that the mask selects, and a node without a limiter receives every packet.
\<close>

record node =
  node_id :: u32
  node_name :: string
  node_ip :: ipv4_address
  node_mask :: subnet_mask
  node_mac :: string
  node_limiter :: "rate_limiter option"

definition node_new :: "u32 \<Rightarrow> string \<Rightarrow> ipv4_address \<Rightarrow> subnet_mask \<Rightarrow> string \<Rightarrow> node" where
  "node_new i name ip m mac =
     \<lparr>node_id = i, node_name = name, node_ip = ip, node_mask = m, node_mac = mac,
      node_limiter = None\<rparr>"

definition is_local :: "node \<Rightarrow> ipv4_address \<Rightarrow> bool" where
  "is_local nd target_ip =
     (let mask_val = mask_u32 (node_mask nd);
          local_subnet = to_u32 (node_ip nd) AND mask_val;
          target_subnet = to_u32 target_ip AND mask_val
      in local_subnet = target_subnet)"

text \<open>\<open>None\<close>: the limiter's constructor has undefined behaviour for these arguments.\<close>

definition enable_rate_limiting :: "node \<Rightarrow> double \<Rightarrow> double \<Rightarrow> node option" where
  "enable_rate_limiting nd rate_per_sec burst_capacity =
     (case gcra_new rate_per_sec burst_capacity of
        None \<Rightarrow> None
      | Some l \<Rightarrow> Some (nd\<lparr>node_limiter := Some l\<rparr>))"

text \<open>\<open>t\<close> is the clock reading of the call, \<open>spurious\<close> the number of spurious failures of its
  compare-and-swap.\<close>

definition receive_packet :: "nat \<Rightarrow> node \<Rightarrow> u64 \<Rightarrow> bool \<times> node" where
  "receive_packet spurious nd t =
     (case node_limiter nd of
        None \<Rightarrow> (True, nd)
      | Some l \<Rightarrow> (let (ok, l') = gcra_allow spurious l t in (ok, nd\<lparr>node_limiter := Some l'\<rparr>)))"

lemma and_prefix_mask_eq:
  assumes "p \<le> 32"
  shows "a AND prefix_mask p = b AND prefix_mask p \<longleftrightarrow> drop_bit (32 - p) a = drop_bit (32 - p) b"
proof
  assume *: "a AND prefix_mask p = b AND prefix_mask p"
  show "drop_bit (32 - p) a = drop_bit (32 - p) b"
  proof (rule bit_word_eqI)
    fix n assume "n < LENGTH(32)"
    have "bit (a AND prefix_mask p) (32 - p + n) = bit (b AND prefix_mask p) (32 - p + n)"
      using * by simp
    then show "bit (drop_bit (32 - p) a) n = bit (drop_bit (32 - p) b) n"
      using assms by (auto simp: bit_simps bit_prefix_mask dest: bit_imp_le_length)
  qed
next
  assume *: "drop_bit (32 - p) a = drop_bit (32 - p) b"
  show "a AND prefix_mask p = b AND prefix_mask p"
  proof (rule bit_word_eqI)
    fix n assume "n < LENGTH(32)"
    have "bit (drop_bit (32 - p) a) (n - (32 - p)) = bit (drop_bit (32 - p) b) (n - (32 - p))"
      using * by simp
    then show "bit (a AND prefix_mask p) n = bit (b AND prefix_mask p) n"
      using assms by (auto simp: bit_simps bit_prefix_mask)
  qed
qed

text \<open>For a node whose mask was built from the prefix length \<open>p\<close>, an address is local exactly when
  its first \<open>p\<close> bits are those of the node's own address.\<close>

theorem is_local_prefix:
  assumes "mask_of_prefix (int p) = Inr (node_mask nd)"
  shows "is_local nd target \<longleftrightarrow>
    drop_bit (32 - p) (to_u32 (node_ip nd)) = drop_bit (32 - p) (to_u32 target)"
proof -
  have p: "p \<le> 32" using assms by (simp add: mask_of_prefix_def split: if_splits)
  then have "mask_u32 (node_mask nd) = prefix_mask p"
    using assms by (simp add: mask_of_prefix_nat) (metis subnet_mask.sel)
  then show ?thesis by (simp add: is_local_def Let_def and_prefix_mask_eq [OF p])
qed

lemma is_local_prefix_witness:
  "is_local (node_new 4 ''HostA'' (IPv4Address 0x0A00000A) (SubnetMask 0xFFFFFF00) [])
     (IPv4Address 0x0A000014) \<and>
   \<not> is_local (node_new 4 ''HostA'' (IPv4Address 0x0A00000A) (SubnetMask 0xFFFFFF00) [])
     (IPv4Address 0x0A000114)"
proof -
  let ?n = "node_new 4 ''HostA'' (IPv4Address 0x0A00000A) (SubnetMask 0xFFFFFF00) []"
  have "mask_of_prefix (int 24) = Inr (node_mask ?n)"
    by (simp add: mask_of_prefix_def node_new_def) code_simp
  from is_local_prefix [OF this] show ?thesis by (simp add: node_new_def)
qed

text \<open>Receiving a packet: a node without a limiter accepts it; with a limiter the answer and the
  new limiter are those of one atomic GCRA decision, whatever compare-and-swaps fail spuriously; no
  other field of the node changes.\<close>

theorem receive_packet_cases:
  "receive_packet k nd t =
     (case node_limiter nd of
        None \<Rightarrow> (True, nd)
      | Some l \<Rightarrow> (fst (gcra_atomic l t), nd\<lparr>node_limiter := Some (snd (gcra_atomic l t))\<rparr>))"
  by (simp add: receive_packet_def gcra_allow_atomic split: option.splits prod.splits)

end
