(* ===== verification/PathHeap.thy ===== *)
theory PathHeap
  imports Prelude "HOL-Library.Multiset" "HOL-Library.Product_Lexorder"
begin

text \<open>
  The frontier of the path finder: \<^verbatim>\<open>std::priority_queue<PathNode, ..., std::greater<PathNode>>\<close> of
  \<^verbatim>\<open>src/network/router.cpp\<close>. The interface \<open>min_queue\<close> states what its client relies on: the
  contents are a multiset, and \<open>top\<close> is a least element of it. The queue itself is kept as an
  ascending list; \<open>PathNode\<close> values are ordered lexicographically, as \<open>std::pair\<close> is.
\<close>

type_synonym path_node = "u32 \<times> u32"

section \<open>The interface\<close>

locale min_queue =
  fixes isEmpty :: "'q \<Rightarrow> bool"
    and push :: "'a::linorder \<Rightarrow> 'q \<Rightarrow> 'q"
    and top :: "'q \<Rightarrow> 'a"
    and pop :: "'q \<Rightarrow> 'q"
    and contents :: "'q \<Rightarrow> 'a multiset"
    and ok :: "'q \<Rightarrow> bool"
  assumes empty_law: "isEmpty q \<longleftrightarrow> contents q = {#}"
    and push_law: "ok q \<Longrightarrow> ok (push x q) \<and> contents (push x q) = add_mset x (contents q)"
    and top_law: "ok q \<Longrightarrow> \<not> isEmpty q \<Longrightarrow>
      top q \<in># contents q \<and> (\<forall>y \<in># contents q. top q \<le> y)"
    and pop_law: "ok q \<Longrightarrow> \<not> isEmpty q \<Longrightarrow> ok (pop q) \<and> contents (pop q) = contents q - {#top q#}"
begin

definition elems :: "'q \<Rightarrow> 'a set" where
  "elems q = set_mset (contents q)"

text \<open>No value is queued twice.\<close>

definition unique :: "'q \<Rightarrow> bool" where
  "unique q \<longleftrightarrow> (\<forall>x. count (contents q) x \<le> 1)"

lemma elems_empty: "isEmpty q \<Longrightarrow> elems q = {}"
  by (simp add: empty_law elems_def)

lemma elems_push: "ok q \<Longrightarrow> elems (push x q) = insert x (elems q)"
  by (simp add: push_law elems_def)

lemma top_least: "ok q \<Longrightarrow> \<not> isEmpty q \<Longrightarrow> top q \<in> elems q \<and> (\<forall>y \<in> elems q. top q \<le> y)"
  using top_law by (simp add: elems_def)

lemma unique_push: "ok q \<Longrightarrow> unique q \<Longrightarrow> x \<notin> elems q \<Longrightarrow> unique (push x q)"
  by (auto simp: push_law unique_def elems_def not_in_iff)

lemma elems_pop:
  assumes "ok q" and "\<not> isEmpty q" and "unique q"
  shows "elems (pop q) = elems q - {top q}"
proof -
  have "count (contents q) (top q) \<le> 1" using assms(3) by (simp add: unique_def)
  moreover have "contents (pop q) = contents q - {#top q#}" using pop_law assms by simp
  ultimately show ?thesis
    by (auto simp: elems_def simp flip: count_greater_zero_iff split: if_splits)
qed

lemma unique_pop:
  assumes "ok q" and "\<not> isEmpty q" and "unique q"
  shows "unique (pop q)"
proof -
  have "contents (pop q) = contents q - {#top q#}" using pop_law assms by simp
  then show ?thesis using assms(3) by (simp add: unique_def le_SucI)
qed

end

section \<open>The implementation\<close>

definition heap_empty :: "path_node list \<Rightarrow> bool" where
  "heap_empty q \<longleftrightarrow> q = []"

definition heap_push :: "path_node \<Rightarrow> path_node list \<Rightarrow> path_node list" where
  "heap_push x q = insort x q"

definition heap_top :: "path_node list \<Rightarrow> path_node" where
  "heap_top q = hd q"

definition heap_pop :: "path_node list \<Rightarrow> path_node list" where
  "heap_pop q = tl q"

interpretation heap: min_queue heap_empty heap_push heap_top heap_pop mset sorted
proof unfold_locales
  fix q x
  show "heap_empty q \<longleftrightarrow> mset q = {#}" by (simp add: heap_empty_def)
  show "sorted (heap_push x q) \<and> mset (heap_push x q) = add_mset x (mset q)" if "sorted q"
    using that by (simp add: heap_push_def sorted_insort mset_insort)
  show "heap_top q \<in># mset q \<and> (\<forall>y \<in># mset q. heap_top q \<le> y)" if "sorted q" "\<not> heap_empty q"
    using that by (cases q) (auto simp: heap_empty_def heap_top_def)
  show "sorted (heap_pop q) \<and> mset (heap_pop q) = mset q - {#heap_top q#}"
    if "sorted q" "\<not> heap_empty q"
    using that by (cases q) (auto simp: heap_empty_def heap_top_def heap_pop_def)
qed

lemma heap_elems [simp]: "heap.elems q = set q"
  by (simp add: heap.elems_def)

lemma length_heap_push [simp]: "length (heap_push x q) = Suc (length q)"
  by (simp add: heap_push_def)

lemma length_heap_pop: "\<not> heap_empty q \<Longrightarrow> length q = Suc (length (heap_pop q))"
  by (cases q) (simp_all add: heap_empty_def heap_pop_def)

end
