(* ===== verification/ShortestPaths.thy ===== *)
theory ShortestPaths
  imports Dijkstra
begin

text \<open>
  Correctness of the path finder: first the invariant of Dijkstra's algorithm over natural-number
  distances, a set of queued (distance, node) pairs and the list of the settled nodes, with one
  lemma per kind of step; then the simulation of these steps by the code's search state, as long as no
  sum of costs reaches \<open>2^32 - 1\<close>.
\<close>

section \<open>Shortest paths\<close>

type_synonym costs = "u32 \<Rightarrow> (u32 \<times> u32) list"

text \<open>\<open>path E u n v\<close>: a path from \<open>u\<close> to \<open>v\<close> of total cost \<open>n\<close>.\<close>

inductive path :: "costs \<Rightarrow> u32 \<Rightarrow> nat \<Rightarrow> u32 \<Rightarrow> bool" for E :: costs and u :: u32 where
  start: "path E u 0 u"
| edge: "path E u n v \<Longrightarrow> (w, c) \<in> set (E v) \<Longrightarrow> path E u (n + unat c) w"

lemma path_edge_first: "path E v n w \<Longrightarrow> (v, c) \<in> set (E u) \<Longrightarrow> path E u (unat c + n) w"
proof (induction rule: path.induct)
  case start
  then show ?case using path.edge [OF path.start] by fastforce
next
  case (edge n v w c')
  then show ?case using path.edge by (metis add.assoc)
qed

definition shortest :: "costs \<Rightarrow> u32 \<Rightarrow> nat \<Rightarrow> u32 \<Rightarrow> bool" where
  "shortest E u n v \<longleftrightarrow> path E u n v \<and> (\<forall>m. path E u m v \<longrightarrow> n \<le> m)"

lemma shortest_unique: "shortest E u n v \<Longrightarrow> shortest E u m v \<Longrightarrow> n = m"
  by (simp add: shortest_def eq_iff)

section \<open>The invariant\<close>

text \<open>The distance that stands for ``not reached''.\<close>

abbreviation FAR :: nat where
  "FAR \<equiv> 4294967295"

text \<open>A node's parent is settled before it, and the distance is the parent's plus an edge.\<close>

definition parented :: "costs \<Rightarrow> u32 list \<Rightarrow> (u32 \<Rightarrow> nat) \<Rightarrow> (u32 \<rightharpoonup> u32) \<Rightarrow> u32 \<Rightarrow> bool" where
  "parented E S D par v \<longleftrightarrow>
     (\<exists>p c. par v = Some p \<and> p \<in> set (takeWhile (\<lambda>x. x \<noteq> v) S) \<and> (v, c) \<in> set (E p) \<and>
        D v = D p + unat c)"

text \<open>
  \<open>S\<close>: the settled nodes in their order; \<open>u\<close>: the node being expanded, \<open>es\<close> its edges still to be
  relaxed; \<open>D\<close>: distances of the nodes \<open>K\<close>; \<open>H\<close>: the queue; \<open>C\<close>: a bound of every cost.
\<close>

definition base_ok :: "u32 set \<Rightarrow> u32 \<Rightarrow> u32 list \<Rightarrow> (u32 \<Rightarrow> nat) \<Rightarrow> (u32 \<rightharpoonup> u32) \<Rightarrow> bool" where
  "base_ok K s S D par \<longleftrightarrow> s \<in> K \<and> D s = 0 \<and> (\<forall>v. par v \<noteq> None \<longrightarrow> v \<in> K \<and> v \<noteq> s) \<and>
     distinct S \<and> set S \<subseteq> K \<and> (\<forall>x \<in> set S. D x \<noteq> FAR)"

definition queue_ok :: "u32 set \<Rightarrow> u32 list \<Rightarrow> (u32 \<Rightarrow> nat) \<Rightarrow> (nat \<times> u32) set \<Rightarrow> bool" where
  "queue_ok K S D H \<longleftrightarrow> (\<forall>d v. (d, v) \<in> H \<longrightarrow>
     v \<in> K \<and> D v \<noteq> FAR \<and> D v \<le> d \<and> (v \<in> set S \<longrightarrow> D v < d) \<and> (\<forall>x \<in> set S. D x \<le> d))"

definition front_ok :: "u32 set \<Rightarrow> u32 list \<Rightarrow> (u32 \<Rightarrow> nat) \<Rightarrow> (nat \<times> u32) set \<Rightarrow> bool" where
  "front_ok K S D H \<longleftrightarrow> (\<forall>v. v \<in> K \<longrightarrow> v \<notin> set S \<longrightarrow> D v \<noteq> FAR \<longrightarrow> (D v, v) \<in> H)"

definition edges_ok ::
    "costs \<Rightarrow> u32 set \<Rightarrow> u32 list \<Rightarrow> u32 \<Rightarrow> (u32 \<times> u32) list \<Rightarrow> (u32 \<Rightarrow> nat) \<Rightarrow> bool" where
  "edges_ok E K S u es D \<longleftrightarrow> (\<forall>x v c. x \<in> set S \<longrightarrow> (v, c) \<in> set (E x) \<longrightarrow> v \<in> K \<longrightarrow>
     x = u \<and> (v, c) \<in> set es \<or> D v \<le> D x + unat c)"

definition tree_ok ::
    "costs \<Rightarrow> u32 set \<Rightarrow> u32 \<Rightarrow> nat \<Rightarrow> u32 list \<Rightarrow> (u32 \<Rightarrow> nat) \<Rightarrow> (u32 \<rightharpoonup> u32) \<Rightarrow> bool" where
  "tree_ok E K s C S D par \<longleftrightarrow> (\<forall>v. v \<in> K \<longrightarrow> D v \<noteq> FAR \<longrightarrow>
     D v \<le> length S * C \<and> (v = s \<or> parented E S D par v))"

definition active_ok ::
    "costs \<Rightarrow> nat \<Rightarrow> u32 list \<Rightarrow> u32 \<Rightarrow> (u32 \<times> u32) list \<Rightarrow> (u32 \<Rightarrow> nat) \<Rightarrow> bool" where
  "active_ok E C S u es D \<longleftrightarrow> (es \<noteq> [] \<longrightarrow>
     u \<in> set S \<and> (\<forall>x \<in> set S. D x \<le> D u) \<and> D u + C \<le> length S * C \<and> set es \<subseteq> set (E u))"

definition settling ::
    "costs \<Rightarrow> u32 set \<Rightarrow> u32 \<Rightarrow> nat \<Rightarrow> u32 list \<Rightarrow> u32 \<Rightarrow> (u32 \<times> u32) list \<Rightarrow>
      (u32 \<Rightarrow> nat) \<Rightarrow> (nat \<times> u32) set \<Rightarrow> (u32 \<rightharpoonup> u32) \<Rightarrow> bool" where
  "settling E K s C S u es D H par \<longleftrightarrow>
     base_ok K s S D par \<and> queue_ok K S D H \<and> front_ok K S D H \<and> edges_ok E K S u es D \<and>
     tree_ok E K s C S D par \<and> active_ok E C S u es D"

lemma settling_init:
  assumes "s \<in> K"
  shows "settling E K s C [] s [] (\<lambda>v. if v = s then 0 else FAR) {(0, s)} Map.empty"
  using assms by (auto simp: settling_def base_ok_def queue_ok_def front_ok_def edges_ok_def
      tree_ok_def active_ok_def)

lemma settling_keep:
  assumes "settling E K s C S u ((v, c) # es) D H par" and "v \<notin> K \<or> D v \<le> D u + unat c"
  shows "settling E K s C S u es D H par"
proof -
  have "edges_ok E K S u es D"
    using assms unfolding settling_def edges_ok_def by (metis prod.inject set_ConsD)
  then show ?thesis using assms by (simp add: settling_def active_ok_def)
qed

lemma settling_improve:
  assumes inv: "settling E K s C S u ((v, c) # es) D H par"
    and less: "D u + unat c < D v" and v: "v \<in> K" and c: "unat c \<le> C"
    and le: "D v \<le> FAR"
  shows "settling E K s C S u es (D(v := D u + unat c)) (insert (D u + unat c, v) H) (par(v \<mapsto> u))"
proof -
  have u: "u \<in> set S" "\<forall>x \<in> set S. D x \<le> D u" "D u + C \<le> length S * C" "(v, c) \<in> set (E u)"
    "set es \<subseteq> set (E u)"
    using inv by (auto simp: settling_def active_ok_def)
  have vS: "v \<notin> set S" using u(2) less by force
  have Sv: "x \<noteq> v" if "x \<in> set S" for x using that vS by blast
  have vs: "v \<noteq> s" using inv less by (auto simp: settling_def base_ok_def)
  let ?d = "D u + unat c"
  have bound: "?d \<le> length S * C" using u(3) c by linarith
  have tree: "parented E S (D(v := ?d)) (par(v \<mapsto> u)) w" if "parented E S D par w" "w \<noteq> v" for w
  proof -
    from that(1) obtain p c' where p: "par w = Some p" "p \<in> set (takeWhile (\<lambda>x. x \<noteq> w) S)"
      "(w, c') \<in> set (E p)" "D w = D p + unat c'" unfolding parented_def by blast
    have "p \<in> set S" using p(2) by (rule set_takeWhileD [THEN conjunct1])
    then have "p \<noteq> v" by (rule Sv)
    with p that(2) show ?thesis unfolding parented_def
      by (intro exI [of _ p] exI [of _ c']) simp
  qed
  have all: "takeWhile (\<lambda>x. x \<noteq> v) S = S" using vS by (auto simp: takeWhile_eq_all_conv)
  have new: "parented E S (D(v := ?d)) (par(v \<mapsto> u)) v"
    using u(1,4) Sv by (auto simp: parented_def all)
  have "base_ok K s S (D(v := ?d)) (par(v \<mapsto> u))"
    using inv v vs vS by (auto simp: settling_def base_ok_def)
  moreover have "queue_ok K S (D(v := ?d)) (insert (?d, v) H)"
    unfolding queue_ok_def
  proof (intro allI impI)
    fix d w assume w: "(d, w) \<in> insert (?d, v) H"
    have small: "\<forall>x \<in> set S. (D(v := ?d)) x \<le> ?d" using u(2) Sv by (auto intro: trans_le_add1)
    show "w \<in> K \<and> (D(v := ?d)) w \<noteq> FAR \<and> (D(v := ?d)) w \<le> d \<and> (w \<in> set S \<longrightarrow> (D(v := ?d)) w < d) \<and>
        (\<forall>x\<in>set S. (D(v := ?d)) x \<le> d)"
    proof (cases "(d, w) = (?d, v)")
      case True
      with v vS small less le show ?thesis by simp
    next
      case False
      with w have "w \<in> K \<and> D w \<noteq> FAR \<and> D w \<le> d \<and> (w \<in> set S \<longrightarrow> D w < d) \<and> (\<forall>x\<in>set S. D x \<le> d)"
        using inv by (auto simp: settling_def queue_ok_def)
      with less le Sv vS show ?thesis by auto
    qed
  qed
  moreover have "front_ok K S (D(v := ?d)) (insert (?d, v) H)"
    using inv by (auto simp: settling_def front_ok_def)
  moreover have "edges_ok E K S u es (D(v := ?d))"
    unfolding edges_ok_def
  proof (intro allI impI)
    fix x w c' assume *: "x \<in> set S" "(w, c') \<in> set (E x)" "w \<in> K"
    then have "x = u \<and> (w, c') \<in> set ((v, c) # es) \<or> D w \<le> D x + unat c'"
      using inv unfolding settling_def edges_ok_def by blast
    with less Sv [OF *(1)] show "x = u \<and> (w, c') \<in> set es \<or>
        (D(v := ?d)) w \<le> (D(v := ?d)) x + unat c'"
      by auto
  qed
  moreover have "tree_ok E K s C S (D(v := ?d)) (par(v \<mapsto> u))"
    unfolding tree_ok_def
  proof (intro allI impI)
    fix w assume w: "w \<in> K" "(D(v := ?d)) w \<noteq> FAR"
    have old: "w \<in> K \<longrightarrow> D w \<noteq> FAR \<longrightarrow> D w \<le> length S * C \<and> (w = s \<or> parented E S D par w)"
      using inv by (simp add: settling_def tree_ok_def)
    show "(D(v := ?d)) w \<le> length S * C \<and>
        (w = s \<or> parented E S (D(v := ?d)) (par(v \<mapsto> u)) w)"
    proof (cases "w = v")
      case True
      with new bound show ?thesis by simp
    next
      case False
      with old w tree [of w] show ?thesis by auto
    qed
  qed
  moreover have "active_ok E C S u es (D(v := ?d))"
    using u Sv by (auto simp: active_ok_def)
  ultimately show ?thesis by (simp add: settling_def)
qed

lemma settling_stale:
  assumes "settling E K s C S w [] D H par" and "D u < d"
  shows "settling E K s C S w [] D (H - {(d, u)}) par"
  using assms by (auto simp: settling_def queue_ok_def front_ok_def)

lemma settling_settle:
  assumes inv: "settling E K s C S w [] D H par" and top: "(D u, u) \<in> H"
    and least: "\<forall>d v. (d, v) \<in> H \<longrightarrow> D u \<le> d"
  shows "settling E K s C (S @ [u]) u (E u) D (H - {(D u, u)}) par"
proof -
  have uK: "u \<in> K" and far: "D u \<noteq> FAR" and uS: "u \<notin> set S" and below: "\<forall>x \<in> set S. D x \<le> D u"
    using inv top by (auto simp: settling_def queue_ok_def)
  have longer: "parented E (S @ [u]) D par v" if p: "parented E S D par v" for v
  proof -
    have "set (takeWhile (\<lambda>x. x \<noteq> v) S) \<subseteq> set (takeWhile (\<lambda>x. x \<noteq> v) (S @ [u]))"
      by (induction S) auto
    with p show ?thesis unfolding parented_def by blast
  qed
  have bound: "D u \<le> length S * C" using inv uK far by (simp add: settling_def tree_ok_def)
  have "base_ok K s (S @ [u]) D par"
    using inv uK uS far by (auto simp: settling_def base_ok_def)
  moreover have "queue_ok K (S @ [u]) D (H - {(D u, u)})"
    using inv least unfolding settling_def queue_ok_def
    by (auto simp: order.strict_iff_order)
  moreover have "front_ok K (S @ [u]) D (H - {(D u, u)})"
    using inv by (auto simp: settling_def front_ok_def)
  moreover have "edges_ok E K (S @ [u]) u (E u) D"
    using inv by (auto simp: settling_def edges_ok_def)
  moreover have "tree_ok E K s C (S @ [u]) D par"
    using inv longer by (auto simp: settling_def tree_ok_def)
  moreover have "active_ok E C (S @ [u]) u (E u) D"
    using below bound by (auto simp: active_ok_def)
  ultimately show ?thesis by (simp add: settling_def)
qed

section \<open>What the settled tree says\<close>

text \<open>The position of a node in the settling order; a parent comes before its child.\<close>

definition position :: "u32 list \<Rightarrow> u32 \<Rightarrow> nat" where
  "position S v = length (takeWhile (\<lambda>x. x \<noteq> v) S)"

lemma position_less: "p \<in> set (takeWhile (\<lambda>x. x \<noteq> v) S) \<Longrightarrow> position S p < position S v"
  unfolding position_def by (induction S) (auto split: if_splits)

text \<open>Induction along the parents: it starts at the nodes whose parent is the source.\<close>

lemma tree_induct [consumes 3, case_names source child]:
  assumes inv: "settling E K s C S u es D H par" and v: "v \<in> K" and far: "D v \<noteq> FAR"
    and source: "P s"
    and child: "\<And>v p c. v \<in> K \<Longrightarrow> par v = Some p \<Longrightarrow> p \<in> K \<Longrightarrow> (v, c) \<in> set (E p) \<Longrightarrow>
      D v = D p + unat c \<Longrightarrow> D p \<noteq> FAR \<Longrightarrow> P p \<Longrightarrow> P v"
  shows "P v"
  using v far
proof (induction "position S v" arbitrary: v rule: less_induct)
  case less
  then consider "v = s" | "parented E S D par v" using inv by (auto simp: settling_def tree_ok_def)
  then show ?case
  proof cases
    case 1
    then show ?thesis using source by simp
  next
    case 2
    then obtain p c where p: "par v = Some p" "p \<in> set (takeWhile (\<lambda>x. x \<noteq> v) S)"
      "(v, c) \<in> set (E p)" "D v = D p + unat c" unfolding parented_def by blast
    have "p \<in> set S" using p(2) by (rule set_takeWhileD [THEN conjunct1])
    then have "p \<in> K" "D p \<noteq> FAR" using inv by (auto simp: settling_def base_ok_def)
    then show ?thesis
      using child [OF less.prems(1) p(1) _ p(3,4)] less.hyps [OF position_less [OF p(2)]] by blast
  qed
qed

lemma tree_path:
  assumes "settling E K s C S u es D H par" and "v \<in> K" and "D v \<noteq> FAR"
  shows "path E s (D v) v"
  using assms
proof (induction rule: tree_induct)
  case source
  then show ?case using assms(1) path.start by (simp add: settling_def base_ok_def)
next
  case (child v p c)
  then show ?case using path.edge [of E s "D p" p v c] by simp
qed

text \<open>The first hop of a node other than the source: a neighbour of the source, on a path whose cost
  is the node's distance.\<close>

lemma tree_first_hop:
  assumes inv: "settling E K s C S u es D H par" and "v \<in> K" and "D v \<noteq> FAR"
  shows "v \<noteq> s \<longrightarrow> (\<exists>h c n. first_hop s par v = Some h \<and> (h, c) \<in> set (E s) \<and> path E h n v \<and>
    D v = unat c + n)"
  using assms
proof (induction rule: tree_induct)
  case source
  then show ?case by simp
next
  case (child v p c)
  show ?case
  proof (cases "p = s")
    case True
    have "D s = 0" using inv by (simp add: settling_def base_ok_def)
    moreover have "first_hop s par v = Some v" using child True by (simp add: first_hop.simps)
    ultimately show ?thesis
      using child True path.start [of E v] by (intro impI exI [of _ v] exI [of _ c] exI [of _ 0]) simp
  next
    case False
    with child.IH obtain h c' n where "first_hop s par p = Some h" "(h, c') \<in> set (E s)"
      "path E h n p" "D p = unat c' + n" by blast
    moreover have "first_hop s par v = first_hop s par p"
      using child False by (subst first_hop.simps) simp
    ultimately show ?thesis
      using child path.edge [of E h n p v c]
      by (intro impI exI [of _ h] exI [of _ c'] exI [of _ "n + unat c"]) simp
  qed
qed

lemma settled_least:
  assumes inv: "settling E K s C S u [] D {} par" and le: "\<forall>v. D v \<le> FAR"
    and closed: "\<forall>v. v \<notin> K \<longrightarrow> E v = []" and "path E s n v" and "v \<in> K"
  shows "D v \<le> n"
  using assms(4,5)
proof induction
  case start
  then show ?case using inv by (simp add: settling_def base_ok_def)
next
  case (edge n v w c)
  then have v: "v \<in> K" using closed by auto
  show ?case
  proof (cases "D v = FAR")
    case True
    have "D v \<le> n" by (rule edge.IH [OF v])
    moreover have "D w \<le> FAR" using le by simp
    ultimately show ?thesis using True by linarith
  next
    case False
    then have "v \<in> set S" using inv v by (auto simp: settling_def front_ok_def)
    then have "D w \<le> D v + unat c"
      using inv edge.hyps(2) edge.prems by (auto simp: settling_def edges_ok_def)
    then show ?thesis using edge.IH [OF v] by linarith
  qed
qed

lemma settled_shortest:
  assumes inv: "settling E K s C S u [] D {} par" and le: "\<forall>v. D v \<le> FAR"
    and closed: "\<forall>v. v \<notin> K \<longrightarrow> E v = []" and v: "v \<in> K"
  shows "D v \<noteq> FAR \<longrightarrow> shortest E s (D v) v" and "path E s n v \<Longrightarrow> n < FAR \<Longrightarrow> D v \<noteq> FAR"
proof -
  show "D v \<noteq> FAR \<longrightarrow> shortest E s (D v) v"
    using tree_path [OF inv v] settled_least [OF inv le closed _ v] by (simp add: shortest_def)
  show "D v \<noteq> FAR" if "path E s n v" "n < FAR"
    using settled_least [OF inv le closed that(1) v] that(2) by linarith
qed

section \<open>The search of the code\<close>

text \<open>The adjacency of a topology, and the costs that the breakers of the source's links make of its
  own edges, each read from the clock in the order of the list.\<close>

definition adjacent :: "topology \<Rightarrow> costs" where
  "adjacent G u = (case map_of G u of None \<Rightarrow> [] | Some es \<Rightarrow> es)"

fun link_costs ::
    "(u32 \<times> u32) list \<Rightarrow> (u32 \<rightharpoonup> circuit_breaker) \<Rightarrow> clock
      \<Rightarrow> (u32 \<times> u32) list \<times> (u32 \<rightharpoonup> circuit_breaker) \<times> clock" where
  "link_costs [] brk clk = ([], brk, clk)"
| "link_costs ((v, c) # es) brk clk =
     (let (c', brk, clk) = link_cost 0 0 v c brk clk; (es', brk, clk) = link_costs es brk clk
      in ((v, c') # es', brk, clk))"

definition inflated :: "topology \<Rightarrow> u32 \<Rightarrow> (u32 \<rightharpoonup> circuit_breaker) \<Rightarrow> clock \<Rightarrow> costs" where
  "inflated G source brk clk u =
     (if u = source then fst (link_costs (adjacent G source) brk clk) else adjacent G u)"

abbreviation relax_all :: "u32 \<Rightarrow> u32 \<Rightarrow> (u32 \<times> u32) list \<Rightarrow> search \<Rightarrow> search" where
  "relax_all u d es st \<equiv> fold (\<lambda>(v, c). relax_to u v (d + c)) es st"

lemma link_cost_source: "link_cost s s v c = link_cost 0 0 v c"
  by (intro ext) (simp add: link_cost_def)

lemma relax_to_links [simp]:
  "relax_to u v nd (st\<lparr>links := brk, search_clock := clk\<rparr>) =
     (relax_to u v nd st)\<lparr>links := brk, search_clock := clk\<rparr>"
  by (simp add: relax_to_def split: prod.split)

lemma links_relax_to [simp]:
  "links (relax_to u v nd st) = links st" "search_clock (relax_to u v nd st) = search_clock st"
  by (simp_all add: relax_to_def split: prod.split)

lemma links_relax_all [simp]:
  "links (relax_all u d es st) = links st" "search_clock (relax_all u d es st) = search_clock st"
  by (induction es arbitrary: st) auto

lemma relax_all_links:
  "relax_all u d es (st\<lparr>links := brk, search_clock := clk\<rparr>) =
     (relax_all u d es st)\<lparr>links := brk, search_clock := clk\<rparr>"
  by (induction es arbitrary: st) auto

lemma links_id [simp]: "st\<lparr>links := links st, search_clock := search_clock st\<rparr> = st"
  by simp

lemma relax_edge_other:
  assumes "u \<noteq> source"
  shows "relax_edge source u d (v, c) st = relax_to u v (d + c) st"
  using assms by (simp add: relax_edge_def link_cost_def del: relax_to_links)

lemma relax_edges_other:
  assumes "u \<noteq> source"
  shows "relax_edges source u d es st = relax_all u d es st"
  using assms by (induction es arbitrary: st) (auto simp: relax_edge_other)

lemma relax_edges_source:
  "relax_edges source source d es st =
     (let (es', brk, clk) = link_costs es (links st) (search_clock st)
      in (relax_all source d es' st)\<lparr>links := brk, search_clock := clk\<rparr>)"
proof (induction es arbitrary: st)
  case (Cons e es)
  obtain v c where e: "e = (v, c)" by fastforce
  obtain c' brk clk where 1: "link_cost 0 0 v c (links st) (search_clock st) = (c', brk, clk)"
    by (metis prod_cases3)
  obtain es' brk' clk' where 2: "link_costs es brk clk = (es', brk', clk')"
    by (metis prod_cases3)
  have "relax_edge source source d e st =
      (relax_to source v (d + c') st)\<lparr>links := brk, search_clock := clk\<rparr>"
    by (simp add: relax_edge_def e link_cost_source [of source] 1)
  moreover have "relax_edges source source d es (st'\<lparr>links := brk, search_clock := clk\<rparr>) =
      (relax_all source d es' st')\<lparr>links := brk', search_clock := clk'\<rparr>" for st'
  proof -
    let ?st = "st'\<lparr>links := brk, search_clock := clk\<rparr>"
    have "links ?st = brk" "search_clock ?st = clk" by simp_all
    then have "relax_edges source source d es ?st =
        (relax_all source d es' ?st)\<lparr>links := brk', search_clock := clk'\<rparr>"
      by (simp only: Cons.IH 2 Let_def prod.case)
    then show ?thesis by (simp only: relax_all_links) simp
  qed
  ultimately show ?case by (simp add: e 1 2)
qed simp

text \<open>The distances that the code reads, and the simulation.\<close>

definition node_dist :: "search \<Rightarrow> u32 \<Rightarrow> nat" where
  "node_dist st v = unat (fst (subscript (distances st) v))"

definition queued :: "search \<Rightarrow> (nat \<times> u32) set" where
  "queued st = (\<lambda>(d, v). (unat d, v)) ` set (min_heap st)"

definition nodes :: "topology \<Rightarrow> u32 set" where
  "nodes G = fst ` set G"

definition searching ::
    "topology \<Rightarrow> costs \<Rightarrow> u32 \<Rightarrow> nat \<Rightarrow> u32 list \<Rightarrow> u32 \<Rightarrow> (u32 \<times> u32) list \<Rightarrow> search \<Rightarrow> bool" where
  "searching G E s C S u es st \<longleftrightarrow>
     nodes G \<subseteq> dom (map_of (distances st)) \<and> distinct (map fst (distances st)) \<and>
     (\<forall>v. v \<notin> nodes G \<longrightarrow> node_dist st v = 0) \<and>
     sorted (min_heap st) \<and> heap.unique (min_heap st) \<and>
     settling E (nodes G) s C S u es (node_dist st) (queued st) (parent st)"

lemma unat_le_FAR: "unat w \<le> FAR" for w :: u32
  using unsigned_less [of w, where ?'a = nat] by simp

lemma node_dist_le: "node_dist st v \<le> FAR"
  unfolding node_dist_def by (rule unat_le_FAR)

lemma queued_iff: "(unat d, v) \<in> queued st \<longleftrightarrow> (d, v) \<in> set (min_heap st)"
  by (auto simp: queued_def word_unat_eq_iff [symmetric] image_iff split: prod.split)

lemma distinct_subscript:
  "distinct (map fst ds) \<Longrightarrow> distinct (map fst (snd (subscript ds v)))"
  by (simp add: subscript_def distinct_update split: option.split)

lemma dom_subscript: "dom (map_of ds) \<subseteq> dom (map_of (snd (subscript ds v)))"
  by (auto simp: subscript_def update_conv split: option.split)

lemma subscript_subscript [simp]: "fst (subscript (snd (subscript ds v)) w) = fst (subscript ds w)"
  by (auto simp: subscript_def update_conv split: option.split)

lemma subscript_update [simp]:
  "fst (subscript (AList.update v d ds) w) = (if w = v then d else fst (subscript ds w))"
  by (auto simp: subscript_def update_conv split: option.split)

lemma node_dist_relax_to:
  "node_dist (relax_to u v nd st) = (if unat nd < node_dist st v then (node_dist st)(v := unat nd) else node_dist st)"
proof -
  obtain dv ds where s: "subscript (distances st) v = (dv, ds)" by fastforce
  then have ds: "ds = snd (subscript (distances st) v)" and dv: "node_dist st v = unat dv"
    by (simp_all add: node_dist_def)
  show ?thesis
  proof (cases "nd < dv")
    case True
    then have "node_dist (relax_to u v nd st) = (node_dist st)(v := unat nd)"
      by (simp add: fun_eq_iff relax_to_def node_dist_def s) (simp add: ds)
    with True show ?thesis by (simp add: dv word_less_nat_alt)
  next
    case False
    then have "node_dist (relax_to u v nd st) = node_dist st"
      by (simp add: fun_eq_iff relax_to_def node_dist_def s) (simp add: ds)
    with False show ?thesis by (simp add: dv word_less_nat_alt)
  qed
qed

lemma settled_bound:
  assumes "settling E (nodes G) s C S u es D H par"
  shows "length S * C \<le> length G * C"
proof -
  have "length S = card (set S)" using assms by (simp add: settling_def base_ok_def distinct_card)
  also have "\<dots> \<le> card (nodes G)"
    using assms by (intro card_mono) (auto simp: settling_def base_ok_def nodes_def)
  also have "\<dots> \<le> length G" unfolding nodes_def by (metis card_length length_map list.set_map)
  finally show ?thesis by simp
qed

lemma searching_relax:
  assumes inv: "searching G E s C S u ((v, c) # es) st" and d: "node_dist st u = unat d"
    and small: "length G * C < FAR" and c: "unat c \<le> C"
  shows "searching G E s C S u es (relax_to u v (d + c) st) \<and>
    node_dist (relax_to u v (d + c) st) u = unat d"
proof -
  have set: "settling E (nodes G) s C S u ((v, c) # es) (node_dist st) (queued st) (parent st)"
    using inv by (simp add: searching_def)
  then have "unat d + C \<le> length S * C" using d by (simp add: settling_def active_ok_def)
  then have "unat d + unat c < 4294967296" using settled_bound [OF set] small c by linarith
  then have sum: "unat (d + c) = node_dist st u + unat c"
    using d by (simp add: unat_plus_if_size word_size)
  obtain dv ds where s: "subscript (distances st) v = (dv, ds)" by fastforce
  then have ds: "ds = snd (subscript (distances st) v)" and dv: "unat dv = node_dist st v"
    by (simp_all add: node_dist_def)
  have dom: "nodes G \<subseteq> dom (map_of ds)" "distinct (map fst ds)"
    using inv dom_subscript [of "distances st" v] distinct_subscript [of "distances st" v]
    unfolding searching_def ds by blast+
  show ?thesis
  proof (cases "d + c < dv")
    case False
    then have eq: "relax_to u v (d + c) st = st\<lparr>distances := ds\<rparr>" by (simp add: relax_to_def s)
    have "node_dist (st\<lparr>distances := ds\<rparr>) = node_dist st" by (simp add: fun_eq_iff node_dist_def ds)
    moreover have "settling E (nodes G) s C S u es (node_dist st) (queued st) (parent st)"
      using settling_keep [OF set] False sum dv by (simp add: word_less_nat_alt)
    ultimately show ?thesis
      using inv dom d by (simp add: eq searching_def queued_def)
  next
    case True
    let ?st = "relax_to u v (d + c) st"
    have less: "node_dist st u + unat c < node_dist st v" using True sum dv by (simp add: word_less_nat_alt)
    then have v: "v \<in> nodes G" using inv by (auto simp: searching_def)
    have eq: "?st = st\<lparr>distances := AList.update v (d + c) ds, parent := (parent st)(v \<mapsto> u),
        min_heap := heap_push (d + c, v) (min_heap st)\<rparr>" using True by (simp add: relax_to_def s)
    have node_dist': "node_dist ?st = (node_dist st)(v := node_dist st u + unat c)"
      using less sum by (simp add: node_dist_relax_to)
    have "node_dist st v \<le> d'" if "(d', v) \<in> queued st" for d'
      using set that by (simp add: settling_def queue_ok_def)
    then have "(node_dist st u + unat c, v) \<notin> queued st" using less by force
    then have fresh: "(d + c, v) \<notin> set (min_heap st)" using queued_iff [of "d + c" v] sum by simp
    have ok: "sorted (min_heap st)" "heap.unique (min_heap st)" using inv by (simp_all add: searching_def)
    have queued': "queued ?st = insert (node_dist st u + unat c, v) (queued st)"
      using heap.elems_push [OF ok(1), of "(d + c, v)"] sum by (simp add: eq queued_def)
    have heap': "sorted (min_heap ?st)" "heap.unique (min_heap ?st)"
      using heap.push_law [OF ok(1)] heap.unique_push [OF ok] fresh by (simp_all add: eq)
    have "settling E (nodes G) s C S u es (node_dist ?st) (queued ?st) (parent ?st)"
      using settling_improve [OF set less v c node_dist_le] unfolding node_dist' queued' by (simp add: eq)
    moreover have "u \<noteq> v" using less by auto
    moreover have "distances ?st = AList.update v (d + c) ds" by (simp add: eq)
    then have "nodes G \<subseteq> dom (map_of (distances ?st))" "distinct (map fst (distances ?st))"
      using dom by (auto simp only: update_conv' dom_fun_upd option.simps distinct_update if_False)
    moreover have "\<forall>w. w \<notin> nodes G \<longrightarrow> node_dist ?st w = 0"
      using inv v by (auto simp: node_dist' searching_def)
    ultimately show ?thesis
      using heap' d unfolding searching_def by (simp add: node_dist')
  qed
qed

lemma searching_relax_all:
  assumes "searching G E s C S u es st" and "node_dist st u = unat d"
    and "length G * C < FAR" and "\<forall>(v, c) \<in> set es. unat c \<le> C"
  shows "searching G E s C S u [] (relax_all u d es st)"
  using assms(1,2,4)
proof (induction es arbitrary: st)
  case (Cons e es)
  obtain v c where e: "e = (v, c)" by fastforce
  have "searching G E s C S u es (relax_to u v (d + c) st) \<and> node_dist (relax_to u v (d + c) st) u = unat d"
    using Cons.prems by (intro searching_relax [OF _ _ assms(3)]) (auto simp: e)
  then show ?case using Cons by (simp add: e)
qed simp

text \<open>One round of the loop: the popped pair is stale, or it settles its node.\<close>

definition costs_below :: "nat \<Rightarrow> costs \<Rightarrow> bool" where
  "costs_below C E \<longleftrightarrow> (\<forall>u. \<forall>(v, c) \<in> set (E u). unat c \<le> C)"

lemma subscript_known: "map_of ds v = Some d \<Longrightarrow> subscript ds v = (d, ds)"
  by (simp add: subscript_def)

lemma searching_pop:
  assumes inv: "searching G E s C S w [] st" and ne: "\<not> heap_empty (min_heap st)"
    and top: "heap_top (min_heap st) = (d, u)"
  defines "st' \<equiv> st\<lparr>min_heap := heap_pop (min_heap st)\<rparr>"
  shows "subscript (distances st) u = (of_nat (node_dist st u), distances st)" and "u \<in> nodes G"
    and "node_dist st u < unat d \<Longrightarrow> searching G E s C S w [] st'"
    and "\<not> node_dist st u < unat d \<Longrightarrow>
      u \<notin> set S \<and> node_dist st' u = unat d \<and> searching G E s C (S @ [u]) u (E u) st'"
proof -
  have set: "settling E (nodes G) s C S w [] (node_dist st) (queued st) (parent st)"
    and ok: "sorted (min_heap st)" "heap.unique (min_heap st)"
    using inv by (simp_all add: searching_def)
  have least: "(d, u) \<in> set (min_heap st)" "\<forall>y \<in> set (min_heap st). (d, u) \<le> y"
    using heap.top_least [OF ok(1) ne] top by simp_all
  then have q: "(unat d, u) \<in> queued st" by (simp add: queued_iff)
  then show u: "u \<in> nodes G" using set by (auto simp: settling_def queue_ok_def)
  then obtain du where du: "map_of (distances st) u = Some du" using inv by (auto simp: searching_def)
  then show "subscript (distances st) u = (of_nat (node_dist st u), distances st)"
    by (simp add: subscript_known node_dist_def)
  have le: "node_dist st u \<le> unat d" using set q by (simp add: settling_def queue_ok_def)
  have node_dist': "node_dist st' = node_dist st" by (simp add: fun_eq_iff node_dist_def st'_def)
  have popped: "set (heap_pop (min_heap st)) = set (min_heap st) - {(d, u)}"
    using heap.elems_pop [OF ok(1) ne ok(2)] top by simp
  have queued': "queued st' = queued st - {(unat d, u)}"
    unfolding queued_def st'_def by (auto simp: popped word_unat_eq_iff [symmetric])
  have heap': "sorted (min_heap st')" "heap.unique (min_heap st')"
    using heap.pop_law [OF ok(1) ne] heap.unique_pop [OF ok(1) ne ok(2)] by (simp_all add: st'_def)
  have rest: "parent st' = parent st" "distances st' = distances st" by (simp_all add: st'_def)
  have sim: "searching G E s C S2 v es st'"
    if "settling E (nodes G) s C S2 v es (node_dist st) (queued st - {(unat d, u)}) (parent st)" for S2 v es
    using that inv heap' by (simp add: searching_def node_dist' queued' rest)
  show "searching G E s C S w [] st'" if "node_dist st u < unat d"
    using settling_stale [OF set that] by (rule sim)
  assume "\<not> node_dist st u < unat d"
  then have eq: "node_dist st u = unat d" using le by simp
  have "\<forall>d' v. (d', v) \<in> queued st \<longrightarrow> node_dist st u \<le> d'"
    using least(2) by (force simp: queued_def eq word_le_nat_alt [symmetric])
  then have "settling E (nodes G) s C (S @ [u]) u (E u) (node_dist st) (queued st - {(unat d, u)}) (parent st)"
    using settling_settle [OF set, of u] q by (simp add: eq)
  moreover have "u \<in> set S \<longrightarrow> node_dist st u < unat d"
    using set q unfolding settling_def queue_ok_def by blast
  then have "u \<notin> set S" using eq by simp
  ultimately show "u \<notin> set S \<and> node_dist st' u = unat d \<and> searching G E s C (S @ [u]) u (E u) st'"
    using sim by (simp add: node_dist' eq)
qed

lemma visit_stale:
  assumes "searching G E s C S w [] st" and "\<not> heap_empty (min_heap st)"
    and "heap_top (min_heap st) = (d, u)" and "node_dist st u < unat d"
  shows "visit G source st = st\<lparr>min_heap := heap_pop (min_heap st)\<rparr>"
proof -
  have "subscript (distances st) u = (of_nat (node_dist st u), distances st)"
    by (rule searching_pop [OF assms(1-3)])
  moreover have "(of_nat (node_dist st u) :: u32) < d"
    using assms(4) by (simp add: node_dist_def word_less_nat_alt)
  ultimately show ?thesis using assms(3) by (simp add: visit_def)
qed

lemma visit_fresh:
  assumes "searching G E s C S w [] st" and "\<not> heap_empty (min_heap st)"
    and "heap_top (min_heap st) = (d, u)" and "\<not> node_dist st u < unat d"
  shows "visit G source st =
    relax_edges source u d (adjacent G u) (st\<lparr>min_heap := heap_pop (min_heap st)\<rparr>)"
proof -
  have "subscript (distances st) u = (of_nat (node_dist st u), distances st)"
    by (rule searching_pop [OF assms(1-3)])
  moreover have "\<not> (of_nat (node_dist st u) :: u32) < d"
    using assms(4) by (simp add: node_dist_def word_less_nat_alt)
  ultimately show ?thesis
    using assms(3) by (simp add: visit_def adjacent_def split: option.split)
qed

text \<open>After the source has been settled the rounds do not consult the breakers.\<close>

lemma searching_visit:
  assumes inv: "searching G E s C S w [] st" and ne: "\<not> heap_empty (min_heap st)"
    and s: "s \<in> set S" and E: "\<forall>u. u \<noteq> s \<longrightarrow> E u = adjacent G u"
    and small: "length G * C < FAR" and C: "costs_below C E"
  shows "(\<exists>S' w'. s \<in> set S' \<and> searching G E s C S' w' [] (visit G s st)) \<and>
    links (visit G s st) = links st \<and> search_clock (visit G s st) = search_clock st"
proof -
  obtain d u where top: "heap_top (min_heap st) = (d, u)" by fastforce
  show ?thesis
  proof (cases "node_dist st u < unat d")
    case True
    then show ?thesis
      using searching_pop(3) [OF inv ne top] s unfolding visit_stale [OF inv ne top True] by auto
  next
    case False
    let ?st = "st\<lparr>min_heap := heap_pop (min_heap st)\<rparr>"
    have *: "u \<notin> set S" "node_dist ?st u = unat d" "searching G E s C (S @ [u]) u (E u) ?st"
      using searching_pop(4) [OF inv ne top False] by simp_all
    then have "u \<noteq> s" using s by blast
    then have "visit G s st = relax_all u d (E u) ?st"
      using E by (simp add: visit_fresh [OF inv ne top False] relax_edges_other)
    moreover have "searching G E s C (S @ [u]) u [] (relax_all u d (E u) ?st)"
      using C by (intro searching_relax_all [OF *(3,2) small]) (auto simp: costs_below_def)
    ultimately show ?thesis
      using s by (intro conjI exI [of _ "S @ [u]"] exI [of _ u]) simp_all
  qed
qed

lemma searching_loop:
  assumes "searching G E s C S w [] st" and "s \<in> set S" and "\<forall>u. u \<noteq> s \<longrightarrow> E u = adjacent G u"
    and "length G * C < FAR" and "costs_below C E"
  shows "(\<exists>S' w'. searching G E s C S' w' [] (search_loop G s st)) \<and>
    min_heap (search_loop G s st) = [] \<and>
    links (search_loop G s st) = links st \<and> search_clock (search_loop G s st) = search_clock st"
  using assms
proof (induction G s st arbitrary: S w rule: search_loop.induct)
  case (1 G s st)
  show ?case
  proof (cases "heap_empty (min_heap st)")
    case True
    then show ?thesis using 1 by (subst (1 2 3 4) search_loop.simps) (auto simp: heap_empty_def)
  next
    case False
    then have loop: "search_loop G s st = search_loop G s (visit G s st)"
      by (subst search_loop.simps) simp
    obtain S' w' where "s \<in> set S'" "searching G E s C S' w' [] (visit G s st)"
      and links: "links (visit G s st) = links st" "search_clock (visit G s st) = search_clock st"
      using searching_visit [OF 1(2) False 1(3-6)] by blast
    then show ?thesis
      using 1(1) [OF False _ _ 1(4-6)] unfolding loop by metis
  qed
qed

text \<open>The loop from its initial state.\<close>

lemma map_of_init: "map_of (map (\<lambda>(v, _). (v, x)) G) v = (if v \<in> nodes G then Some x else None)"
  by (induction G) (auto simp: nodes_def)

lemma searching_init:
  assumes s: "s \<in> nodes G" and G: "distinct (map fst G)"
  shows "searching G E s C [] s [] (search_init G s brk clk)"
proof -
  let ?st = "search_init G s brk clk"
  have ds: "map_of (distances ?st) = (\<lambda>v. if v \<in> nodes G then Some 4294967295 else None)(s \<mapsto> 0)"
    by (auto simp: search_init_def update_conv' map_of_init fun_eq_iff)
  have node_dist: "node_dist ?st v = (if v = s then 0 else if v \<in> nodes G then FAR else 0)" for v
    by (simp add: node_dist_def subscript_def ds)
  have "distinct (map fst (distances ?st))"
    using G by (auto intro!: distinct_update simp: search_init_def comp_def case_prod_beta)
  moreover have "nodes G \<subseteq> dom (map_of (distances ?st))" by (auto simp: ds)
  moreover have "queued ?st = {(0, s)}" by (simp add: queued_def search_init_def heap_push_def)
  moreover have "sorted (min_heap ?st)" "heap.unique (min_heap ?st)"
    by (simp_all add: search_init_def heap_push_def heap.unique_def)
  moreover have "settling E (nodes G) s C [] s [] (node_dist ?st) {(0, s)} (parent ?st)"
  proof -
    have "parent ?st = Map.empty" by (simp add: search_init_def)
    then show ?thesis
      using s by (auto simp: settling_def base_ok_def queue_ok_def front_ok_def edges_ok_def
          tree_ok_def active_ok_def node_dist)
  qed
  ultimately show ?thesis by (auto simp: searching_def node_dist s)
qed

lemma searching_links:
  "searching G E s C S u es (st\<lparr>links := brk, search_clock := clk\<rparr>) = searching G E s C S u es st"
proof -
  have "node_dist (st\<lparr>links := brk, search_clock := clk\<rparr>) = node_dist st"
    "queued (st\<lparr>links := brk, search_clock := clk\<rparr>) = queued st"
    by (simp_all add: fun_eq_iff node_dist_def queued_def)
  then show ?thesis by (simp add: searching_def)
qed

lemma search_result:
  assumes s: "s \<in> nodes G" and G: "distinct (map fst G)"
    and E: "E = inflated G s brk clk"
    and small: "length G * C < FAR" and C: "costs_below C E"
  defines "st \<equiv> search_loop G s (search_init G s brk clk)"
  shows "\<exists>S w. searching G E s C S w [] st \<and> min_heap st = []"
    and "(links st, search_clock st) = snd (link_costs (adjacent G s) brk clk)"
proof -
  let ?st0 = "search_init G s brk clk"
  have inv: "searching G E s C [] s [] ?st0" by (rule searching_init [OF s G])
  have ne: "\<not> heap_empty (min_heap ?st0)" and top: "heap_top (min_heap ?st0) = (0, s)"
    by (simp_all add: search_init_def heap_push_def heap_empty_def heap_top_def)
  have fresh: "\<not> node_dist ?st0 s < unat (0 :: u32)" by simp
  let ?st1 = "?st0\<lparr>min_heap := heap_pop (min_heap ?st0)\<rparr>"
  have *: "node_dist ?st1 s = unat (0 :: u32)" "searching G E s C ([] @ [s]) s (E s) ?st1"
    using searching_pop(4) [OF inv ne top fresh] by simp_all
  obtain es brk' clk' where lc: "link_costs (adjacent G s) brk clk = (es, brk', clk')"
    by (metis prod_cases3)
  then have Es: "E s = es" by (simp add: E inflated_def)
  let ?st2 = "relax_all s 0 es ?st1"
  have init: "links ?st1 = brk" "search_clock ?st1 = clk" by (simp_all add: search_init_def)
  have visit: "visit G s ?st0 = ?st2\<lparr>links := brk', search_clock := clk'\<rparr>"
    by (simp only: visit_fresh [OF inv ne top fresh] relax_edges_source init lc Let_def prod.case)
  have "searching G E s C ([] @ [s]) s [] ?st2"
    using searching_relax_all [OF *(2,1) small] C unfolding costs_below_def Es [symmetric] by blast
  then have "searching G E s C [s] s [] (?st2\<lparr>links := brk', search_clock := clk'\<rparr>)"
    by (simp add: searching_links)
  moreover have "s \<in> set [s]" by simp
  moreover have "\<forall>u. u \<noteq> s \<longrightarrow> E u = adjacent G u" by (simp add: E inflated_def)
  ultimately have loop: "(\<exists>S' w'. searching G E s C S' w' [] (search_loop G s (visit G s ?st0))) \<and>
      min_heap (search_loop G s (visit G s ?st0)) = [] \<and>
      links (search_loop G s (visit G s ?st0)) = brk' \<and>
      search_clock (search_loop G s (visit G s ?st0)) = clk'"
    using searching_loop [of G E s C "[s]" s "visit G s ?st0"] small C by (simp add: visit)
  have "st = search_loop G s (visit G s ?st0)"
    using ne unfolding st_def by (subst search_loop.simps) simp
  then show "\<exists>S w. searching G E s C S w [] st \<and> min_heap st = []"
    and "(links st, search_clock st) = snd (link_costs (adjacent G s) brk clk)"
    using loop by (auto simp: lc)
qed

end
