(* ===== verification/Router.thy ===== *)
theory Router
  imports Node ShortestPaths
begin

text \<open>
  Routers: \<^verbatim>\<open>include/network/router.hpp\<close> and \<^verbatim>\<open>src/network/router.cpp\<close>. A router is a node with a routing
  table and one circuit breaker per link it has reported on. The facts: \<open>compute_routes\<close> builds the table of the
  shortest paths in the topology whose links of the router cost 999999 while their breaker is open,
  whatever the iteration order of its hash maps; an open link is never a next hop; \<open>lookup_route\<close> is
  longest-prefix match; and two inputs outside the hypotheses, on which the code installs a
  route of metric 0 to an unreachable address or does not return.
\<close>

section \<open>Definitions\<close>

record routing_table_entry =
  destination_subnet :: ipv4_address
  entry_mask :: subnet_mask
  next_hop_id :: u32
  interface_name :: string
  metric :: u32

record router =
  router_node :: node
  routing_table :: "routing_table_entry list"
  link_breakers :: "u32 \<rightharpoonup> circuit_breaker"

definition router_new :: "u32 \<Rightarrow> string \<Rightarrow> ipv4_address \<Rightarrow> subnet_mask \<Rightarrow> string \<Rightarrow> router" where
  "router_new i name ip m mac =
     \<lparr>router_node = node_new i name ip m mac, routing_table = [], link_breakers = Map.empty\<rparr>"

text \<open>\<open>link_breakers_[neighbor_id]\<close>: a default breaker is inserted for a new key.\<close>

definition breaker_at :: "router \<Rightarrow> u32 \<Rightarrow> clock \<Rightarrow> circuit_breaker \<times> clock" where
  "breaker_at rt n clk =
     (case link_breakers rt n of None \<Rightarrow> cb_default clk | Some cb \<Rightarrow> (cb, clk))"

definition record_link_success :: "router \<Rightarrow> u32 \<Rightarrow> clock \<Rightarrow> router \<times> clock" where
  "record_link_success rt n clk =
     (let (cb, clk) = breaker_at rt n clk; (_, cb, clk) = cb_record_success cb clk
      in (rt\<lparr>link_breakers := (link_breakers rt)(n \<mapsto> cb)\<rparr>, clk))"

definition record_link_failure :: "router \<Rightarrow> u32 \<Rightarrow> clock \<Rightarrow> router \<times> clock" where
  "record_link_failure rt n clk =
     (let (cb, clk) = breaker_at rt n clk; (_, cb, clk) = cb_record_failure cb clk
      in (rt\<lparr>link_breakers := (link_breakers rt)(n \<mapsto> cb)\<rparr>, clk))"

definition get_link_state :: "router \<Rightarrow> u32 \<Rightarrow> clock \<Rightarrow> circuit_state \<times> router \<times> clock" where
  "get_link_state rt n clk =
     (let (cb, clk) = breaker_at rt n clk; (s, cb, clk) = cb_get_state cb clk
      in (s, rt\<lparr>link_breakers := (link_breakers rt)(n \<mapsto> cb)\<rparr>, clk))"

text \<open>The last loop of \<open>compute_routes\<close>, over the distances in the order of their hash map; \<open>None\<close>:
  a walk along the parents does not end.\<close>

fun route_entries ::
    "u32 \<Rightarrow> (u32 \<rightharpoonup> u32) \<Rightarrow> (u32 \<rightharpoonup> ipv4_address) \<Rightarrow> (u32 \<rightharpoonup> subnet_mask) \<Rightarrow>
      (u32 \<times> u32) list \<Rightarrow> routing_table_entry list option" where
  "route_entries source par node_to_ip node_to_mask [] = Some []"
| "route_entries source par node_to_ip node_to_mask ((dest, total_cost) # ds) =
     (if dest = source \<or> 999999 \<le> total_cost
      then route_entries source par node_to_ip node_to_mask ds
      else case first_hop source par dest of
          None \<Rightarrow> None
        | Some current \<Rightarrow>
            (case (node_to_ip current, node_to_ip dest, node_to_mask dest) of
               (Some _, Some dest_ip, Some dest_mask) \<Rightarrow>
                 map_option
                   (Cons \<lparr>destination_subnet = IPv4Address (to_u32 dest_ip AND mask_u32 dest_mask),
                          entry_mask = dest_mask, next_hop_id = current,
                          interface_name = ''eth0'', metric = total_cost\<rparr>)
                   (route_entries source par node_to_ip node_to_mask ds)
             | _ \<Rightarrow> route_entries source par node_to_ip node_to_mask ds))"

definition compute_routes ::
    "((u32 \<times> u32) list \<Rightarrow> (u32 \<times> u32) list) \<Rightarrow> router \<Rightarrow> topology \<Rightarrow> (u32 \<rightharpoonup> ipv4_address) \<Rightarrow>
      (u32 \<rightharpoonup> subnet_mask) \<Rightarrow> clock \<Rightarrow> (router \<times> clock) option" where
  "compute_routes order rt G node_to_ip node_to_mask clk =
     (let rt = rt\<lparr>routing_table := []\<rparr>;
          source = node_id (router_node rt)
      in if map_of G source = None then Some (rt, clk)
         else
           let st = search_loop G source (search_init G source (link_breakers rt) clk)
           in case route_entries source (parent st) node_to_ip node_to_mask (order (distances st)) of
                None \<Rightarrow> None
              | Some tbl \<Rightarrow> Some (rt\<lparr>routing_table := tbl, link_breakers := links st\<rparr>, search_clock st))"

definition lookup_step :: "u32 \<Rightarrow> routing_table_entry \<Rightarrow> bool \<times> u32 \<times> u8 \<Rightarrow> bool \<times> u32 \<times> u8" where
  "lookup_step dest_raw entry acc =
     (let (route_found, best_next_hop, longest_prefix) = acc;
          mask_val = mask_u32 (entry_mask entry)
      in if dest_raw AND mask_val = to_u32 (destination_subnet entry) AND mask_val then
           (let current_prefix = to_prefix_length (entry_mask entry)
            in if \<not> route_found \<or> longest_prefix < current_prefix
               then (True, next_hop_id entry, current_prefix) else acc)
         else acc)"

definition lookup_route :: "router \<Rightarrow> ipv4_address \<Rightarrow> bool \<times> u32" where
  "lookup_route rt destination_ip =
     (let (route_found, best_next_hop, _) =
        fold (lookup_step (to_u32 destination_ip)) (routing_table rt) (False, 0, 0)
      in (route_found, best_next_hop))"

section \<open>Longest-prefix match\<close>

definition entry_matches :: "ipv4_address \<Rightarrow> routing_table_entry \<Rightarrow> bool" where
  "entry_matches a e \<longleftrightarrow>
     to_u32 a AND mask_u32 (entry_mask e) = to_u32 (destination_subnet e) AND mask_u32 (entry_mask e)"

definition entry_bits :: "routing_table_entry \<Rightarrow> nat" where
  "entry_bits e = bit_count (mask_u32 (entry_mask e))"

text \<open>The specification: the first of the most specific matching entries.\<close>

definition best_match :: "ipv4_address \<Rightarrow> routing_table_entry list \<Rightarrow> routing_table_entry option" where
  "best_match a tbl =
     (let ms = filter (entry_matches a) tbl in
      find (\<lambda>e. \<forall>x \<in> set ms. entry_bits x \<le> entry_bits e) ms)"

definition decides :: "routing_table_entry list \<Rightarrow> bool \<times> u32 \<times> u8 \<Rightarrow> bool" where
  "decides ms acc \<longleftrightarrow>
     (ms = [] \<and> acc = (False, 0, 0)) \<or>
     (\<exists>pre e post. ms = pre @ e # post \<and> acc = (True, next_hop_id e, to_prefix_length (entry_mask e)) \<and>
        (\<forall>x \<in> set pre. entry_bits x < entry_bits e) \<and> (\<forall>x \<in> set post. entry_bits x \<le> entry_bits e))"

lemma prefix_less: "to_prefix_length (entry_mask x) < to_prefix_length (entry_mask y)
    \<longleftrightarrow> entry_bits x < entry_bits y"
  by (simp add: word_less_nat_alt unat_prefix_length entry_bits_def)

lemma lookup_step_eq:
  "lookup_step (to_u32 a) e acc =
     (if entry_matches a e \<and> (\<not> fst acc \<or> snd (snd acc) < to_prefix_length (entry_mask e))
      then (True, next_hop_id e, to_prefix_length (entry_mask e)) else acc)"
proof -
  have "lookup_step (to_u32 a) e acc =
     (let (found, hop, longest) = acc in
      if entry_matches a e then
        (if \<not> found \<or> longest < to_prefix_length (entry_mask e)
         then (True, next_hop_id e, to_prefix_length (entry_mask e)) else acc)
      else acc)"
    by (simp only: lookup_step_def entry_matches_def Let_def)
  then show ?thesis by (simp only: Let_def case_prod_beta if_if_eq_conj)
qed

lemma decides_step:
  assumes "decides (filter (entry_matches a) tbl) acc"
  shows "decides (filter (entry_matches a) (tbl @ [e])) (lookup_step (to_u32 a) e acc)"
proof (cases "entry_matches a e")
  case False
  then show ?thesis using assms by (simp add: lookup_step_eq)
next
  case True
  let ?ms = "filter (entry_matches a) tbl"
  have filter: "filter (entry_matches a) (tbl @ [e]) = ?ms @ [e]" using True by simp
  have new: "decides (?ms @ [e]) (True, next_hop_id e, to_prefix_length (entry_mask e))"
    if "\<forall>x \<in> set ?ms. entry_bits x < entry_bits e"
    using that unfolding decides_def
    by (intro disjI2 exI [of _ ?ms] exI [of _ e] exI [of _ "[]"]) simp
  from assms consider "?ms = []" "acc = (False, 0, 0)"
    | pre b post where "?ms = pre @ b # post"
      "acc = (True, next_hop_id b, to_prefix_length (entry_mask b))"
      "\<forall>x \<in> set pre. entry_bits x < entry_bits b" "\<forall>x \<in> set post. entry_bits x \<le> entry_bits b"
    unfolding decides_def by blast
  then show ?thesis
  proof cases
    case 1
    then show ?thesis using True new by (simp add: filter lookup_step_eq)
  next
    case 2
    show ?thesis
    proof (cases "entry_bits b < entry_bits e")
      case True
      then have "\<forall>x \<in> set ?ms. entry_bits x < entry_bits e" using 2 by auto
      from new [OF this] show ?thesis
        using \<open>entry_matches a e\<close> True 2(2) unfolding filter
        by (simp add: lookup_step_eq prefix_less)
    next
      case False
      then have "lookup_step (to_u32 a) e acc = acc"
        using 2(2) by (simp add: lookup_step_eq prefix_less)
      moreover have "decides (?ms @ [e]) acc"
        using 2 False unfolding decides_def
        by (intro disjI2 exI [of _ pre] exI [of _ b] exI [of _ "post @ [e]"]) auto
      ultimately show ?thesis by (simp only: filter)
    qed
  qed
qed

lemma decides_fold:
  "decides (filter (entry_matches a) tbl) (fold (lookup_step (to_u32 a)) tbl (False, 0, 0))"
proof (induction tbl rule: rev_induct)
  case Nil
  show ?case by (simp add: decides_def)
next
  case (snoc e tbl)
  from decides_step [OF this] show ?case by (simp del: filter_append)
qed

lemma find_first: "(\<forall>x \<in> set pre. \<not> P x) \<Longrightarrow> P e \<Longrightarrow> find P (pre @ e # post) = Some e"
  by (induction pre) auto

lemma decides_best:
  assumes "decides (filter (entry_matches a) tbl) acc"
  shows "(fst acc, fst (snd acc)) =
    (case best_match a tbl of None \<Rightarrow> (False, 0) | Some e \<Rightarrow> (True, next_hop_id e))"
proof -
  let ?ms = "filter (entry_matches a) tbl"
  from assms consider "?ms = []" "acc = (False, 0, 0)"
    | pre b post where "?ms = pre @ b # post"
      "acc = (True, next_hop_id b, to_prefix_length (entry_mask b))"
      "\<forall>x \<in> set pre. entry_bits x < entry_bits b" "\<forall>x \<in> set post. entry_bits x \<le> entry_bits b"
    unfolding decides_def by blast
  then show ?thesis
  proof cases
    case 1
    then show ?thesis by (simp add: best_match_def)
  next
    case 2
    have "best_match a tbl = Some b"
      unfolding best_match_def Let_def 2(1) using 2(3,4) by (intro find_first) fastforce+
    with 2(2) show ?thesis by simp
  qed
qed

lemma lookup_best:
  "lookup_route rt a =
     (case best_match a (routing_table rt) of None \<Rightarrow> (False, 0) | Some e \<Rightarrow> (True, next_hop_id e))"
  using decides_best [OF decides_fold [of a "routing_table rt"]]
  unfolding lookup_route_def by (simp add: case_prod_beta)

text \<open>C20 \<open>lookup_route\<close> is longest-prefix match: it reports no route exactly when no entry of the
  table matches the address under the entry's mask, and otherwise the next hop of the first among the
  matching entries whose masks have the most one bits.\<close>

theorem lookup_route_best:
  "lookup_route rt a =
     (case best_match a (routing_table rt) of None \<Rightarrow> (False, 0) | Some e \<Rightarrow> (True, next_hop_id e))"
  by (rule lookup_best)

section \<open>The computed table\<close>

text \<open>Hypotheses on the inputs. Every neighbour is a key of the topology; no sum of costs along a
  path can reach \<open>2^32 - 1\<close>.\<close>

definition closed_topology :: "topology \<Rightarrow> bool" where
  "closed_topology G \<longleftrightarrow> distinct (map fst G) \<and>
     (\<forall>(u, es) \<in> set G. \<forall>(v, c) \<in> set es. v \<in> fst ` set G)"

definition no_overflow :: "topology \<Rightarrow> bool" where
  "no_overflow G \<longleftrightarrow> (\<exists>C. 999999 \<le> C \<and> (\<forall>(u, es) \<in> set G. \<forall>(v, c) \<in> set es. unat c \<le> C) \<and>
     length G * C < 4294967295)"

text \<open>The costs as the router sees them at this moment.\<close>

definition seen_costs :: "router \<Rightarrow> topology \<Rightarrow> clock \<Rightarrow> costs" where
  "seen_costs rt G clk = inflated G (node_id (router_node rt)) (link_breakers rt) clk"

text \<open>The first hop \<open>h\<close> of a shortest path of cost \<open>n\<close> from \<open>s\<close> to \<open>v\<close>.\<close>

definition first_on_shortest :: "costs \<Rightarrow> u32 \<Rightarrow> u32 \<Rightarrow> nat \<Rightarrow> u32 \<Rightarrow> bool" where
  "first_on_shortest E s h n v \<longleftrightarrow> shortest E s n v \<and>
     (\<exists>c n'. (h, c) \<in> set (E s) \<and> path E h n' v \<and> n = unat c + n')"

definition route_entry :: "ipv4_address \<Rightarrow> subnet_mask \<Rightarrow> u32 \<Rightarrow> nat \<Rightarrow> routing_table_entry" where
  "route_entry ip m h n =
     \<lparr>destination_subnet = IPv4Address (to_u32 ip AND mask_u32 m), entry_mask = m, next_hop_id = h,
      interface_name = ''eth0'', metric = of_nat n\<rparr>"

lemma link_costs_targets: "map fst (fst (link_costs es brk clk)) = map fst es"
  by (induction es brk clk rule: link_costs.induct) (auto split: prod.split)

lemma link_cost_values: "fst (link_cost s u v c brk clk) \<in> {c, 999999}"
  by (auto simp: link_cost_def split: option.split prod.split)

lemma link_costs_values:
  "(v, c) \<in> set (fst (link_costs es brk clk)) \<Longrightarrow> c = 999999 \<or> (v, c) \<in> set es"
proof (induction es arbitrary: brk clk)
  case (Cons e es)
  obtain w c0 where e: "e = (w, c0)" by fastforce
  obtain c' brk' clk' where 1: "link_cost 0 0 w c0 brk clk = (c', brk', clk')" by (metis prod_cases3)
  obtain es'' brk'' clk'' where 3: "link_costs es brk' clk' = (es'', brk'', clk'')" by (metis prod_cases3)
  have "c' = c0 \<or> c' = 999999" using link_cost_values [of 0 0 w c0 brk clk] by (auto simp: 1)
  moreover have "c = 999999 \<or> (v, c) \<in> set es" if "(v, c) \<in> set es''"
    using Cons.IH [of brk' clk'] that by (simp add: 3)
  ultimately show ?case using Cons.prems by (auto simp: e 1 3)
qed simp

lemma adjacent_entry: "(v, c) \<in> set (adjacent G u) \<Longrightarrow> \<exists>es. (u, es) \<in> set G \<and> (v, c) \<in> set es"
  by (auto simp: adjacent_def split: option.splits) (metis map_of_SomeD)

lemma adjacent_other: "u \<notin> nodes G \<Longrightarrow> adjacent G u = []"
  by (simp add: adjacent_def nodes_def map_of_eq_None_iff [THEN iffD2])

lemma inflated_below:
  assumes "\<forall>(u, es) \<in> set G. \<forall>(v, c) \<in> set es. unat c \<le> C" and "999999 \<le> C"
  shows "costs_below C (inflated G s brk clk)"
proof -
  have adj: "unat c \<le> C" if "(v, c) \<in> set (adjacent G u)" for u v c
    using adjacent_entry [OF that] assms(1) by fastforce
  have "unat c \<le> C" if "(v, c) \<in> set (inflated G s brk clk u)" for u v c
    using that link_costs_values [of v c "adjacent G s" brk clk] adj assms(2)
    by (auto simp: inflated_def split: if_splits)
  then show ?thesis by (auto simp: costs_below_def)
qed

lemma inflated_other: "u \<notin> nodes G \<Longrightarrow> inflated G s brk clk u = []"
proof -
  assume *: "u \<notin> nodes G"
  have "link_costs [] brk clk = ([], brk, clk)" by simp
  then show ?thesis using adjacent_other [OF *] by (auto simp: inflated_def)
qed

lemma inflated_targets:
  assumes "closed_topology G" and "(v, c) \<in> set (inflated G s brk clk u)"
  shows "v \<in> nodes G"
proof -
  have "v \<in> fst ` set (adjacent G u)"
  proof (cases "u = s")
    case True
    then have "v \<in> set (map fst (fst (link_costs (adjacent G s) brk clk)))"
      using assms(2) by (force simp: inflated_def)
    with True show ?thesis by (simp add: link_costs_targets)
  next
    case False
    then show ?thesis using assms(2) by (force simp: inflated_def)
  qed
  then obtain c' where "(v, c') \<in> set (adjacent G u)" by auto
  from adjacent_entry [OF this] obtain es where "(u, es) \<in> set G" "(v, c') \<in> set es" by blast
  then show ?thesis using assms(1) unfolding closed_topology_def nodes_def by blast
qed

text \<open>The table loop, entry by entry.\<close>

definition entry_for ::
    "u32 \<Rightarrow> (u32 \<rightharpoonup> u32) \<Rightarrow> (u32 \<rightharpoonup> ipv4_address) \<Rightarrow> (u32 \<rightharpoonup> subnet_mask) \<Rightarrow> u32 \<Rightarrow> u32 \<Rightarrow>
      routing_table_entry \<Rightarrow> bool" where
  "entry_for s par ips ms v d e \<longleftrightarrow> v \<noteq> s \<and> \<not> 999999 \<le> d \<and>
     (\<exists>h hip ip m. first_hop s par v = Some h \<and> ips h = Some hip \<and> ips v = Some ip \<and>
        ms v = Some m \<and> e = route_entry ip m h (unat d))"

lemma route_entries_some:
  assumes "\<And>v d. (v, d) \<in> set ds \<Longrightarrow> v \<noteq> s \<Longrightarrow> \<not> 999999 \<le> d \<Longrightarrow> \<exists>h. first_hop s par v = Some h"
  shows "\<exists>tbl. route_entries s par ips ms ds = Some tbl \<and>
    set tbl = {e. \<exists>(v, d) \<in> set ds. entry_for s par ips ms v d e}"
  using assms
proof (induction ds)
  case Nil
  show ?case by simp
next
  case (Cons x ds)
  obtain v d where x: "x = (v, d)" by fastforce
  have "\<exists>tbl. route_entries s par ips ms ds = Some tbl \<and>
      set tbl = {e. \<exists>(v, d) \<in> set ds. entry_for s par ips ms v d e}"
    using Cons.prems by (intro Cons.IH) (meson list.set_intros(2))
  then obtain tbl where tbl: "route_entries s par ips ms ds = Some tbl"
    "set tbl = {e. \<exists>(v, d) \<in> set ds. entry_for s par ips ms v d e}" by blast
  have "\<exists>tbl'. route_entries s par ips ms (x # ds) = Some tbl' \<and>
      set tbl' = {e. entry_for s par ips ms v d e} \<union> set tbl"
  proof (cases "v = s \<or> 999999 \<le> d")
    case True
    then show ?thesis by (auto simp: x tbl(1) entry_for_def)
  next
    case False
    then obtain h where "first_hop s par v = Some h" using Cons.prems [of v d] by (auto simp: x)
    with False show ?thesis
      by (simp add: x tbl(1) entry_for_def route_entry_def split: option.split)
  qed
  then show ?case unfolding tbl(2) by (auto simp: x)
qed

text \<open>The hash map of the distances never gets a key outside a set that contains the topology.\<close>

definition keys_in :: "u32 set \<Rightarrow> search \<Rightarrow> bool" where
  "keys_in N st \<longleftrightarrow> dom (map_of (distances st)) \<subseteq> N \<and> snd ` set (min_heap st) \<subseteq> N"

lemma keys_subscript: "dom (map_of (snd (subscript ds v))) \<subseteq> insert v (dom (map_of ds))"
  by (auto simp: subscript_def update_conv' split: option.splits if_splits)

lemma keys_relax_to:
  assumes "keys_in N st" and "v \<in> N"
  shows "keys_in N (relax_to u v nd st)"
proof -
  obtain dv ds where s: "subscript (distances st) v = (dv, ds)" by fastforce
  have ds: "dom (map_of ds) \<subseteq> N"
    using keys_subscript [of "distances st" v] assms by (auto simp: s keys_in_def)
  show ?thesis
  proof (cases "nd < dv")
    case True
    have "dom (map_of (AList.update v nd ds)) \<subseteq> N" using ds assms(2) by (auto simp: update_conv')
    with True assms show ?thesis
      by (auto simp: relax_to_def s keys_in_def heap_push_def set_insort_key)
  next
    case False
    then show ?thesis using ds assms by (simp add: relax_to_def s keys_in_def)
  qed
qed

lemma keys_relax_edges:
  assumes "keys_in N st" and "\<forall>(v, c) \<in> set es. v \<in> N"
  shows "keys_in N (relax_edges s u d es st)"
  using assms
proof (induction es arbitrary: st)
  case (Cons e es)
  obtain v c where e: "e = (v, c)" by fastforce
  have "keys_in N (st\<lparr>links := brk, search_clock := clk\<rparr>)" for brk clk
    using Cons.prems by (simp add: keys_in_def)
  then have "keys_in N (relax_edge s u d e st)"
    using Cons.prems by (simp add: relax_edge_def e keys_relax_to del: relax_to_links split: prod.split)
  then show ?case using Cons by simp
qed simp

lemma keys_visit:
  assumes "keys_in N st" and "\<not> heap_empty (min_heap st)"
    and G: "\<forall>(u, es) \<in> set G. \<forall>(v, c) \<in> set es. v \<in> N"
  shows "keys_in N (visit G s st)"
proof -
  obtain d u where top: "heap_top (min_heap st) = (d, u)" by fastforce
  have "(d, u) \<in> set (min_heap st)"
    using assms(2) top by (cases "min_heap st") (auto simp: heap_empty_def heap_top_def)
  then have u: "u \<in> N" using assms(1) by (force simp: keys_in_def)
  obtain du ds where s: "subscript (distances st) u = (du, ds)" by fastforce
  let ?st = "st\<lparr>min_heap := heap_pop (min_heap st), distances := ds\<rparr>"
  have "set (heap_pop (min_heap st)) \<subseteq> set (min_heap st)"
    by (cases "min_heap st") (auto simp: heap_pop_def)
  then have "snd ` set (heap_pop (min_heap st)) \<subseteq> N" using assms(1) unfolding keys_in_def by blast
  moreover have "dom (map_of ds) \<subseteq> N"
    using keys_subscript [of "distances st" u] assms(1) u by (auto simp: s keys_in_def)
  ultimately have st: "keys_in N ?st" by (simp add: keys_in_def)
  have "keys_in N (relax_edges s u d es ?st)" if "map_of G u = Some es" for es
    using map_of_SomeD [OF that] G by (intro keys_relax_edges [OF st]) fast
  with st show ?thesis
    by (simp add: visit_def top s Let_def split: option.split)
qed

lemma keys_loop:
  assumes "keys_in N st" and "\<forall>(u, es) \<in> set G. \<forall>(v, c) \<in> set es. v \<in> N"
  shows "keys_in N (search_loop G s st)"
  using assms
proof (induction G s st rule: search_loop.induct)
  case (1 G s st)
  show ?case
  proof (cases "heap_empty (min_heap st)")
    case True
    then show ?thesis using 1 by (subst search_loop.simps) simp
  next
    case False
    then show ?thesis
      using 1(1) [OF False keys_visit [OF 1(2) False 1(3)] 1(3)] by (subst search_loop.simps) simp
  qed
qed

lemma keys_search:
  assumes "closed_topology G" and "s \<in> nodes G"
  shows "keys_in (nodes G) (search_loop G s (search_init G s brk clk))"
proof (rule keys_loop)
  have "dom (map_of (distances (search_init G s brk clk))) \<subseteq> nodes G"
    using assms(2) by (auto simp: search_init_def update_conv' map_of_init split: if_splits)
  then show "keys_in (nodes G) (search_init G s brk clk)"
    using assms(2) by (simp add: keys_in_def) (simp add: search_init_def heap_push_def)
  show "\<forall>(u, es) \<in> set G. \<forall>(v, c) \<in> set es. v \<in> nodes G"
    using assms(1) unfolding closed_topology_def nodes_def by blast
qed

text \<open>What the search knows at its end, in terms of shortest paths.\<close>

lemma search_shortest:
  assumes closed: "closed_topology G" and small: "no_overflow G" and s: "s \<in> nodes G"
    and E: "E = inflated G s brk clk"
  defines "st \<equiv> search_loop G s (search_init G s brk clk)"
  shows "(v, d) \<in> set (distances st) \<Longrightarrow> \<not> 999999 \<le> d \<Longrightarrow> shortest E s (unat d) v"
    and "(v, d) \<in> set (distances st) \<Longrightarrow> \<not> 999999 \<le> d \<Longrightarrow> v \<noteq> s \<Longrightarrow>
      \<exists>h. first_hop s (parent st) v = Some h \<and> first_on_shortest E s h (unat d) v"
    and "shortest E s n v \<Longrightarrow> v \<in> nodes G \<Longrightarrow> n < 999999 \<Longrightarrow> (v, of_nat n) \<in> set (distances st)"
proof -
  obtain C where C: "999999 \<le> C" "\<forall>(u, es) \<in> set G. \<forall>(v, c) \<in> set es. unat c \<le> C"
    "length G * C < 4294967295" using small unfolding no_overflow_def by blast
  have below: "costs_below C E" unfolding E by (rule inflated_below [OF C(2,1)])
  have G: "distinct (map fst G)" using closed by (simp add: closed_topology_def)
  obtain S w where inv: "searching G E s C S w [] st" and empty: "min_heap st = []"
    using search_result(1) [OF s G E C(3) below] unfolding st_def by blast
  have set: "settling E (nodes G) s C S w [] (node_dist st) {} (parent st)"
    using inv by (simp add: searching_def queued_def empty)
  have le: "\<forall>v. node_dist st v \<le> FAR" by (simp add: node_dist_le)
  have out: "\<forall>v. v \<notin> nodes G \<longrightarrow> E v = []" by (simp add: E inflated_other)
  have keys: "dom (map_of (distances st)) \<subseteq> nodes G"
    using keys_search [OF closed s] by (simp add: keys_in_def st_def)
  have distinct: "distinct (map fst (distances st))" using inv by (simp add: searching_def)
  have entry: "v \<in> nodes G \<and> node_dist st v = unat d" if "(v, d) \<in> set (distances st)" for v d
  proof -
    have "map_of (distances st) v = Some d" using map_of_is_SomeI [OF distinct that] .
    with keys show ?thesis by (auto simp: node_dist_def subscript_def)
  qed
  have near: "node_dist st v \<noteq> FAR" if "(v, d) \<in> set (distances st)" "\<not> 999999 \<le> d" for v d
    using entry [OF that(1)] that(2) by (simp add: word_le_nat_alt)
  show short: "shortest E s (unat d) v" if "(v, d) \<in> set (distances st)" "\<not> 999999 \<le> d" for v d
    using settled_shortest(1) [OF set le out] entry [OF that(1)] near [OF that] by force
  show "\<exists>h. first_hop s (parent st) v = Some h \<and> first_on_shortest E s h (unat d) v"
    if vd: "(v, d) \<in> set (distances st)" "\<not> 999999 \<le> d" "v \<noteq> s" for v d
  proof -
    have v: "v \<in> nodes G" "node_dist st v = unat d" using entry [OF vd(1)] by simp_all
    obtain h c n where "first_hop s (parent st) v = Some h" "(h, c) \<in> set (E s)" "path E h n v"
      "node_dist st v = unat c + n"
      using tree_first_hop [OF set v(1) near [OF vd(1,2)]] vd(3) by blast
    then show ?thesis
      using short [OF vd(1,2)] v(2) unfolding first_on_shortest_def by metis
  qed
  show "(v, of_nat n) \<in> set (distances st)"
    if nv: "shortest E s n v" "v \<in> nodes G" "n < 999999" for n v
  proof -
    have "node_dist st v \<noteq> FAR"
      using settled_shortest(2) [OF set le out nv(2), of n] nv(1,3) by (simp add: shortest_def)
    then have "shortest E s (node_dist st v) v" using settled_shortest(1) [OF set le out nv(2)] by blast
    then have "node_dist st v = n" using nv(1) by (rule shortest_unique)
    moreover obtain d where d: "map_of (distances st) v = Some d"
      using inv nv(2) by (auto simp: searching_def)
    ultimately have "d = of_nat n" by (auto simp: node_dist_def subscript_def)
    with d show ?thesis by (simp add: map_of_SomeD)
  qed
qed

text \<open>The whole of \<open>compute_routes\<close>: it returns, and the table's entries are those of the destinations
  nearer than 999999.\<close>

lemma compute_routes_table:
  fixes clk :: clock
  assumes closed: "closed_topology G" and small: "no_overflow G"
    and s: "node_id (router_node rt) \<in> fst ` set G"
    and order: "\<forall>xs. set (order xs) = set xs"
  defines "s \<equiv> node_id (router_node rt)" and "E \<equiv> seen_costs rt G clk"
  shows "\<exists>rt' clk' hops. compute_routes order rt G ips ms clk = Some (rt', clk') \<and>
    router_node rt' = router_node rt \<and>
    (link_breakers rt', clk') = snd (link_costs (adjacent G s) (link_breakers rt) clk) \<and>
    (\<forall>v n. v \<noteq> s \<longrightarrow> n < 999999 \<longrightarrow> shortest E s n v \<longrightarrow> first_on_shortest E s (hops v) n v) \<and>
    set (routing_table rt') = {e. \<exists>v n hip ip m. v \<in> nodes G \<and> v \<noteq> s \<and> n < 999999 \<and>
      shortest E s n v \<and> ips (hops v) = Some hip \<and> ips v = Some ip \<and> ms v = Some m \<and>
      e = route_entry ip m (hops v) n}"
proof -
  have sG: "s \<in> nodes G" using s by (simp add: s_def nodes_def)
  have E: "E = inflated G s (link_breakers rt) clk" by (simp add: E_def seen_costs_def s_def)
  let ?st = "search_loop G s (search_init G s (link_breakers rt) clk)"
  note facts = search_shortest [OF closed small sG E]
  have entries: "\<exists>h. first_hop s (parent ?st) v = Some h"
    if "(v, d) \<in> set (order (distances ?st))" "v \<noteq> s" "\<not> 999999 \<le> d" for v d
    using facts(2) that order by blast
  obtain tbl where tbl: "route_entries s (parent ?st) ips ms (order (distances ?st)) = Some tbl"
    "set tbl = {e. \<exists>(v, d) \<in> set (order (distances ?st)). entry_for s (parent ?st) ips ms v d e}"
    using route_entries_some [of "order (distances ?st)" s "parent ?st" ips ms] entries by meson
  define hops where "hops v = the (first_hop s (parent ?st) v)" for v
  have target: "v \<in> nodes G" if "shortest E s n v" for n v
  proof -
    from that have "path E s n v" by (simp add: shortest_def)
    then show ?thesis
      by cases (use sG inflated_targets [OF closed] E in auto)
  qed
  have hop: "first_hop s (parent ?st) v = Some (hops v) \<and> first_on_shortest E s (hops v) n v"
    if "v \<noteq> s" "n < 999999" "shortest E s n v" for v n
  proof -
    have n: "unat (of_nat n :: u32) = n" "\<not> (999999 :: u32) \<le> of_nat n"
      using that(2) by (simp_all add: unat_of_nat_small word_le_nat_alt)
    from facts(2) [OF facts(3) [OF that(3) target [OF that(3)] that(2)] n(2) that(1)]
    show ?thesis by (auto simp: n(1) hops_def)
  qed
  have "set tbl = {e. \<exists>v n hip ip m. v \<in> nodes G \<and> v \<noteq> s \<and> n < 999999 \<and>
      shortest E s n v \<and> ips (hops v) = Some hip \<and> ips v = Some ip \<and> ms v = Some m \<and>
      e = route_entry ip m (hops v) n}" (is "_ = ?T")
  proof (intro set_eqI iffI)
    fix e assume "e \<in> set tbl"
    then obtain v d where vd: "(v, d) \<in> set (distances ?st)" "entry_for s (parent ?st) ips ms v d e"
      using tbl(2) order by blast
    then have "shortest E s (unat d) v" using facts(1) by (simp add: entry_for_def)
    moreover have "unat d < 999999" using vd(2) by (simp add: entry_for_def word_le_nat_alt)
    ultimately show "e \<in> ?T"
      using vd(2) target [of "unat d" v] hop [of v "unat d"] by (auto simp: entry_for_def)
  next
    fix e assume "e \<in> ?T"
    then obtain v n hip ip m where e: "v \<in> nodes G" "v \<noteq> s" "n < 999999" "shortest E s n v"
      "ips (hops v) = Some hip" "ips v = Some ip" "ms v = Some m" "e = route_entry ip m (hops v) n"
      by blast
    have n: "unat (of_nat n :: u32) = n" "\<not> (999999 :: u32) \<le> of_nat n"
      using e(3) by (simp_all add: unat_of_nat_small word_le_nat_alt)
    have "entry_for s (parent ?st) ips ms v (of_nat n) e"
      using e hop [OF e(2,3,4)] n by (simp add: entry_for_def)
    with facts(3) [OF e(4,1,3)] show "e \<in> set tbl" using tbl(2) order by blast
  qed
  moreover have "map_of G s \<noteq> None" using sG by (simp add: nodes_def map_of_eq_None_iff)
  with tbl(1) have "compute_routes order rt G ips ms clk = Some (rt\<lparr>routing_table := tbl,
      link_breakers := links ?st\<rparr>, search_clock ?st)"
    by (auto simp: compute_routes_def s_def [symmetric] Let_def)
  moreover have "(links ?st, search_clock ?st) = snd (link_costs (adjacent G s) (link_breakers rt) clk)"
  proof -
    obtain C where C: "999999 \<le> C" "\<forall>(u, es) \<in> set G. \<forall>(v, c) \<in> set es. unat c \<le> C"
      "length G * C < 4294967295" using small unfolding no_overflow_def by blast
    show ?thesis
      using closed by (intro search_result(2) [OF sG _ E C(3)])
        (auto simp: closed_topology_def E intro: inflated_below [OF C(2,1)])
  qed
  ultimately show ?thesis
    using hop
    by (intro exI [of _ "rt\<lparr>routing_table := tbl, link_breakers := links ?st\<rparr>"]
        exI [of _ "search_clock ?st"] exI [of _ hops] conjI) simp_all
qed

section \<open>Properties\<close>

subsection \<open>Shortest paths\<close>

text \<open>The costs a call may have used. The links of other routers count as the topology says. Of
  the router's own links, one without a breaker, or whose breaker is not open, does so too; one
  whose breaker is open counts 999999 if at one of the first \<open>n\<close> readings of the clock its timeout
  had not elapsed, and its own cost if at one of them it had. A call takes at most two readings per own link.\<close>

definition still_open :: "circuit_breaker \<Rightarrow> int \<Rightarrow> bool" where
  "still_open cb t \<longleftrightarrow> to_milliseconds (t - last_state_change cb) < sint (recovery_timeout_ms cb)"

definition link_seen :: "(u32 \<rightharpoonup> circuit_breaker) \<Rightarrow> clock \<Rightarrow> nat \<Rightarrow> u32 \<Rightarrow> u32 \<Rightarrow> u32 \<Rightarrow> bool" where
  "link_seen brk clk n v c c' \<longleftrightarrow>
     (case brk v of
        None \<Rightarrow> c' = c
      | Some cb \<Rightarrow>
          if cb_state cb = Open
          then \<exists>k<n. c' = (if still_open cb (clk k) then 999999 else c)
          else c' = c)"

definition links_seen ::
    "(u32 \<rightharpoonup> circuit_breaker) \<Rightarrow> clock \<Rightarrow> nat \<Rightarrow> (u32 \<times> u32) list \<Rightarrow> (u32 \<times> u32) list \<Rightarrow> bool" where
  "links_seen brk clk n = list_all2 (\<lambda>(v, c) (v', c'). v' = v \<and> link_seen brk clk n v c c')"

definition costs_seen :: "router \<Rightarrow> topology \<Rightarrow> clock \<Rightarrow> costs \<Rightarrow> bool" where
  "costs_seen rt G clk E \<longleftrightarrow>
     (let s = node_id (router_node rt); own = adjacent G s in
      (\<forall>u. u \<noteq> s \<longrightarrow> E u = adjacent G u) \<and>
      links_seen (link_breakers rt) clk (2 * length own) own (E s))"

text \<open>Along the walk over the own links a breaker is as before the call, or was open and has become
  half-open at one of the readings.\<close>

definition breakers_aged :: "(u32 \<rightharpoonup> circuit_breaker) \<Rightarrow> clock \<Rightarrow> nat \<Rightarrow> (u32 \<rightharpoonup> circuit_breaker) \<Rightarrow> bool" where
  "breakers_aged brk0 clk0 n brk \<longleftrightarrow> (\<forall>v. brk v = brk0 v \<or>
     (\<exists>cb cb' k. brk0 v = Some cb \<and> cb_state cb = Open \<and> k < n \<and> \<not> still_open cb (clk0 k) \<and>
        brk v = Some cb' \<and> cb_state cb' \<noteq> Open))"

lemma breakers_aged_upd:
  assumes "breakers_aged brk0 clk0 n brk" and "n \<le> n'"
    and "brk0 v = Some cb0" and "b = cb0 \<or> cb_state cb0 = Open \<and> k < n' \<and> \<not> still_open cb0 (clk0 k) \<and> cb_state b \<noteq> Open"
  shows "breakers_aged brk0 clk0 n' (brk(v \<mapsto> b))"
  using assms unfolding breakers_aged_def by (fastforce intro: less_le_trans)

lemma link_seen_mono: "link_seen brk clk n v c c' \<Longrightarrow> n \<le> m \<Longrightarrow> link_seen brk clk m v c c'"
  by (auto simp: link_seen_def split: option.splits if_splits intro: less_le_trans)

lemma link_cost_seen:
  assumes aged: "breakers_aged brk0 clk0 j brk" and clk: "clk = (\<lambda>i. clk0 (i + j'))" and j: "j' \<le> j"
    and run: "link_cost 0 0 v c brk clk = (c', brk', clk')"
  shows "link_seen brk0 clk0 (j + 2) v c c' \<and> breakers_aged brk0 clk0 (j + 2) brk' \<and>
    (\<exists>j''. j'' \<le> j + 2 \<and> clk' = (\<lambda>i. clk0 (i + j'')))"
proof (cases "brk v")
  case None
  then have "brk0 v = None" using aged unfolding breakers_aged_def by (metis option.distinct(1))
  moreover have "breakers_aged brk0 clk0 (j + 2) brk"
    using aged unfolding breakers_aged_def by (meson trans_less_add1)
  ultimately show ?thesis
    using None run clk j by (auto simp: link_cost_def link_seen_def intro!: exI [of _ j'])
next
  case (Some b)
  then obtain cb where cb: "brk0 v = Some cb" "b = cb \<or>
      (\<exists>k<j. cb_state cb = Open \<and> \<not> still_open cb (clk0 k) \<and> cb_state b \<noteq> Open)"
    using aged unfolding breakers_aged_def by (metis option.inject)
  show ?thesis
  proof (cases "cb_state b = Open")
    case True
    then have b: "b = cb" using cb(2) by blast
    have now: "clock_now clk = clk0 j'" by (simp add: clock_now_def clk)
    have seen: "link_seen brk0 clk0 (j + 2) v c (if still_open cb (clk0 j') then 999999 else c)"
      unfolding link_seen_def using cb(1) True b j by (auto intro!: exI [of _ j'])
    have new: "c' = (if still_open cb (clk0 j') then 999999 else c)"
      "brk' = brk(v \<mapsto> if still_open cb (clk0 j') then cb
        else fst (cb_transition HalfOpen cb (clock_rest clk)))"
      "clk' = (if still_open cb (clk0 j') then clock_rest clk else clock_rest (clock_rest clk))"
      using run Some True
      by (simp_all add: link_cost_def cb_get_state_def still_open_def b now Let_def cb_transition_def
          not_le split: if_splits)
    have "breakers_aged brk0 clk0 (j + 2) brk'"
      unfolding new(2) by (rule breakers_aged_upd [OF aged _ cb(1), where k = j'])
        (use j True b in \<open>auto simp: cb_transition_def\<close>)
    moreover have "\<exists>j''. j'' \<le> j + 2 \<and> clk' = (\<lambda>i. clk0 (i + j''))"
      using j unfolding new(3) clk clock_rest_def
      by (intro exI [of _ "if still_open cb (clk0 j') then Suc j' else Suc (Suc j')"]) simp
    ultimately show ?thesis using seen new(1) by simp
  next
    case False
    then have new: "c' = c" "brk' = brk" "clk' = clk"
      using run Some by (auto simp: link_cost_def cb_get_state_def)
    have "link_seen brk0 clk0 (j + 2) v c c"
      unfolding link_seen_def using cb False by (auto intro: trans_less_add1)
    moreover have "breakers_aged brk0 clk0 (j + 2) brk"
      using aged unfolding breakers_aged_def by (meson trans_less_add1)
    ultimately show ?thesis using j clk new by (auto intro!: exI [of _ j'])
  qed
qed

lemma link_costs_seen:
  assumes "breakers_aged brk0 clk0 j brk" and "clk = (\<lambda>i. clk0 (i + j'))" and "j' \<le> j"
  shows "links_seen brk0 clk0 (j + 2 * length es) es (fst (link_costs es brk clk))"
  using assms
proof (induction es arbitrary: brk clk j j')
  case Nil
  then show ?case by (simp add: links_seen_def)
next
  case (Cons e es)
  obtain v c where e: "e = (v, c)" by fastforce
  obtain c' brk' clk' where 1: "link_cost 0 0 v c brk clk = (c', brk', clk')" by (metis prod_cases3)
  obtain es'' brk'' clk'' where 2: "link_costs es brk' clk' = (es'', brk'', clk'')" by (metis prod_cases3)
  from link_cost_seen [OF Cons.prems 1] obtain j'' where
    3: "link_seen brk0 clk0 (j + 2) v c c'" "breakers_aged brk0 clk0 (j + 2) brk'"
      "j'' \<le> j + 2" "clk' = (\<lambda>i. clk0 (i + j''))" by blast
  from Cons.IH [OF 3(2,4,3)] have "links_seen brk0 clk0 (j + 2 + 2 * length es) es es''" by (simp add: 2)
  moreover have "link_seen brk0 clk0 (j + 2 + 2 * length es) v c c'"
    by (rule link_seen_mono [OF 3(1)]) simp
  ultimately show ?case by (simp add: links_seen_def e 1 2)
qed

lemma seen_costs_seen: "costs_seen rt G clk (seen_costs rt G clk)"
proof -
  let ?s = "node_id (router_node rt)"
  have "breakers_aged (link_breakers rt) clk 0 (link_breakers rt)" by (simp add: breakers_aged_def)
  from link_costs_seen [OF this, of clk 0 "adjacent G ?s"] show ?thesis
    by (simp add: costs_seen_def seen_costs_def inflated_def Let_def)
qed


text \<open>The triangle of the routing tests in \<^verbatim>\<open>src/main/controller.cpp\<close>.\<close>

definition triangle :: topology where
  "triangle = [(1, [(2, 1), (3, 10)]), (2, [(1, 1), (3, 2)]), (3, [(1, 10), (2, 2)])]"

definition router_one :: router where
  "router_one = router_new 1 ''R1'' (IPv4Address 0x0A000001) (SubnetMask 0xFFFFFF00) []"

definition test_ips :: "u32 \<rightharpoonup> ipv4_address" where
  "test_ips = [1 \<mapsto> IPv4Address 0x0A000101, 2 \<mapsto> IPv4Address 0x0A000201, 3 \<mapsto> IPv4Address 0x0A000301]"

definition test_masks :: "u32 \<rightharpoonup> subnet_mask" where
  "test_masks = [1 \<mapsto> SubnetMask 0xFFFFFF00, 2 \<mapsto> SubnetMask 0xFFFFFF00, 3 \<mapsto> SubnetMask 0xFFFFFF00]"

lemma triangle_ok: "closed_topology triangle \<and> no_overflow triangle"
  by (auto simp: closed_topology_def no_overflow_def triangle_def intro!: exI [of _ 999999])

lemma router_one_id [simp]: "node_id (router_node router_one) = 1"
  by (simp add: router_one_def router_new_def node_new_def)

text \<open>A router whose link to node 2 is open, read one second after it opened.\<close>

definition open_breaker :: circuit_breaker where
  "open_breaker = \<lparr>cb_state = Open, failure_threshold = 3, recovery_timeout_ms = 5000,
     failure_count = 0, success_count = 0, last_state_change = 0\<rparr>"

definition router_cut :: router where
  "router_cut = router_one\<lparr>link_breakers := [2 \<mapsto> open_breaker]\<rparr>"

lemma router_cut_id [simp]: "node_id (router_node router_cut) = 1"
  by (simp add: router_cut_def)

lemma router_cut_breakers:
  "link_breakers router_cut = [2 \<mapsto> open_breaker]" "cb_state open_breaker = Open"
  by (simp_all add: router_cut_def open_breaker_def)


subsection \<open>Open links\<close>

text \<open>A breaker that is open and whose timeout elapses at no reading of the clock.\<close>

definition open_throughout :: "circuit_breaker \<Rightarrow> clock \<Rightarrow> bool" where
  "open_throughout cb clk \<longleftrightarrow> cb_state cb = Open \<and>
     (\<forall>k. to_milliseconds (clk k - last_state_change cb) < sint (recovery_timeout_ms cb))"

lemma open_throughout_get:
  assumes "open_throughout cb clk"
  shows "cb_get_state cb clk = (Open, cb, clock_rest clk)"
proof -
  have "to_milliseconds (clk 0 - last_state_change cb) < sint (recovery_timeout_ms cb)"
    using assms by (simp add: open_throughout_def)
  then have "\<not> sint (recovery_timeout_ms cb) \<le> to_milliseconds (clk 0 - last_state_change cb)"
    by (simp only: not_le)
  with assms show ?thesis
    by (simp add: open_throughout_def cb_get_state_def clock_now_def Let_def)
qed

lemma open_throughout_rest: "open_throughout cb clk \<Longrightarrow> open_throughout cb (clock_rest clk)"
  by (simp add: open_throughout_def clock_rest_def)

lemma cb_get_state_clock: "snd (snd (cb_get_state cb clk)) \<in> {clk, clock_rest clk, clock_rest (clock_rest clk)}"
  by (simp add: cb_get_state_def cb_transition_def Let_def)

lemma link_cost_open:
  assumes "brk h = Some cb" and "open_throughout cb clk"
    and "link_cost 0 0 v c brk clk = (c', brk', clk')"
  shows "brk' h = Some cb \<and> open_throughout cb clk' \<and> (v = h \<longrightarrow> c' = 999999)"
proof (cases "v = h")
  case True
  then show ?thesis
    using assms open_throughout_get [OF assms(2)] open_throughout_rest [OF assms(2)]
    by (auto simp: link_cost_def)
next
  case False
  have "clk' \<in> {clk, clock_rest clk, clock_rest (clock_rest clk)} \<and> brk' h = brk h"
  proof (cases "brk v")
    case None
    then show ?thesis using assms(3) by (simp add: link_cost_def)
  next
    case (Some b)
    obtain s b' clk1 where g: "cb_get_state b clk = (s, b', clk1)" by (metis prod_cases3)
    then have "clk' = clk1" "brk' = brk(v \<mapsto> b')" using assms(3) Some by (simp_all add: link_cost_def)
    with False cb_get_state_clock [of b clk] show ?thesis by (simp add: g)
  qed
  then show ?thesis
    using False assms(1,2) open_throughout_rest by auto
qed

lemma link_costs_open:
  assumes "brk h = Some cb" and "open_throughout cb clk" and "(h, c) \<in> set (fst (link_costs es brk clk))"
  shows "c = 999999"
  using assms
proof (induction es arbitrary: brk clk)
  case (Cons e es)
  obtain w c0 where e: "e = (w, c0)" by fastforce
  obtain c' brk' clk' where 1: "link_cost 0 0 w c0 brk clk = (c', brk', clk')" by (metis prod_cases3)
  obtain es'' brk'' clk'' where 2: "link_costs es brk' clk' = (es'', brk'', clk'')" by (metis prod_cases3)
  have "c = 999999" if "(h, c) \<in> set es''"
    using Cons.IH [of brk' clk'] link_cost_open [OF Cons.prems(1,2) 1] that by (simp add: 2)
  then show ?case using Cons.prems link_cost_open [OF Cons.prems(1,2) 1] by (auto simp: e 1 2)
qed simp

text \<open>C15 Traffic is not sent over an open link: when the router and every neighbour are keys of the
  topology and no path cost can reach \<open>2^32 - 1\<close>, the call returns, and a neighbour whose breaker is open,
  and does not time out while the routes are computed, is the next hop of no entry of the new table. (A
  neighbour that is not a key of the topology can become its own next hop, see \<open>phantom_route\<close>.)\<close>

theorem open_link_avoided:
  fixes clk :: clock
  assumes "closed_topology G" and "no_overflow G" and "node_id (router_node rt) \<in> fst ` set G"
    and "\<forall>xs. mset (order xs) = mset xs"
    and "link_breakers rt h = Some cb" and "open_throughout cb clk"
  shows "\<exists>rt' clk'. compute_routes order rt G ips ms clk = Some (rt', clk') \<and>
    (\<forall>e \<in> set (routing_table rt'). next_hop_id e \<noteq> h)"
proof -
  let ?s = "node_id (router_node rt)" and ?E = "seen_costs rt G clk"
  have "\<forall>xs. set (order xs) = set xs" using assms(4) mset_eq_setD by blast
  then obtain rt' clk' hops where
    run: "compute_routes order rt G ips ms clk = Some (rt', clk')" and
    hops: "\<forall>v n. v \<noteq> ?s \<longrightarrow> n < 999999 \<longrightarrow> shortest ?E ?s n v \<longrightarrow> first_on_shortest ?E ?s (hops v) n v" and
    tbl: "set (routing_table rt') = {e. \<exists>v n hip ip m. v \<in> nodes G \<and> v \<noteq> ?s \<and> n < 999999 \<and>
      shortest ?E ?s n v \<and> ips (hops v) = Some hip \<and> ips v = Some ip \<and> ms v = Some m \<and>
      e = route_entry ip m (hops v) n}"
    using compute_routes_table [OF assms(1-3)] by meson
  have "next_hop_id e \<noteq> h" if e: "e \<in> set (routing_table rt')" for e
  proof
    assume h: "next_hop_id e = h"
    obtain v n where vn: "v \<noteq> ?s" "n < 999999" "shortest ?E ?s n v" "hops v = h"
      using e h unfolding tbl by (auto simp: route_entry_def)
    then obtain c n' where c: "(h, c) \<in> set (?E ?s)" "n = unat c + n'"
      using hops unfolding first_on_shortest_def by blast
    then have "c = 999999"
      using link_costs_open [where c = c and brk = "link_breakers rt", OF assms(5,6)]
      by (simp add: seen_costs_def inflated_def)
    with c(2) vn(2) show False by simp
  qed
  with run show ?thesis by blast
qed

lemma open_link_avoided_witness:
  "\<exists>rt' clk'. compute_routes rev
     (router_one\<lparr>link_breakers := [2 \<mapsto> \<lparr>cb_state = Open, failure_threshold = 3,
        recovery_timeout_ms = 5000, failure_count = 0, success_count = 0, last_state_change = 0\<rparr>]\<rparr>)
     triangle test_ips test_masks (\<lambda>_. 1000000) = Some (rt', clk') \<and>
    list_all (\<lambda>e. next_hop_id e \<noteq> 2) (routing_table rt')"
  unfolding list_all_iff
proof (rule open_link_avoided)
  let ?cb = "\<lparr>cb_state = Open, failure_threshold = 3, recovery_timeout_ms = 5000,
      failure_count = 0, success_count = 0, last_state_change = 0\<rparr>"
  let ?rt = "router_one\<lparr>link_breakers := [2 \<mapsto> ?cb]\<rparr>"
  show "closed_topology triangle" "no_overflow triangle" using triangle_ok by simp_all
  show "node_id (router_node ?rt) \<in> fst ` set triangle" by (simp add: triangle_def)
  show "\<forall>xs. mset (rev xs) = mset xs" by simp
  show "link_breakers ?rt 2 = Some ?cb" by simp
  show "open_throughout ?cb (\<lambda>_. 1000000)"
    by (simp add: open_throughout_def to_milliseconds_nonneg)
qed

subsection \<open>Outside the hypotheses\<close>

text \<open>A walk along parents that stay in a set without the source never ends.\<close>

lemma first_hop_cycle:
  assumes "\<forall>x \<in> A. \<exists>p \<in> A. par x = Some p \<and> p \<noteq> s" and "x \<in> A"
  shows "first_hop s par x = None"
proof -
  have "src = s \<longrightarrow> pr = par \<longrightarrow> x \<notin> A" if "first_hop src pr x = Some y" for src pr x y
  proof (rule first_hop.raw_induct [OF _ that])
    fix hop :: "u32 \<Rightarrow> (u32 \<rightharpoonup> u32) \<Rightarrow> u32 \<Rightarrow> u32 option" and src pr x y
    assume hop: "\<And>src pr x y. hop src pr x = Some y \<Longrightarrow> src = s \<longrightarrow> pr = par \<longrightarrow> x \<notin> A"
      and step: "(case pr x of None \<Rightarrow> Some x
        | Some p \<Rightarrow> if p \<noteq> src then hop src pr p else Some x) = Some y"
    show "src = s \<longrightarrow> pr = par \<longrightarrow> x \<notin> A"
    proof (intro impI notI)
      assume *: "src = s" "pr = par" "x \<in> A"
      then obtain p where "p \<in> A" "par x = Some p" "p \<noteq> s" using assms(1) by blast
      with * step hop [of s par p y] show False by simp
    qed
  qed
  with assms(2) show ?thesis by (cases "first_hop s par x") auto
qed

text \<open>Evaluating the loop on small topologies.\<close>

lemmas search_eval =
  search_loop.simps visit_def relax_edge_def relax_to_def link_cost_def subscript_def
  heap_empty_def heap_top_def heap_pop_def heap_push_def search_init_def compute_routes_def

text \<open>Node 2's neighbour 9 is not a key of this topology.\<close>

definition open_graph :: topology where
  "open_graph = [(1, [(2, 10)]), (2, [(1, 10), (9, 7)])]"

text \<open>A neighbour that is not a key of the topology gets a route although no distance to it was
  computed: \<open>distances[v]\<close> inserts 0, so the table has an entry of metric 0 whose next hop is
  the neighbour itself, here node 9, which is two hops away from the router.\<close>

theorem phantom_route:
  "\<exists>rt'. compute_routes (\<lambda>xs. xs) router_one open_graph
      [1 \<mapsto> IPv4Address 0x0A000001, 2 \<mapsto> IPv4Address 0x0A000002, 9 \<mapsto> IPv4Address 0x0A000909]
      [1 \<mapsto> SubnetMask 0xFFFFFF00, 2 \<mapsto> SubnetMask 0xFFFFFF00, 9 \<mapsto> SubnetMask 0xFFFFFF00] clk =
        Some (rt', clk) \<and>
    map (\<lambda>e. (next_hop_id e, metric e)) (routing_table rt') = [(2, 10), (9, 0)]"
  by (simp add: search_eval open_graph_def router_one_def router_new_def node_new_def first_hop.simps)

text \<open>The costs of this topology wrap: 10 + (2^32 - 9) is 1.\<close>

definition wrapping_graph :: topology where
  "wrapping_graph = [(1, [(2, 10)]), (2, [(3, 4294967287)]), (3, [(2, 1)])]"

text \<open>When a path cost wraps the parents can form a cycle, and then \<open>compute_routes\<close> does not return,
  whatever the addresses are.\<close>

theorem compute_routes_diverges:
  "compute_routes (\<lambda>xs. xs) router_one wrapping_graph ips ms clk = None"
proof -
  have *: "first_hop 1 (Map.empty(2 \<mapsto> 1, 3 \<mapsto> 2, 2 \<mapsto> 3)) x = None" if "x \<in> {2, 3}" for x
    using that by (intro first_hop_cycle [of "{2, 3}"]) auto
  show ?thesis
    using * [of 2]
    by (simp add: search_eval wrapping_graph_def router_one_def router_new_def node_new_def)
qed

end
