(* ===== verification/HttpSim.thy ===== *)
theory HttpSim
  imports Packet
begin

text \<open>
  The incremental HTTP parser: \<^verbatim>\<open>include/protocols/http_sim.hpp\<close> and
  \<^verbatim>\<open>src/protocols/http_sim.cpp\<close>, one step per byte, with the two library calls that can fail: \<open>std::stoul\<close>,
  whose exceptions the parser catches, and \<open>vector::reserve\<close>, whose exceptions it does not. Whether the
  allocator can provide a buffer of \<open>n\<close> bytes is the parameter \<open>alloc\<close>. The facts: how
  the bytes are cut into chunks does not matter; a rendered request is parsed back; the body never exceeds the
  announced length; \<open>Complete\<close> and \<open>Error\<close> absorb every byte; and the header
  \<open>Content-Length: -1\<close> makes an exception leave the parser.
\<close>

section \<open>Definitions\<close>

datatype http_state =
  Method | Uri | Version | HeaderKey | HeaderValue | ExpectValueLF | ExpectBodyLF | Body | Complete | Error

record http_request =
  req_method :: string
  req_uri :: string
  req_version :: string
  req_headers :: "string \<rightharpoonup> string"
  req_body :: "u8 list"

record http_sim =
  hstate :: http_state
  request :: http_request
  current_token :: string
  current_key :: string
  content_length :: u64
  body_bytes_read :: u64

definition request_empty :: http_request where
  "request_empty = \<lparr>req_method = [], req_uri = [], req_version = [], req_headers = Map.empty, req_body = []\<rparr>"

definition http_reset :: "http_sim \<Rightarrow> http_sim" where
  "http_reset sim =
     \<lparr>hstate = Method, request = request_empty, current_token = [], current_key = [],
      content_length = 0, body_bytes_read = 0\<rparr>"

definition http_new :: http_sim where
  "http_new =
     \<lparr>hstate = Method, request = request_empty, current_token = [], current_key = [],
      content_length = 0, body_bytes_read = 0\<rparr>"

text \<open>Exceptions that leave the parser.\<close>

datatype http_exception = LengthError | OutOfMemory

text \<open>\<open>std::stoul\<close> in base 10: white space, an optional sign, digits; what follows is ignored. A
  minus sign negates the unsigned result.\<close>

datatype stoul_error = InvalidArgument | StoulOutOfRange

definition is_space :: "char \<Rightarrow> bool" where
  "is_space c \<longleftrightarrow> (of_char c :: nat) = 32 \<or> 9 \<le> (of_char c :: nat) \<and> (of_char c :: nat) \<le> 13"

definition stoul :: "string \<Rightarrow> stoul_error + u64" where
  "stoul s =
     (let s = dropWhile is_space s;
          (negative, digits) =
            (case s of
               [] \<Rightarrow> (False, s)
             | c # r \<Rightarrow> if c = CHR ''-'' then (True, r) else if c = CHR ''+'' then (False, r)
                 else (False, s));
          ds = takeWhile is_digit digits
      in if ds = [] then Inl InvalidArgument
         else if 2 ^ 64 \<le> dec_value ds then Inl StoulOutOfRange
         else Inr (if negative then - of_nat (dec_value ds) else of_nat (dec_value ds)))"

text \<open>\<open>reserve\<close> on an empty byte vector: \<open>length_error\<close> above \<open>max_size() = 2^63 - 1\<close>.\<close>

definition reserve :: "(nat \<Rightarrow> bool) \<Rightarrow> u64 \<Rightarrow> http_exception option" where
  "reserve alloc n =
     (if 9223372036854775807 < n then Some LengthError
      else if \<not> alloc (unat n) then Some OutOfMemory else None)"

definition push_token :: "char \<Rightarrow> http_sim \<Rightarrow> http_sim" where
  "push_token ch sim = sim\<lparr>current_token := current_token sim @ [ch]\<rparr>"

text \<open>The body of the loop of \<open>parse_chunk\<close>: the switch on the state.\<close>

definition http_step :: "(nat \<Rightarrow> bool) \<Rightarrow> u8 \<Rightarrow> http_sim \<Rightarrow> http_exception + http_sim" where
  "http_step alloc byte sim =
     (let ch = char_of_byte byte; req = request sim in
      case hstate sim of
        Method \<Rightarrow>
          if ch = CHR '' '' then
            Inr (sim\<lparr>hstate := Uri, request := req\<lparr>req_method := current_token sim\<rparr>, current_token := []\<rparr>)
          else Inr (push_token ch sim)
      | Uri \<Rightarrow>
          if ch = CHR '' '' then
            Inr (sim\<lparr>hstate := Version, request := req\<lparr>req_uri := current_token sim\<rparr>, current_token := []\<rparr>)
          else Inr (push_token ch sim)
      | Version \<Rightarrow>
          if ch = CHR 0x0D then Inr sim
          else if ch = CHR 0x0A then
            Inr (sim\<lparr>hstate := HeaderKey, request := req\<lparr>req_version := current_token sim\<rparr>,
                     current_token := []\<rparr>)
          else Inr (push_token ch sim)
      | HeaderKey \<Rightarrow>
          if ch = CHR 0x0D then Inr (sim\<lparr>hstate := ExpectBodyLF, current_token := []\<rparr>)
          else if ch = CHR '':'' then
            Inr (sim\<lparr>hstate := HeaderValue, current_token := [], current_key := current_token sim\<rparr>)
          else Inr (push_token ch sim)
      | HeaderValue \<Rightarrow>
          if ch = CHR '' '' \<and> current_token sim = [] then Inr sim
          else if ch = CHR 0x0D then Inr (sim\<lparr>hstate := ExpectValueLF\<rparr>)
          else Inr (push_token ch sim)
      | ExpectValueLF \<Rightarrow>
          if ch = CHR 0x0A then
            (let sim = sim\<lparr>request :=
                   req\<lparr>req_headers := (req_headers req)(current_key sim \<mapsto> current_token sim)\<rparr>\<rparr>;
                 next_header = (\<lambda>sim. Inr (sim\<lparr>hstate := HeaderKey, current_token := [], current_key := []\<rparr>))
             in if current_key sim = ''Content-Length'' then
                  (case stoul (current_token sim) of
                     Inl _ \<Rightarrow> Inr (sim\<lparr>hstate := Error\<rparr>)
                   | Inr n \<Rightarrow> next_header (sim\<lparr>content_length := n\<rparr>))
                else next_header sim)
          else Inr (sim\<lparr>hstate := Error\<rparr>)
      | ExpectBodyLF \<Rightarrow>
          if ch = CHR 0x0A then
            if 0 < content_length sim then
              (case reserve alloc (content_length sim) of
                 Some e \<Rightarrow> Inl e
               | None \<Rightarrow> Inr (sim\<lparr>hstate := Body\<rparr>))
            else Inr (sim\<lparr>hstate := Complete\<rparr>)
          else Inr (sim\<lparr>hstate := Error\<rparr>)
      | Body \<Rightarrow>
          (let sim = sim\<lparr>request := req\<lparr>req_body := req_body req @ [byte]\<rparr>,
                         body_bytes_read := body_bytes_read sim + 1\<rparr>
           in Inr (if content_length sim \<le> body_bytes_read sim then sim\<lparr>hstate := Complete\<rparr> else sim))
      | Complete \<Rightarrow> Inr sim
      | Error \<Rightarrow> Inr sim)"

fun http_feed :: "(nat \<Rightarrow> bool) \<Rightarrow> u8 list \<Rightarrow> http_sim \<Rightarrow> http_exception + http_sim" where
  "http_feed alloc [] sim = Inr sim"
| "http_feed alloc (byte # chunk) sim =
     (case http_step alloc byte sim of Inl e \<Rightarrow> Inl e | Inr sim \<Rightarrow> http_feed alloc chunk sim)"

definition parse_chunk ::
    "(nat \<Rightarrow> bool) \<Rightarrow> u8 list \<Rightarrow> http_sim \<Rightarrow> http_exception + bool \<times> http_sim" where
  "parse_chunk alloc chunk sim =
     (case http_feed alloc chunk sim of
        Inl e \<Rightarrow> Inl e
      | Inr sim \<Rightarrow> Inr (hstate sim = Complete, sim))"

text \<open>Feeding chunk after chunk; the answer is that of the last chunk.\<close>

fun parse_chunks ::
    "(nat \<Rightarrow> bool) \<Rightarrow> u8 list list \<Rightarrow> http_sim \<Rightarrow> http_exception + bool \<times> http_sim" where
  "parse_chunks alloc [] sim = Inr (hstate sim = Complete, sim)"
| "parse_chunks alloc (c # cs) sim =
     (case parse_chunk alloc c sim of Inl e \<Rightarrow> Inl e | Inr (_, sim) \<Rightarrow> parse_chunks alloc cs sim)"

section \<open>Chunks\<close>

lemma http_feed_append:
  "http_feed alloc (a @ b) sim =
     (case http_feed alloc a sim of Inl e \<Rightarrow> Inl e | Inr sim \<Rightarrow> http_feed alloc b sim)"
  by (induction a arbitrary: sim) (auto split: sum.split)

text \<open>C22 Fragmentation does not matter: feeding a stream in any sequence of chunks (empty ones
  included) gives the answer, the parser state or the exception that feeding it at once gives.\<close>

theorem parse_chunks_concat: "parse_chunks alloc cs sim = parse_chunk alloc (concat cs) sim"
proof (induction cs arbitrary: sim)
  case Nil
  show ?case by (simp add: parse_chunk_def)
next
  case (Cons c cs)
  then show ?case by (simp add: parse_chunk_def http_feed_append split: sum.split)
qed

lemma feed_absorbed: "hstate sim \<in> {Complete, Error} \<Longrightarrow> http_feed alloc bytes sim = Inr sim"
  by (induction bytes) (auto simp: http_step_def Let_def)

text \<open>\<open>Complete\<close> and \<open>Error\<close> absorb: all bytes behind a complete request are
  dropped, so of two requests that arrive in one chunk the second is lost; and after a malformed request
  nothing is parsed until a \<open>reset\<close>.\<close>

theorem bytes_after_complete_dropped:
  assumes "http_feed alloc bytes sim = Inr sim'" and "hstate sim' \<in> {Complete, Error}"
  shows "parse_chunk alloc (bytes @ later) sim = parse_chunk alloc bytes sim"
  using assms by (simp add: parse_chunk_def http_feed_append feed_absorbed)

lemma bytes_after_complete_dropped_witness:
  "parse_chunk (\<lambda>_. True) ([71, 10, 65] @ [66]) (http_new\<lparr>hstate := ExpectBodyLF\<rparr>) =
   parse_chunk (\<lambda>_. True) [71, 10, 65] (http_new\<lparr>hstate := ExpectBodyLF\<rparr>)"
  by (rule bytes_after_complete_dropped [where sim' = "http_new\<lparr>hstate := Error\<rparr>"])
    (simp_all add: http_step_def Let_def http_new_def char_of_byte_eq_iff byte_of_char_def)

section \<open>Well-formed states\<close>

text \<open>The body read so far is counted, and shorter than announced until the request is complete.\<close>

definition http_inv :: "http_sim \<Rightarrow> bool" where
  "http_inv sim \<longleftrightarrow>
     unat (body_bytes_read sim) = length (req_body (request sim)) \<and>
     (case hstate sim of
        Body \<Rightarrow> length (req_body (request sim)) < unat (content_length sim)
      | Complete \<Rightarrow> length (req_body (request sim)) = unat (content_length sim)
      | Error \<Rightarrow> True
      | _ \<Rightarrow> req_body (request sim) = [])"

lemma http_inv_new: "http_inv http_new"
  by (simp add: http_inv_def http_new_def request_empty_def)

lemma http_inv_body:
  assumes inv: "http_inv sim" and body: "hstate sim = Body"
    and sim': "http_step alloc b sim = Inr sim'"
  shows "http_inv sim'"
proof -
  let ?n = "body_bytes_read sim"
  have n: "unat ?n = length (req_body (request sim))" "?n < content_length sim"
    using inv body by (simp_all add: http_inv_def word_less_nat_alt)
  have suc: "unat (?n + 1) = unat ?n + 1" by (rule unat_Suc_less [OF n(2)])
  then have le: "content_length sim \<le> ?n + 1 \<longleftrightarrow> unat (content_length sim) \<le> unat ?n + 1"
    by (simp add: word_le_nat_alt)
  have "unat ?n < unat (content_length sim)" using n(2) by (simp add: word_less_nat_alt)
  then show ?thesis
    using sim' body n(1) suc le by (auto simp: http_step_def http_inv_def Let_def)
qed

lemma http_inv_step:
  assumes "http_inv sim" and "http_step alloc b sim = Inr sim'"
  shows "http_inv sim'"
proof (cases "hstate sim = Body")
  case True
  show ?thesis by (rule http_inv_body [OF assms(1) True assms(2)])
next
  case False
  then show ?thesis
    using assms by (auto simp: http_step_def http_inv_def Let_def push_token_def word_less_nat_alt
        split: http_state.splits if_splits sum.splits option.splits)
qed

lemma http_inv_feed:
  "http_inv sim \<Longrightarrow> http_feed alloc bytes sim = Inr sim' \<Longrightarrow> http_inv sim'"
  by (induction bytes arbitrary: sim) (auto split: sum.splits dest: http_inv_step)

text \<open>For every input: the body that a new parser has collected never exceeds the announced
  \<open>Content-Length\<close>, and is exactly that long when \<open>parse_chunk\<close> answers true.\<close>

theorem http_body_length:
  assumes "parse_chunk alloc bytes http_new = Inr (done, sim)" and "hstate sim \<noteq> Error"
  shows "length (req_body (request sim)) \<le> unat (content_length sim) \<and>
    (done \<longrightarrow> length (req_body (request sim)) = unat (content_length sim))"
proof -
  have "http_inv sim" "done = (hstate sim = Complete)"
    using assms http_inv_feed [OF http_inv_new] by (auto simp: parse_chunk_def split: sum.splits)
  with assms(2) show ?thesis by (auto simp: http_inv_def split: http_state.splits)
qed

section \<open>Exceptions\<close>

lemma http_step_exception:
  "http_step alloc b sim = Inl e \<longleftrightarrow>
     hstate sim = ExpectBodyLF \<and> char_of_byte b = CHR 0x0A \<and> 0 < content_length sim \<and>
     reserve alloc (content_length sim) = Some e"
  by (auto simp: http_step_def Let_def split: http_state.splits if_splits sum.splits option.splits)

text \<open>Exceptions leave \<open>parse_chunk\<close> only from \<open>reserve\<close>: when the announced body length
  exceeds \<open>2^63 - 1\<close> or the allocator cannot provide it. A malformed length never does.\<close>

theorem parse_chunk_exception:
  assumes "parse_chunk alloc bytes sim = Inl e"
  shows "\<exists>pre b post sim'. bytes = pre @ b # post \<and> http_feed alloc pre sim = Inr sim' \<and>
    hstate sim' = ExpectBodyLF \<and>
    (e = LengthError \<and> 2 ^ 63 \<le> unat (content_length sim') \<or>
     e = OutOfMemory \<and> \<not> alloc (unat (content_length sim')))"
proof -
  have "http_feed alloc bytes sim = Inl e" using assms by (simp add: parse_chunk_def split: sum.splits)
  then show ?thesis
  proof (induction bytes arbitrary: sim)
    case (Cons b bytes)
    show ?case
    proof (cases "http_step alloc b sim")
      case (Inl e')
      then have "hstate sim = ExpectBodyLF" "reserve alloc (content_length sim) = Some e"
        using Cons.prems http_step_exception [of alloc b sim e'] by (simp_all add: Inl)
      then show ?thesis
        by (intro exI [of _ "[]"] exI [of _ b] exI [of _ bytes] exI [of _ sim])
          (auto simp: reserve_def word_less_nat_alt split: if_splits)
    next
      case (Inr sim1)
      then have "http_feed alloc bytes sim1 = Inl e" using Cons.prems by simp
      from Cons.IH [OF this] obtain pre b' post sim' where
        "bytes = pre @ b' # post" "http_feed alloc pre sim1 = Inr sim'" "hstate sim' = ExpectBodyLF"
        "e = LengthError \<and> 2 ^ 63 \<le> unat (content_length sim') \<or>
         e = OutOfMemory \<and> \<not> alloc (unat (content_length sim'))" by blast
      then show ?thesis
        by (intro exI [of _ "b # pre"] exI [of _ b'] exI [of _ post] exI [of _ sim']) (simp add: Inr)
    qed
  qed simp
qed

section \<open>Rendered requests\<close>

abbreviation CRLF :: string where
  "CRLF \<equiv> [CHR 0x0D, CHR 0x0A]"

definition render_header :: "string \<times> string \<Rightarrow> string" where
  "render_header h = fst h @ '': '' @ snd h @ CRLF"

definition render_request ::
    "string \<Rightarrow> string \<Rightarrow> string \<Rightarrow> (string \<times> string) list \<Rightarrow> u8 list \<Rightarrow> u8 list" where
  "render_request m u v hs body =
     map byte_of_char
       (m @ '' '' @ u @ '' '' @ v @ CRLF @
        concat (map render_header (hs @ [(''Content-Length'', std_to_string (length body))])) @ CRLF) @
     body"

definition header_ok :: "string \<times> string \<Rightarrow> bool" where
  "header_ok h \<longleftrightarrow> CHR 0x0D \<notin> set (fst h) \<and> CHR '':'' \<notin> set (fst h) \<and> fst h \<noteq> ''Content-Length'' \<and>
     CHR 0x0D \<notin> set (snd h) \<and> (snd h = [] \<or> hd (snd h) \<noteq> CHR '' '')"

lemma feed_Cons [simp]:
  "http_feed alloc (map byte_of_char (c # s)) sim =
     (case http_step alloc (byte_of_char c) sim of
        Inl e \<Rightarrow> Inl e | Inr sim \<Rightarrow> http_feed alloc (map byte_of_char s) sim)"
  by simp

lemma feed_then:
  "http_feed alloc (map byte_of_char a) sim = Inr sim' \<Longrightarrow>
     http_feed alloc (map byte_of_char (a @ b)) sim = http_feed alloc (map byte_of_char b) sim'"
  by (simp add: http_feed_append)

text \<open>The characters that a state collects.\<close>

fun collects :: "http_state \<Rightarrow> string \<Rightarrow> char \<Rightarrow> bool" where
  "collects Method tok c = (c \<noteq> CHR '' '')"
| "collects Uri tok c = (c \<noteq> CHR '' '')"
| "collects Version tok c = (c \<noteq> CHR 0x0D \<and> c \<noteq> CHR 0x0A)"
| "collects HeaderKey tok c = (c \<noteq> CHR 0x0D \<and> c \<noteq> CHR '':'')"
| "collects HeaderValue tok c = (c \<noteq> CHR 0x0D \<and> (c \<noteq> CHR '' '' \<or> tok \<noteq> []))"
| "collects _ tok c = False"

lemma step_collects:
  "collects (hstate sim) (current_token sim) c \<Longrightarrow>
     http_step alloc (byte_of_char c) sim = Inr (push_token c sim)"
  by (cases "hstate sim") (auto simp: http_step_def Let_def)

lemma hd_other: "x \<notin> set s \<Longrightarrow> s \<noteq> [] \<Longrightarrow> hd s \<noteq> x"
  by (cases s) auto

lemma feed_collects:
  assumes "\<forall>c \<in> set s. collects (hstate sim) ''x'' c"
    and "s = [] \<or> collects (hstate sim) (current_token sim) (hd s)"
  shows "http_feed alloc (map byte_of_char s) sim =
    Inr (sim\<lparr>current_token := current_token sim @ s\<rparr>)"
  using assms
proof (induction s arbitrary: sim)
  case (Cons c s)
  have later: "collects (hstate sim) ''x'' d \<Longrightarrow> collects (hstate sim) (current_token sim @ [c]) d" for d
    by (cases "hstate sim") auto
  have "http_feed alloc (map byte_of_char s) (push_token c sim) =
      Inr ((push_token c sim)\<lparr>current_token := current_token (push_token c sim) @ s\<rparr>)"
    using Cons.prems(1) later by (intro Cons.IH) (cases s; simp add: push_token_def)+
  then show ?case using Cons.prems by (simp add: step_collects) (simp add: push_token_def)
qed simp

lemma stoul_to_string: "n < 2 ^ 64 \<Longrightarrow> stoul (std_to_string n) = Inr (of_nat n)"
proof -
  assume n: "n < 2 ^ 64"
  obtain c r where s: "std_to_string n = c # r" by (cases "std_to_string n") auto
  have digits: "\<forall>d \<in> set (std_to_string n). is_digit d"
    using digits_to_string [of n] by (simp add: list_all_iff)
  then have c: "is_digit c" by (simp add: s)
  then have "\<not> is_space c" "c \<noteq> CHR ''-''" "c \<noteq> CHR ''+''" by (auto simp: is_digit_def is_space_def)
  moreover have "takeWhile is_digit (std_to_string n) = std_to_string n"
    using digits by (simp add: takeWhile_eq_all_conv)
  ultimately show ?thesis using n dec_value_to_string [of n] by (simp add: stoul_def s)
qed

text \<open>The request line, a header, and the body.\<close>

lemma feed_line:
  assumes "CHR '' '' \<notin> set m" and "CHR '' '' \<notin> set u" and "CHR 0x0D \<notin> set v" and "CHR 0x0A \<notin> set v"
  shows "http_feed alloc (map byte_of_char (m @ '' '' @ u @ '' '' @ v @ CRLF)) http_new =
    Inr (http_new\<lparr>hstate := HeaderKey,
      request := request_empty\<lparr>req_method := m, req_uri := u, req_version := v\<rparr>\<rparr>)"
proof -
  have m: "http_feed alloc (map byte_of_char m) http_new = Inr (http_new\<lparr>current_token := m\<rparr>)"
    using assms(1) by (subst feed_collects) (auto simp: http_new_def hd_other)
  let ?s1 = "http_new\<lparr>hstate := Uri, request := request_empty\<lparr>req_method := m\<rparr>\<rparr>"
  have u: "http_feed alloc (map byte_of_char u) ?s1 = Inr (?s1\<lparr>current_token := u\<rparr>)"
    using assms(2) by (subst feed_collects) (auto simp: http_new_def hd_other)
  let ?s2 = "http_new\<lparr>hstate := Version, request := request_empty\<lparr>req_method := m, req_uri := u\<rparr>\<rparr>"
  have v: "http_feed alloc (map byte_of_char v) ?s2 = Inr (?s2\<lparr>current_token := v\<rparr>)"
    using assms(3,4) by (subst feed_collects) (auto simp: http_new_def hd_other)
  have 1: "http_step alloc (byte_of_char (CHR '' '')) (http_new\<lparr>current_token := m\<rparr>) = Inr ?s1"
    by (simp add: http_step_def http_new_def)
  have 2: "http_step alloc (byte_of_char (CHR '' '')) (?s1\<lparr>current_token := u\<rparr>) = Inr ?s2"
    by (simp add: http_step_def http_new_def)
  have 3: "http_feed alloc (map byte_of_char CRLF) (?s2\<lparr>current_token := v\<rparr>) =
      Inr (?s2\<lparr>hstate := HeaderKey, request := request_empty\<lparr>req_method := m, req_uri := u, req_version := v\<rparr>\<rparr>)"
    by (simp add: http_step_def http_new_def)
  show ?thesis
    using 3 by (simp add: http_feed_append m u v 1 2)
qed

lemma feed_header:
  assumes "CHR 0x0D \<notin> set k" "CHR '':'' \<notin> set k" "CHR 0x0D \<notin> set w" "w = [] \<or> hd w \<noteq> CHR '' ''"
    and st: "hstate sim = HeaderKey" "current_token sim = []"
    and len: "k = ''Content-Length'' \<Longrightarrow> stoul w = Inr n"
  shows "http_feed alloc (map byte_of_char (render_header (k, w))) sim =
    Inr (sim\<lparr>current_key := [],
      request := (request sim)\<lparr>req_headers := (req_headers (request sim))(k \<mapsto> w)\<rparr>,
      content_length := if k = ''Content-Length'' then n else content_length sim\<rparr>)"
proof -
  have 1: "http_feed alloc (map byte_of_char k) sim = Inr (sim\<lparr>current_token := k\<rparr>)"
    using assms(1,2) st by (subst feed_collects) (auto simp: hd_other)
  let ?s1 = "sim\<lparr>hstate := HeaderValue, current_key := k\<rparr>"
  have 2: "http_feed alloc (map byte_of_char '': '') (sim\<lparr>current_token := k\<rparr>) = Inr ?s1"
    using st by (simp add: http_step_def)
  have 3: "http_feed alloc (map byte_of_char w) ?s1 = Inr (?s1\<lparr>current_token := w\<rparr>)"
    using assms(3,4) st by (subst feed_collects) (auto simp: hd_other)
  have 4: "http_feed alloc (map byte_of_char CRLF) (?s1\<lparr>current_token := w\<rparr>) = 
    Inr (sim\<lparr>current_key := [],
      request := (request sim)\<lparr>req_headers := (req_headers (request sim))(k \<mapsto> w)\<rparr>,
      content_length := if k = ''Content-Length'' then n else content_length sim\<rparr>)"
    using st len by (cases sim) (simp add: http_step_def Let_def)
  show ?thesis
    unfolding render_header_def fst_conv snd_conv
    by (simp only: feed_then [OF 1] feed_then [OF 2] feed_then [OF 3] 4)
qed

lemma feed_headers:
  assumes "\<forall>h \<in> set hs. header_ok h" and "hstate sim = HeaderKey" and "current_token sim = []"
    and "current_key sim = []"
  shows "http_feed alloc (map byte_of_char (concat (map render_header hs))) sim =
    Inr (sim\<lparr>request := (request sim)\<lparr>req_headers := req_headers (request sim) ++ map_of (rev hs)\<rparr>\<rparr>)"
  using assms
proof (induction hs arbitrary: sim)
  case (Cons h hs)
  obtain k w where h: "h = (k, w)" by fastforce
  let ?s = "sim\<lparr>current_key := [],
      request := (request sim)\<lparr>req_headers := (req_headers (request sim))(k \<mapsto> w)\<rparr>,
      content_length := content_length sim\<rparr>"
  have 1: "http_feed alloc (map byte_of_char (render_header h)) sim = Inr ?s"
    using feed_header [of k w sim _ alloc] Cons.prems by (simp add: h header_ok_def)
  have 2: "http_feed alloc (map byte_of_char (concat (map render_header hs))) ?s =
      Inr (?s\<lparr>request := (request ?s)\<lparr>req_headers := req_headers (request ?s) ++ map_of (rev hs)\<rparr>\<rparr>)"
    using Cons.prems by (intro Cons.IH) simp_all
  have "http_feed alloc (map byte_of_char (concat (map render_header (h # hs)))) sim =
      Inr (?s\<lparr>request := (request ?s)\<lparr>req_headers := req_headers (request ?s) ++ map_of (rev hs)\<rparr>\<rparr>)"
    using feed_then [OF 1] 2 by simp
  also have "\<dots> = Inr (sim\<lparr>request := (request sim)\<lparr>req_headers :=
      req_headers (request sim) ++ map_of (rev (h # hs))\<rparr>\<rparr>)"
    using Cons.prems(4) by (cases sim) (simp add: h map_add_upd_left)
  finally show ?case .
qed simp

lemma feed_body:
  assumes "hstate sim = Body" and "bs \<noteq> []"
    and "unat (content_length sim) = unat (body_bytes_read sim) + length bs"
  shows "http_feed alloc bs sim = Inr (sim\<lparr>hstate := Complete,
    request := (request sim)\<lparr>req_body := req_body (request sim) @ bs\<rparr>,
    body_bytes_read := content_length sim\<rparr>)"
  using assms
proof (induction bs arbitrary: sim)
  case (Cons b bs)
  let ?n = "body_bytes_read sim"
  have "?n < content_length sim" using Cons.prems by (simp add: word_less_nat_alt)
  then have suc: "unat (?n + 1) = unat ?n + 1" by (rule unat_Suc_less)
  let ?s = "sim\<lparr>request := (request sim)\<lparr>req_body := req_body (request sim) @ [b]\<rparr>, body_bytes_read := ?n + 1\<rparr>"
  show ?case
  proof (cases "bs = []")
    case True
    then have "content_length sim = ?n + 1"
      using Cons.prems suc by (simp add: word_unat_eq_iff)
    with True Cons.prems show ?thesis by (simp add: http_step_def Let_def)
  next
    case False
    then have "\<not> content_length sim \<le> ?n + 1"
      using Cons.prems suc by (simp add: word_le_nat_alt)
    then have "http_step alloc b sim = Inr ?s"
      using Cons.prems by (simp add: http_step_def Let_def)
    moreover have "http_feed alloc bs ?s = Inr (?s\<lparr>hstate := Complete,
        request := (request ?s)\<lparr>req_body := req_body (request ?s) @ bs\<rparr>,
        body_bytes_read := content_length ?s\<rparr>)"
      using Cons.prems suc False by (intro Cons.IH) simp_all
    ultimately show ?thesis by simp
  qed
qed simp

text \<open>The head of a request: headers before and behind the length \<open>n\<close>, up to the blank line.\<close>

definition request_head ::
    "string \<Rightarrow> string \<Rightarrow> string \<Rightarrow> (string \<times> string) list \<Rightarrow> nat \<Rightarrow> (string \<times> string) list \<Rightarrow> string" where
  "request_head m u v hs n hs' =
     m @ '' '' @ u @ '' '' @ v @ CRLF @
     concat (map render_header (hs @ (''Content-Length'', std_to_string n) # hs')) @ CRLF"

lemma feed_head:
  assumes "CHR '' '' \<notin> set m" and "CHR '' '' \<notin> set u" and "CHR 0x0D \<notin> set v" and "CHR 0x0A \<notin> set v"
    and "\<forall>h \<in> set hs. header_ok h" and "\<forall>h \<in> set hs'. header_ok h" and "n < 2 ^ 63" and "alloc n"
  shows "\<exists>sim. http_feed alloc (map byte_of_char (request_head m u v hs n hs')) http_new = Inr sim \<and>
    hstate sim = (if n = 0 then Complete else Body) \<and> unat (content_length sim) = n \<and>
    body_bytes_read sim = 0 \<and>
    request sim = \<lparr>req_method = m, req_uri = u, req_version = v,
      req_headers = map_of (rev (hs @ (''Content-Length'', std_to_string n) # hs')), req_body = []\<rparr>"
proof -
  let ?n = "of_nat n :: u64"
  have n: "unat ?n = n" using assms(7) by (simp add: unat_of_nat_small)
  let ?line = "m @ '' '' @ u @ '' '' @ v @ CRLF"
  let ?len = "(''Content-Length'', std_to_string n)"
  let ?s1 = "http_new\<lparr>hstate := HeaderKey,
      request := request_empty\<lparr>req_method := m, req_uri := u, req_version := v\<rparr>\<rparr>"
  let ?s2 = "?s1\<lparr>request := (request ?s1)\<lparr>req_headers := req_headers (request ?s1) ++ map_of (rev hs)\<rparr>\<rparr>"
  let ?s3 = "?s2\<lparr>current_key := [],
      request := (request ?s2)\<lparr>req_headers := (req_headers (request ?s2))(fst ?len \<mapsto> snd ?len)\<rparr>,
      content_length := ?n\<rparr>"
  let ?s4 = "?s3\<lparr>request := (request ?s3)\<lparr>req_headers := req_headers (request ?s3) ++ map_of (rev hs')\<rparr>\<rparr>"
  have 1: "http_feed alloc (map byte_of_char ?line) http_new = Inr ?s1"
    by (rule feed_line [OF assms(1-4)])
  have 2: "http_feed alloc (map byte_of_char (concat (map render_header hs))) ?s1 = Inr ?s2"
    using assms(5) by (intro feed_headers) (simp_all add: http_new_def)
  have digits: "\<forall>d \<in> set (std_to_string n). is_digit d"
    using digits_to_string [of n] by (simp add: list_all_iff)
  then have "CHR 0x0D \<notin> set (std_to_string n)" "CHR '' '' \<notin> set (std_to_string n)"
    by (auto simp: is_digit_def)
  then have 3: "http_feed alloc (map byte_of_char (render_header ?len)) ?s2 = Inr ?s3"
    using assms(7)
    by (subst feed_header [where n = ?n]) (simp_all add: http_new_def hd_other stoul_to_string)
  have 4: "http_feed alloc (map byte_of_char (concat (map render_header hs'))) ?s3 = Inr ?s4"
    using assms(6) by (intro feed_headers) (simp_all add: http_new_def)
  have 5: "http_feed alloc (map byte_of_char CRLF) ?s4 = Inr (?s4\<lparr>hstate := if n = 0 then Complete else Body\<rparr>)"
  proof -
    have pos: "0 < ?n \<longleftrightarrow> n \<noteq> 0" using n by (auto simp: word_less_nat_alt)
    have "reserve alloc ?n = None"
      using assms(7,8) n by (simp add: reserve_def word_less_nat_alt)
    then show ?thesis using pos by (simp add: http_step_def http_new_def)
  qed
  have "request_head m u v hs n hs' = ?line @ concat (map render_header hs) @ render_header ?len @
      concat (map render_header hs') @ CRLF" by (simp add: request_head_def)
  then have "http_feed alloc (map byte_of_char (request_head m u v hs n hs')) http_new =
      Inr (?s4\<lparr>hstate := if n = 0 then Complete else Body\<rparr>)"
    by (simp only: feed_then [OF 1] feed_then [OF 2] feed_then [OF 3] feed_then [OF 4] 5)
  then show ?thesis using n by (simp add: http_new_def request_empty_def)
qed

text \<open>A whole request, and a request that lacks its end.\<close>

lemma parse_request:
  assumes "CHR '' '' \<notin> set m" and "CHR '' '' \<notin> set u" and "CHR 0x0D \<notin> set v" and "CHR 0x0A \<notin> set v"
    and "\<forall>h \<in> set hs. header_ok h" and "\<forall>h \<in> set hs'. header_ok h"
    and "length body < 2 ^ 63" and "alloc (length body)"
  shows "\<exists>sim. parse_chunk alloc (map byte_of_char (request_head m u v hs (length body) hs') @ body) http_new =
      Inr (True, sim) \<and>
    request sim = \<lparr>req_method = m, req_uri = u, req_version = v,
      req_headers = map_of (rev (hs @ (''Content-Length'', std_to_string (length body)) # hs')),
      req_body = body\<rparr>"
proof -
  obtain sim where sim: "http_feed alloc (map byte_of_char (request_head m u v hs (length body) hs')) http_new = Inr sim"
    "hstate sim = (if length body = 0 then Complete else Body)" "unat (content_length sim) = length body"
    "body_bytes_read sim = 0"
    "request sim = \<lparr>req_method = m, req_uri = u, req_version = v,
      req_headers = map_of (rev (hs @ (''Content-Length'', std_to_string (length body)) # hs')), req_body = []\<rparr>"
    using feed_head [where n = "length body" and alloc = alloc, OF assms] by blast
  show ?thesis
  proof (cases "body = []")
    case True
    then show ?thesis using sim by (simp add: parse_chunk_def)
  next
    case False
    then have "http_feed alloc body sim = Inr (sim\<lparr>hstate := Complete,
        request := (request sim)\<lparr>req_body := req_body (request sim) @ body\<rparr>, body_bytes_read := content_length sim\<rparr>)"
      using sim by (intro feed_body) simp_all
    then show ?thesis using sim(1,5) by (simp add: parse_chunk_def http_feed_append)
  qed
qed

lemma feed_body_short:
  assumes "hstate sim = Body" and "unat (body_bytes_read sim) + length bs < unat (content_length sim)"
  shows "\<exists>sim'. http_feed alloc bs sim = Inr sim' \<and> hstate sim' = Body"
  using assms
proof (induction bs arbitrary: sim)
  case (Cons b bs)
  let ?n = "body_bytes_read sim"
  have "?n < content_length sim" using Cons.prems by (simp add: word_less_nat_alt)
  then have suc: "unat (?n + 1) = unat ?n + 1" by (rule unat_Suc_less)
  let ?s = "sim\<lparr>request := (request sim)\<lparr>req_body := req_body (request sim) @ [b]\<rparr>, body_bytes_read := ?n + 1\<rparr>"
  have "\<not> content_length sim \<le> ?n + 1" using Cons.prems suc by (simp add: word_le_nat_alt)
  then have "http_step alloc b sim = Inr ?s" using Cons.prems by (simp add: http_step_def Let_def)
  moreover have "\<exists>sim'. http_feed alloc bs ?s = Inr sim' \<and> hstate sim' = Body"
    using Cons.prems suc by (intro Cons.IH) simp_all
  ultimately show ?case by simp
qed simp

lemma request_incomplete:
  assumes "CHR '' '' \<notin> set m" and "CHR '' '' \<notin> set u" and "CHR 0x0D \<notin> set v" and "CHR 0x0A \<notin> set v"
    and "\<forall>h \<in> set hs. header_ok h" and "\<forall>h \<in> set hs'. header_ok h"
    and "length body < 2 ^ 63" and "alloc (length body)"
    and split: "map byte_of_char (request_head m u v hs (length body) hs') @ body = p @ r"
    and "r \<noteq> []" and "body \<noteq> []"
  shows "\<exists>sim. http_feed alloc p http_new = Inr sim \<and> hstate sim \<noteq> Complete"
proof -
  let ?head = "map byte_of_char (request_head m u v hs (length body) hs')"
  obtain sim where sim: "http_feed alloc ?head http_new = Inr sim" "hstate sim = Body"
    "unat (content_length sim) = length body" "body_bytes_read sim = 0"
    using feed_head [where n = "length body" and alloc = alloc, OF assms(1-8)] assms(11) by auto
  then have "\<exists>sim'. http_feed alloc (butlast body) sim = Inr sim' \<and> hstate sim' = Body"
    using assms(11) by (intro feed_body_short) simp_all
  then obtain sim' where all: "http_feed alloc (?head @ butlast body) http_new = Inr sim'" "hstate sim' = Body"
    using sim(1) by (auto simp: http_feed_append)
  have "?head @ butlast body = butlast (?head @ body)" using assms(11) by (simp add: butlast_append)
  also have "\<dots> = p @ butlast r" using assms(10) unfolding split by (simp add: butlast_append)
  finally have feed: "http_feed alloc (p @ butlast r) http_new = Inr sim'" using all(1) by simp
  then obtain s where s: "http_feed alloc p http_new = Inr s" "http_feed alloc (butlast r) s = Inr sim'"
    by (auto simp: http_feed_append split: sum.splits)
  have "hstate s \<noteq> Complete"
  proof
    assume "hstate s = Complete"
    then have "sim' = s" using s(2) feed_absorbed [of s alloc "butlast r"] by simp
    with \<open>hstate s = Complete\<close> all(2) show False by simp
  qed
  with s(1) show ?thesis by blast
qed

text \<open>C6 Round trip: a rendered request, with a method and URI free of spaces, well-formed headers and
  any body that fits into memory, is accepted, and the parser's request has its method, URI, version, body
  and headers, where the last of several headers with one name counts.\<close>

theorem parse_rendered_request:
  assumes "CHR '' '' \<notin> set m" and "CHR '' '' \<notin> set u" and "CHR 0x0D \<notin> set v" and "CHR 0x0A \<notin> set v"
    and "\<forall>h \<in> set hs. header_ok h" and "length body < 2 ^ 63" and "alloc (length body)"
  shows "\<exists>sim. parse_chunk alloc (render_request m u v hs body) http_new = Inr (True, sim) \<and>
    request sim = \<lparr>req_method = m, req_uri = u, req_version = v,
      req_headers = map_of (rev (hs @ [(''Content-Length'', std_to_string (length body))])),
      req_body = body\<rparr>"
  using parse_request [where hs = hs and hs' = "[]" and body = body and alloc = alloc, OF assms(1-5) _ assms(6,7)]
  by (simp add: render_request_def request_head_def)

text \<open>The request of the fragmentation test in \<^verbatim>\<open>src/main/controller.cpp\<close>.\<close>

lemma parse_rendered_request_witness:
  "\<exists>sim. parse_chunk (\<lambda>_. True) (render_request ''POST'' ''/submit-telemetry'' ''HTTP/1.1''
      [(''Host'', ''localhost:8080'')] (map byte_of_char ''cpu_load=42&temp=61'')) http_new = Inr (True, sim) \<and>
    req_method (request sim) = ''POST'' \<and> req_uri (request sim) = ''/submit-telemetry'' \<and>
    req_body (request sim) = map byte_of_char ''cpu_load=42&temp=61''"
  using parse_rendered_request [of "''POST''" "''/submit-telemetry''" "''HTTP/1.1''"
      "[(''Host'', ''localhost:8080'')]" "map byte_of_char ''cpu_load=42&temp=61''" "\<lambda>_. True"]
  by (auto simp: header_ok_def simp del: list.map)

section \<open>A length that does not fit\<close>

lemma stoul_minus_one: "stoul ''-1'' = Inr (- 1)"
  by (simp add: stoul_def is_space_def is_digit_def dec_value_def digit_val_def)

lemma parse_negative_length:
  assumes "CHR '' '' \<notin> set m" and "CHR '' '' \<notin> set u" and "CHR 0x0D \<notin> set v" and "CHR 0x0A \<notin> set v"
    and "\<forall>h \<in> set hs. header_ok h"
  shows "parse_chunk alloc (map byte_of_char (m @ '' '' @ u @ '' '' @ v @ CRLF @
    concat (map render_header hs) @ ''Content-Length: -1'' @ CRLF @ CRLF)) http_new = Inl LengthError"
proof -
  let ?line = "m @ '' '' @ u @ '' '' @ v @ CRLF"
  let ?s1 = "http_new\<lparr>hstate := HeaderKey,
      request := request_empty\<lparr>req_method := m, req_uri := u, req_version := v\<rparr>\<rparr>"
  let ?s2 = "?s1\<lparr>request := (request ?s1)\<lparr>req_headers := req_headers (request ?s1) ++ map_of (rev hs)\<rparr>\<rparr>"
  let ?len = "(''Content-Length'', ''-1'')"
  let ?s3 = "?s2\<lparr>current_key := [],
      request := (request ?s2)\<lparr>req_headers := (req_headers (request ?s2))(fst ?len \<mapsto> snd ?len)\<rparr>,
      content_length := - 1\<rparr>"
  have 1: "http_feed alloc (map byte_of_char ?line) http_new = Inr ?s1"
    by (rule feed_line [OF assms(1-4)])
  have 2: "http_feed alloc (map byte_of_char (concat (map render_header hs))) ?s1 = Inr ?s2"
    using assms(5) by (intro feed_headers) (simp_all add: http_new_def)
  have 3: "http_feed alloc (map byte_of_char (render_header ?len)) ?s2 = Inr ?s3"
    by (subst feed_header [where n = "- 1"]) (simp_all add: http_new_def stoul_minus_one)
  have 4: "http_feed alloc (map byte_of_char CRLF) ?s3 = Inl LengthError"
    by (simp add: http_step_def http_new_def reserve_def word_greater_zero_iff)
  have "m @ '' '' @ u @ '' '' @ v @ CRLF @ concat (map render_header hs) @ ''Content-Length: -1'' @ CRLF @ CRLF =
      ?line @ concat (map render_header hs) @ render_header ?len @ CRLF"
    by (simp add: render_header_def)
  then show ?thesis
    unfolding parse_chunk_def by (simp only: feed_then [OF 1] feed_then [OF 2] feed_then [OF 3] 4 sum.case)
qed

text \<open>The header \<open>Content-Length: -1\<close> is accepted by \<open>std::stoul\<close> as \<open>2^64 - 1\<close>, and the blank
  line behind it makes \<open>reserve\<close> throw: whatever the allocator can do and whatever the request
  line and the other headers are, a remote client makes \<open>parse_chunk\<close> throw with one request.\<close>

theorem negative_length_throws:
  assumes "CHR '' '' \<notin> set m" and "CHR '' '' \<notin> set u" and "CHR 0x0D \<notin> set v" and "CHR 0x0A \<notin> set v"
    and "\<forall>h \<in> set hs. header_ok h"
  shows "parse_chunk alloc (map byte_of_char (m @ '' '' @ u @ '' '' @ v @ CRLF @
    concat (map render_header hs) @ ''Content-Length: -1'' @ CRLF @ CRLF)) http_new = Inl LengthError"
  by (rule parse_negative_length [OF assms])

lemma negative_length_throws_witness:
  "parse_chunk (\<lambda>_. True) (map byte_of_char (''GET'' @ '' '' @ ''/'' @ '' '' @ ''HTTP/1.1'' @ CRLF @
    concat (map render_header []) @ ''Content-Length: -1'' @ CRLF @ CRLF)) http_new = Inl LengthError"
  by (rule negative_length_throws) simp_all

lemma http_body_length_witness:
  "length (req_body (request http_new)) \<le> unat (content_length http_new)"
  using http_body_length [of "\<lambda>_. True" "[]" False http_new]
  by (simp add: parse_chunk_def http_new_def)

lemma parse_chunk_exception_witness:
  "\<exists>pre b post sim'. [10] = pre @ b # post \<and>
    http_feed (\<lambda>_. False) pre (http_new\<lparr>hstate := ExpectBodyLF, content_length := 5\<rparr>) = Inr sim'"
  using parse_chunk_exception [of "\<lambda>_. False" "[10]"
      "http_new\<lparr>hstate := ExpectBodyLF, content_length := 5\<rparr>" OutOfMemory]
  by (auto simp: parse_chunk_def http_step_def reserve_def char_of_byte_eq_iff byte_of_char_def)

end
