(* ===== verification/EventQueue.thy ===== *)
theory EventQueue
  imports Prelude
begin

text \<open>
  The single-producer single-consumer ring buffer: \<^verbatim>\<open>include/system/event_queue.hpp\<close>, with its two
  64-bit positions that only grow (and wrap). First the operations on their own, as an implementation of the
  interface \<open>bounded_queue\<close>; then the two threads, one step per access to shared memory. The
  acquire/release pairs of the code make every such interleaving an execution in which a slot's
  content is published before the position that hands it over; steps are therefore sequentially
  consistent. The facts: every run is a run of an abstract bounded FIFO, also across the wrap of
  the positions; concurrent calls are linearizable; and the threads never access a slot at the same time.
\<close>

section \<open>Bounded queues\<close>

datatype 'a queue_op = Push 'a | Pop

datatype 'a queue_result = Pushed bool | Popped "'a option"

text \<open>The specification: a list of at most \<open>n\<close> items.\<close>

fun fifo_step :: "nat \<Rightarrow> 'a queue_op \<Rightarrow> 'a list \<Rightarrow> 'a queue_result \<times> 'a list" where
  "fifo_step n (Push x) xs = (if length xs < n then (Pushed True, xs @ [x]) else (Pushed False, xs))"
| "fifo_step n Pop [] = (Popped None, [])"
| "fifo_step n Pop (x # xs) = (Popped (Some x), xs)"

fun fifo_run :: "nat \<Rightarrow> 'a queue_op list \<Rightarrow> 'a list \<Rightarrow> 'a queue_result list \<times> 'a list" where
  "fifo_run n [] xs = ([], xs)"
| "fifo_run n (op # ops) xs =
     (let (r, xs) = fifo_step n op xs; (rs, xs) = fifo_run n ops xs in (r # rs, xs))"

locale bounded_queue =
  fixes enq :: "'a \<Rightarrow> 'q \<Rightarrow> bool \<times> 'q"
    and deq :: "'q \<Rightarrow> 'a option \<times> 'q"
    and items :: "'q \<Rightarrow> 'a list"
    and capacity :: "'q \<Rightarrow> nat"
    and ok :: "'q \<Rightarrow> bool"
  assumes enq_law: "ok q \<Longrightarrow> ok (snd (enq x q)) \<and> capacity (snd (enq x q)) = capacity q \<and>
      (Pushed (fst (enq x q)), items (snd (enq x q))) = fifo_step (capacity q) (Push x) (items q)"
    and deq_law: "ok q \<Longrightarrow> ok (snd (deq q)) \<and> capacity (snd (deq q)) = capacity q \<and>
      (Popped (fst (deq q)), items (snd (deq q))) = fifo_step (capacity q) Pop (items q)"
    and bounded: "ok q \<Longrightarrow> length (items q) \<le> capacity q"
begin

fun exec :: "'a queue_op \<Rightarrow> 'q \<Rightarrow> 'a queue_result \<times> 'q" where
  "exec (Push x) q = (let (b, q) = enq x q in (Pushed b, q))"
| "exec Pop q = (let (x, q) = deq q in (Popped x, q))"

fun execs :: "'a queue_op list \<Rightarrow> 'q \<Rightarrow> 'a queue_result list \<times> 'q" where
  "execs [] q = ([], q)"
| "execs (op # ops) q = (let (r, q) = exec op q; (rs, q) = execs ops q in (r # rs, q))"

lemma exec_refines:
  assumes "ok q"
  shows "ok (snd (exec op q)) \<and> capacity (snd (exec op q)) = capacity q \<and>
    (fst (exec op q), items (snd (exec op q))) = fifo_step (capacity q) op (items q)"
  using assms enq_law deq_law by (cases op) (simp_all add: case_prod_beta)

lemma execs_refine:
  assumes "ok q"
  shows "ok (snd (execs ops q)) \<and>
    fifo_run (capacity q) ops (items q) = (fst (execs ops q), items (snd (execs ops q)))"
  using assms
proof (induction ops arbitrary: q)
  case (Cons op ops)
  obtain r q' where e: "exec op q = (r, q')" by fastforce
  have q': "ok q'" "capacity q' = capacity q" "fifo_step (capacity q) op (items q) = (r, items q')"
    using exec_refines [OF Cons.prems, of op] by (simp_all add: e)
  show ?case using Cons.IH [OF q'(1)] by (simp add: e q'(2,3) case_prod_beta)
qed simp

end

section \<open>The ring buffer\<close>

record 'a ring =
  buffer :: "'a list"
  head_pos :: u64
  tail_pos :: u64

definition ring_new :: "'a list \<Rightarrow> 'a ring" where
  "ring_new buf = \<lparr>buffer = buf, head_pos = 0, tail_pos = 0\<rparr>"

definition ring_capacity :: "'a ring \<Rightarrow> u64" where
  "ring_capacity r = of_nat (length (buffer r))"

text \<open>The array index of a position.\<close>

definition slot :: "'a ring \<Rightarrow> u64 \<Rightarrow> nat" where
  "slot r pos = unat (pos AND (ring_capacity r - 1))"

definition ring_push :: "'a \<Rightarrow> 'a ring \<Rightarrow> bool \<times> 'a ring" where
  "ring_push item r =
     (let current_tail = tail_pos r; current_head = head_pos r in
      if ring_capacity r \<le> current_tail - current_head then (False, r)
      else (True, r\<lparr>buffer := (buffer r)[slot r current_tail := item], tail_pos := current_tail + 1\<rparr>))"

definition ring_pop :: "'a ring \<Rightarrow> 'a option \<times> 'a ring" where
  "ring_pop r =
     (let current_head = head_pos r; current_tail = tail_pos r in
      if current_head = current_tail then (None, r)
      else (Some (buffer r ! slot r current_head), r\<lparr>head_pos := current_head + 1\<rparr>))"

definition ring_size :: "'a ring \<Rightarrow> u64" where
  "ring_size r =
     (let t = tail_pos r; h = head_pos r in if h \<le> t then t - h else 0)"

text \<open>The capacity is a power of two and the positions are at most the capacity apart.\<close>

definition ring_ok :: "'a ring \<Rightarrow> bool" where
  "ring_ok r \<longleftrightarrow> (\<exists>k < 64. length (buffer r) = 2 ^ k) \<and>
     unat (tail_pos r - head_pos r) \<le> length (buffer r)"

definition ring_items :: "'a ring \<Rightarrow> 'a list" where
  "ring_items r =
     map (\<lambda>i. buffer r ! slot r (head_pos r + of_nat i)) [0..<unat (tail_pos r - head_pos r)]"

lemma capacity_unat: "length (buffer r) = 2 ^ k \<Longrightarrow> k < 64 \<Longrightarrow> unat (ring_capacity r) = 2 ^ k"
proof -
  assume k: "length (buffer r) = 2 ^ k" "k < 64"
  then have "length (buffer r) < 2 ^ LENGTH(64)" unfolding k(1) by (intro power_strict_increasing) simp_all
  then show ?thesis unfolding ring_capacity_def k(1) [symmetric] by (rule unat_of_nat_small)
qed

lemma slot_eq:
  assumes "length (buffer r) = 2 ^ k" and "k < 64"
  shows "slot r pos = unat pos mod 2 ^ k"
proof -
  have "ring_capacity r - 1 = mask k"
    using assms by (simp add: ring_capacity_def mask_eq_exp_minus_1)
  then have "slot r pos = unat (take_bit k pos)" by (simp add: slot_def take_bit_eq_mask)
  also have "\<dots> = take_bit k (unat pos)" by (rule unsigned_take_bit_eq)
  finally show ?thesis by (simp only: take_bit_eq_mod)
qed

lemma slot_add:
  assumes "length (buffer r) = 2 ^ k" and "k < 64"
  shows "slot r (pos + of_nat i) = (unat pos + i) mod 2 ^ k"
proof -
  have dvd: "(2::nat) ^ k dvd 2 ^ 64" using assms(2) by (intro le_imp_power_dvd) simp
  have "unat (pos + of_nat i) = (unat pos + i) mod 2 ^ 64"
    by (simp add: unat_word_ariths unat_of_nat mod_simps)
  then show ?thesis using dvd by (simp add: slot_eq [OF assms] mod_mod_cancel)
qed

lemma slot_less: "ring_ok r \<Longrightarrow> slot r pos < length (buffer r)"
  by (auto simp: ring_ok_def slot_eq)

lemma mod_window: "(a + i) mod n = (a + j) mod n \<Longrightarrow> i \<le> j \<Longrightarrow> j < i + n \<Longrightarrow> i = j" for a i j n :: nat
proof -
  assume *: "(a + i) mod n = (a + j) mod n" "i \<le> j" "j < i + n"
  then have "n dvd (a + j) - (a + i)" by (intro mod_eq_dvd_iff_nat [THEN iffD1]) simp_all
  then have "n dvd j - i" by simp
  moreover have "j - i < n" using * by linarith
  ultimately show "i = j" using * by (auto dest: dvd_imp_le)
qed

text \<open>Slots of positions less than a capacity apart are different.\<close>

lemma slot_distinct:
  assumes "ring_ok r" and "i < j" and "j < i + length (buffer r)"
  shows "slot r (pos + of_nat i) \<noteq> slot r (pos + of_nat j)"
proof -
  obtain k where k: "k < 64" "length (buffer r) = 2 ^ k" using assms(1) by (auto simp: ring_ok_def)
  show ?thesis
    using mod_window [of "unat pos" i "2 ^ k" j] assms(2,3) k
    by (auto simp: slot_add [OF k(2,1)])
qed

lemma length_ring_items [simp]: "length (ring_items r) = unat (tail_pos r - head_pos r)"
  by (simp add: ring_items_def)

lemma capacity_eq: "ring_ok r \<Longrightarrow> unat (ring_capacity r) = length (buffer r)"
  by (auto simp: ring_ok_def capacity_unat)

lemma capacity_small: "ring_ok r \<Longrightarrow> length (buffer r) \<le> 2 ^ 63"
proof -
  assume "ring_ok r"
  then obtain k where "k < 64" "length (buffer r) = 2 ^ k" by (auto simp: ring_ok_def)
  moreover from this have "(2::nat) ^ k \<le> 2 ^ 63" by (intro power_increasing) simp_all
  ultimately show ?thesis by metis
qed

lemma slot_upd [simp]:
  "slot (r\<lparr>buffer := (buffer r)[i := x]\<rparr>) = slot r"
  "slot (r\<lparr>tail_pos := t\<rparr>) = slot r" "slot (r\<lparr>head_pos := h\<rparr>) = slot r"
  by (auto simp: slot_def ring_capacity_def fun_eq_iff)

text \<open>The effect of publishing an item and of consuming one.\<close>

lemma ring_publish:
  assumes r: "ring_ok r" and room: "unat (tail_pos r - head_pos r) < length (buffer r)"
  shows "ring_ok (r\<lparr>tail_pos := tail_pos r + 1\<rparr>) \<and>
    ring_items (r\<lparr>tail_pos := tail_pos r + 1\<rparr>) =
      ring_items r @ [buffer r ! slot r (tail_pos r)]"
proof -
  let ?n = "unat (tail_pos r - head_pos r)"
  have "?n + 1 < 2 ^ LENGTH(64)" using capacity_small [OF r] room by simp
  moreover have "tail_pos r + 1 - head_pos r = of_nat (?n + 1)" by simp
  ultimately have n: "unat (tail_pos r + 1 - head_pos r) = ?n + 1"
    by (simp only: unat_of_nat_small)
  have t: "head_pos r + of_nat ?n = tail_pos r" by simp
  show ?thesis
    using r room n t by (simp add: ring_ok_def ring_items_def)
qed

lemma ring_consume:
  assumes r: "ring_ok r" and "head_pos r \<noteq> tail_pos r"
  shows "ring_ok (r\<lparr>head_pos := head_pos r + 1\<rparr>) \<and>
    ring_items r = buffer r ! slot r (head_pos r) # ring_items (r\<lparr>head_pos := head_pos r + 1\<rparr>)"
proof -
  let ?n = "unat (tail_pos r - head_pos r)"
  have "?n \<noteq> 0" using assms(2) by (simp add: unat_eq_0)
  then obtain m where m: "?n = Suc m" using not0_implies_Suc by blast
  have "tail_pos r - (head_pos r + 1) = of_nat m"
  proof -
    have "tail_pos r - head_pos r = of_nat ?n" by simp
    then show ?thesis using m by (simp add: algebra_simps)
  qed
  moreover have "m < 2 ^ LENGTH(64)" using m unsigned_less [of "tail_pos r - head_pos r", where ?'a = nat]
    by simp
  ultimately have n: "unat (tail_pos r - (head_pos r + 1)) = m" by (simp add: unat_of_nat_small)
  have "ring_items r = buffer r ! slot r (head_pos r) #
      map (\<lambda>i. buffer r ! slot r (head_pos r + of_nat (Suc i))) [0..<m]"
    unfolding ring_items_def m by (subst upt_conv_Cons) (simp_all add: map_Suc_upt [symmetric] comp_def del: upt_Suc)
  then show ?thesis
    using r m n by (simp add: ring_ok_def ring_items_def algebra_simps)
qed

lemma ring_write:
  assumes r: "ring_ok r" and room: "unat (tail_pos r - head_pos r) < length (buffer r)"
  shows "ring_ok (r\<lparr>buffer := (buffer r)[slot r (tail_pos r) := x]\<rparr>) \<and>
    ring_items (r\<lparr>buffer := (buffer r)[slot r (tail_pos r) := x]\<rparr>) = ring_items r"
proof -
  let ?n = "unat (tail_pos r - head_pos r)"
  have t: "head_pos r + of_nat ?n = tail_pos r" by simp
  have "slot r (head_pos r + of_nat i) \<noteq> slot r (tail_pos r)" if "i < ?n" for i
    using slot_distinct [OF r that, of "head_pos r"] room unfolding t by linarith
  then have "(buffer r)[slot r (tail_pos r) := x] ! slot r (head_pos r + of_nat i) =
      buffer r ! slot r (head_pos r + of_nat i)" if "i < ?n" for i
    using that by (metis nth_list_update_neq)
  then show ?thesis using r by (simp add: ring_ok_def ring_items_def)
qed

lemma full_iff:
  "ring_ok r \<Longrightarrow> ring_capacity r \<le> tail_pos r - h \<longleftrightarrow> length (buffer r) \<le> unat (tail_pos r - h)"
  by (simp add: word_le_nat_alt capacity_eq)

lemma ring_push_refines:
  assumes r: "ring_ok r"
  shows "ring_ok (snd (ring_push x r)) \<and> length (buffer (snd (ring_push x r))) = length (buffer r) \<and>
    (Pushed (fst (ring_push x r)), ring_items (snd (ring_push x r))) =
      fifo_step (length (buffer r)) (Push x) (ring_items r)"
proof (cases "unat (tail_pos r - head_pos r) < length (buffer r)")
  case True
  let ?r = "r\<lparr>buffer := (buffer r)[slot r (tail_pos r) := x]\<rparr>"
  have ok: "ring_ok ?r" and items: "ring_items ?r = ring_items r"
    using ring_write [OF r True, of x] by simp_all
  have push: "ring_push x r = (True, ?r\<lparr>tail_pos := tail_pos ?r + 1\<rparr>)"
    using True by (simp add: ring_push_def full_iff [OF r] Let_def)
  have "ring_ok (?r\<lparr>tail_pos := tail_pos ?r + 1\<rparr>) \<and> ring_items (?r\<lparr>tail_pos := tail_pos ?r + 1\<rparr>) =
      ring_items ?r @ [buffer ?r ! slot ?r (tail_pos ?r)]"
    using True by (intro ring_publish [OF ok]) simp
  then show ?thesis
    unfolding push using True items slot_less [OF r] by simp
next
  case False
  then show ?thesis using r by (simp add: ring_push_def full_iff [OF r] Let_def)
qed

lemma ring_pop_refines:
  assumes r: "ring_ok r"
  shows "ring_ok (snd (ring_pop r)) \<and> length (buffer (snd (ring_pop r))) = length (buffer r) \<and>
    (Popped (fst (ring_pop r)), ring_items (snd (ring_pop r))) =
      fifo_step (length (buffer r)) Pop (ring_items r)"
proof (cases "head_pos r = tail_pos r")
  case True
  then have "ring_items r = []" by (simp add: ring_items_def)
  with True r show ?thesis by (simp add: ring_pop_def)
next
  case False
  from ring_consume [OF r False] show ?thesis using False by (simp add: ring_pop_def Let_def)
qed

interpretation ring: bounded_queue ring_push ring_pop ring_items "\<lambda>r. length (buffer r)" ring_ok
proof unfold_locales
  show "ring_ok r \<Longrightarrow> length (ring_items r) \<le> length (buffer r)" for r
    by (simp add: ring_ok_def)
qed (rule ring_push_refines ring_pop_refines; assumption)+

text \<open>Refinement: any sequence of \<open>push\<close> and \<open>pop\<close> on a ring buffer whose capacity is a
  power of two answers as a FIFO list of at most that many items does, from every well-formed state;
  in particular when the 64-bit positions wrap.\<close>

theorem ring_refines_fifo:
  assumes "ring_ok r"
  shows "fifo_run (length (buffer r)) ops (ring_items r) =
    (fst (ring.execs ops r), ring_items (snd (ring.execs ops r)))"
  using ring.execs_refine [OF assms] by simp

text \<open>Positions about to wrap.\<close>

lemma ring_refines_fifo_witness:
  "fifo_run 2 [Push 7, Push 8, Pop, Pop]
      (ring_items \<lparr>buffer = [5, 6 :: nat], head_pos = - 2, tail_pos = - 1\<rparr>) =
   (fst (ring.execs [Push 7, Push 8, Pop, Pop] \<lparr>buffer = [5, 6 :: nat], head_pos = - 2, tail_pos = - 1\<rparr>),
    ring_items (snd (ring.execs [Push 7, Push 8, Pop, Pop]
      \<lparr>buffer = [5, 6 :: nat], head_pos = - 2, tail_pos = - 1\<rparr>)))"
  using ring_refines_fifo [of "\<lparr>buffer = [5, 6 :: nat], head_pos = - 2, tail_pos = - 1\<rparr>"
      "[Push 7, Push 8, Pop, Pop]"]
  by (simp add: ring_ok_def exI [of _ 1] numeral_2_eq_2 [symmetric] del: ring.execs.simps fifo_run.simps)

lemma ring_size_items:
  "unat (ring_size r) = (if head_pos r \<le> tail_pos r then length (ring_items r) else 0)"
  by (simp add: ring_size_def)

section \<open>The two threads\<close>

text \<open>
  The producer inside \<open>push\<close> has loaded its own position, then the consumer's, then written the slot,
  and last stores its position; the consumer inside \<open>pop\<close> likewise. \<open>log\<close> records every call with
  its answer at the step that decides it.
\<close>

datatype 'a producer_pc = PIdle | PTail 'a u64 | PHead 'a u64 u64 | PWritten 'a u64

datatype 'a consumer_pc = CIdle | CHead u64 | CTail u64 u64 | CRead u64 'a

record 'a spsc =
  shared :: "'a ring"
  producer :: "'a producer_pc"
  consumer :: "'a consumer_pc"
  log :: "('a queue_op \<times> 'a queue_result) list"

abbreviation full :: "'a ring \<Rightarrow> u64 \<Rightarrow> u64 \<Rightarrow> bool" where
  "full r t h \<equiv> ring_capacity r \<le> t - h"

inductive spsc_step :: "'a spsc \<Rightarrow> 'a spsc \<Rightarrow> bool" where
  push_load_tail: "producer s = PIdle \<Longrightarrow>
    spsc_step s (s\<lparr>producer := PTail x (tail_pos (shared s))\<rparr>)"
| push_full: "producer s = PTail x t \<Longrightarrow> full (shared s) t (head_pos (shared s)) \<Longrightarrow>
    spsc_step s (s\<lparr>producer := PIdle, log := log s @ [(Push x, Pushed False)]\<rparr>)"
| push_load_head: "producer s = PTail x t \<Longrightarrow> \<not> full (shared s) t (head_pos (shared s)) \<Longrightarrow>
    spsc_step s (s\<lparr>producer := PHead x t (head_pos (shared s))\<rparr>)"
| push_write: "producer s = PHead x t h \<Longrightarrow>
    spsc_step s (s\<lparr>producer := PWritten x t,
      shared := (shared s)\<lparr>buffer := (buffer (shared s))[slot (shared s) t := x]\<rparr>\<rparr>)"
| push_store_tail: "producer s = PWritten x t \<Longrightarrow>
    spsc_step s (s\<lparr>producer := PIdle, shared := (shared s)\<lparr>tail_pos := t + 1\<rparr>,
      log := log s @ [(Push x, Pushed True)]\<rparr>)"
| pop_load_head: "consumer s = CIdle \<Longrightarrow>
    spsc_step s (s\<lparr>consumer := CHead (head_pos (shared s))\<rparr>)"
| pop_empty: "consumer s = CHead h \<Longrightarrow> h = tail_pos (shared s) \<Longrightarrow>
    spsc_step s (s\<lparr>consumer := CIdle, log := log s @ [(Pop, Popped None)]\<rparr>)"
| pop_load_tail: "consumer s = CHead h \<Longrightarrow> h \<noteq> tail_pos (shared s) \<Longrightarrow>
    spsc_step s (s\<lparr>consumer := CTail h (tail_pos (shared s))\<rparr>)"
| pop_read: "consumer s = CTail h t \<Longrightarrow>
    spsc_step s (s\<lparr>consumer := CRead h (buffer (shared s) ! slot (shared s) h)\<rparr>)"
| pop_store_head: "consumer s = CRead h x \<Longrightarrow>
    spsc_step s (s\<lparr>consumer := CIdle, shared := (shared s)\<lparr>head_pos := h + 1\<rparr>,
      log := log s @ [(Pop, Popped (Some x))]\<rparr>)"

definition spsc_init :: "'a list \<Rightarrow> 'a spsc" where
  "spsc_init buf = \<lparr>shared = ring_new buf, producer = PIdle, consumer = CIdle, log = []\<rparr>"

inductive spsc_reach :: "'a list \<Rightarrow> 'a spsc \<Rightarrow> bool" for buf :: "'a list" where
  init: "spsc_reach buf (spsc_init buf)"
| step: "spsc_reach buf s \<Longrightarrow> spsc_step s s' \<Longrightarrow> spsc_reach buf s'"

text \<open>What each thread knows at each of its steps.\<close>

fun producer_ok :: "'a ring \<Rightarrow> 'a producer_pc \<Rightarrow> bool" where
  "producer_ok r PIdle = True"
| "producer_ok r (PTail x t) = (t = tail_pos r)"
| "producer_ok r (PHead x t h) = (t = tail_pos r \<and> length (ring_items r) < length (buffer r))"
| "producer_ok r (PWritten x t) = (t = tail_pos r \<and> length (ring_items r) < length (buffer r) \<and>
     buffer r ! slot r t = x)"

fun consumer_ok :: "'a ring \<Rightarrow> 'a consumer_pc \<Rightarrow> bool" where
  "consumer_ok r CIdle = True"
| "consumer_ok r (CHead h) = (h = head_pos r)"
| "consumer_ok r (CTail h t) = (h = head_pos r \<and> h \<noteq> tail_pos r)"
| "consumer_ok r (CRead h x) = (h = head_pos r \<and> h \<noteq> tail_pos r \<and> buffer r ! slot r h = x)"

definition spsc_inv :: "'a list \<Rightarrow> 'a spsc \<Rightarrow> bool" where
  "spsc_inv buf s \<longleftrightarrow> ring_ok (shared s) \<and> length (buffer (shared s)) = length buf \<and>
     producer_ok (shared s) (producer s) \<and> consumer_ok (shared s) (consumer s) \<and>
     fifo_run (length buf) (map fst (log s)) [] = (map snd (log s), ring_items (shared s))"

lemma fifo_run_append:
  "fifo_run n (ops @ [op]) xs =
     (let (rs, ys) = fifo_run n ops xs; (r, zs) = fifo_step n op ys in (rs @ [r], zs))"
  by (induction ops arbitrary: xs) (auto simp: case_prod_beta)

text \<open>The consumer's slot is not the one behind the last item.\<close>

lemma head_slot_other:
  assumes r: "ring_ok r" and "head_pos r \<noteq> tail_pos r" and room: "length (ring_items r) < length (buffer r)"
  shows "slot r (head_pos r) \<noteq> slot r (tail_pos r)"
proof -
  let ?n = "unat (tail_pos r - head_pos r)"
  have "?n \<noteq> 0" using assms(2) by (simp add: unat_eq_0)
  moreover have "head_pos r + of_nat ?n = tail_pos r" by simp
  ultimately show ?thesis using slot_distinct [OF r, of 0 ?n "head_pos r"] room by simp
qed

lemma spsc_step_inv:
  assumes "spsc_step s s'" and "spsc_inv buf s"
  shows "spsc_inv buf s'"
  using assms
proof (induction rule: spsc_step.induct)
  case (push_load_tail s x)
  then show ?case by (simp add: spsc_inv_def)
next
  case (push_full s x t)
  then have "length buf \<le> length (ring_items (shared s))"
    by (simp add: spsc_inv_def full_iff)
  with push_full show ?case by (simp add: spsc_inv_def fifo_run_append)
next
  case (push_load_head s x t)
  then show ?case by (simp add: spsc_inv_def full_iff)
next
  case (push_write s x t h)
  let ?r = "shared s"
  let ?r' = "?r\<lparr>buffer := (buffer ?r)[slot ?r (tail_pos ?r) := x]\<rparr>"
  have r: "ring_ok ?r" "length (ring_items ?r) < length (buffer ?r)" "t = tail_pos ?r"
    using push_write by (simp_all add: spsc_inv_def)
  have w: "ring_ok ?r'" "ring_items ?r' = ring_items ?r"
    using ring_write [of ?r x] r(1,2) by simp_all
  have "consumer_ok ?r' (consumer s)"
  proof (cases "consumer s")
    case (CRead g y)
    then have c: "g = head_pos ?r" "g \<noteq> tail_pos ?r" "buffer ?r ! slot ?r g = y"
      using push_write by (auto simp: spsc_inv_def)
    then have "slot ?r (tail_pos ?r) \<noteq> slot ?r g" using head_slot_other [OF r(1) _ r(2)] by simp
    with c CRead show ?thesis by simp
  qed (use push_write in \<open>simp_all add: spsc_inv_def\<close>)
  then show ?case
    using push_write w r slot_less [OF r(1)] by (simp add: spsc_inv_def)
next
  case (push_store_tail s x t)
  let ?r = "shared s"
  have r: "ring_ok ?r" "length (ring_items ?r) < length (buffer ?r)" "t = tail_pos ?r"
    "buffer ?r ! slot ?r t = x"
    using push_store_tail by (auto simp: spsc_inv_def)
  have p: "ring_ok (?r\<lparr>tail_pos := tail_pos ?r + 1\<rparr>)"
    "ring_items (?r\<lparr>tail_pos := tail_pos ?r + 1\<rparr>) = ring_items ?r @ [x]"
    using ring_publish [OF r(1)] r by simp_all
  have "consumer_ok (?r\<lparr>tail_pos := tail_pos ?r + 1\<rparr>) (consumer s)"
  proof -
    have "length (ring_items (?r\<lparr>tail_pos := tail_pos ?r + 1\<rparr>)) \<noteq> 0" unfolding p(2) by simp
    then have "head_pos ?r \<noteq> tail_pos ?r + 1" by auto
    then show ?thesis
      using push_store_tail by (cases "consumer s") (simp_all add: spsc_inv_def)
  qed
  then show ?case
    using push_store_tail p r by (simp add: spsc_inv_def fifo_run_append del: length_ring_items)
next
  case (pop_load_head s)
  then show ?case by (simp add: spsc_inv_def)
next
  case (pop_empty s h)
  then have "ring_items (shared s) = []" by (simp add: spsc_inv_def ring_items_def)
  with pop_empty show ?case by (simp add: spsc_inv_def fifo_run_append)
next
  case (pop_load_tail s h)
  then show ?case by (simp add: spsc_inv_def)
next
  case (pop_read s h t)
  then show ?case by (auto simp: spsc_inv_def)
next
  case (pop_store_head s h x)
  let ?r = "shared s"
  let ?r' = "?r\<lparr>head_pos := head_pos ?r + 1\<rparr>"
  have r: "ring_ok ?r" "h = head_pos ?r" "h \<noteq> tail_pos ?r" "buffer ?r ! slot ?r h = x"
    using pop_store_head by (auto simp: spsc_inv_def)
  have c: "ring_ok ?r'" "ring_items ?r = x # ring_items ?r'"
    using ring_consume [OF r(1)] r by simp_all
  have "producer_ok ?r' (producer s)"
  proof -
    have "length (ring_items ?r') < length (ring_items ?r)" using c(2) by (simp del: length_ring_items)
    then show ?thesis
      using pop_store_head
      by (cases "producer s") (auto simp: spsc_inv_def simp del: length_ring_items)
  qed
  then show ?case
    using pop_store_head c r by (simp add: spsc_inv_def fifo_run_append del: length_ring_items)
qed

lemma spsc_reach_inv:
  assumes "spsc_reach buf s" and "\<exists>k < 64. length buf = 2 ^ k"
  shows "spsc_inv buf s"
  using assms(1)
proof induction
  case init
  then show ?case
    using assms(2) by (simp add: spsc_inv_def spsc_init_def ring_new_def ring_ok_def ring_items_def)
next
  case (step s s')
  then show ?case by (blast intro: spsc_step_inv)
qed

text \<open>C4 Linearizability: in every reachable state of one producer and one consumer thread, the calls
  in the order in which they were decided, with their answers, are a run of the FIFO of at most
  \<open>Capacity\<close> items, whose content is what the buffer holds between the positions.\<close>

theorem spsc_linearizable:
  assumes "spsc_reach buf s" and "\<exists>k < 64. length buf = 2 ^ k"
  shows "fifo_run (length buf) (map fst (log s)) [] = (map snd (log s), ring_items (shared s))"
  using spsc_reach_inv [OF assms] by (simp add: spsc_inv_def)

text \<open>C23 No data race: whenever the producer is about to write a slot of the array and the consumer
  about to read one, they are different slots.\<close>

theorem spsc_no_race:
  assumes "spsc_reach buf s" and "\<exists>k < 64. length buf = 2 ^ k"
    and "producer s = PHead x t h" and "consumer s = CTail h' t'"
  shows "slot (shared s) t \<noteq> slot (shared s) h'"
proof -
  have "spsc_inv buf s" by (rule spsc_reach_inv [OF assms(1,2)])
  then show ?thesis
    using head_slot_other [of "shared s"] assms(3,4) by (auto simp: spsc_inv_def)
qed

text \<open>A queue of capacity 2: the first item is published, the consumer has loaded both positions, and
  the producer is about to write its second item.\<close>

lemma spsc_run:
  "spsc_reach [0, 0 :: nat]
     \<lparr>shared = \<lparr>buffer = [7, 0], head_pos = 0, tail_pos = 1\<rparr>, producer = PHead 8 1 0,
      consumer = CTail 0 1, log = [(Push 7, Pushed True)]\<rparr>"
proof -
  let ?st = "\<lambda>b t p c l. \<lparr>shared = \<lparr>buffer = [b, 0 :: nat], head_pos = 0, tail_pos = t\<rparr>,
    producer = p, consumer = c, log = l\<rparr>"
  let ?l = "[(Push 7, Pushed True)]"
  have 0: "spsc_reach [0, 0] (?st 0 0 PIdle CIdle [])"
    using spsc_reach.init [of "[0, 0]"] by (simp add: spsc_init_def ring_new_def)
  have 1: "spsc_reach [0, 0] (?st 0 0 (PTail 7 0) CIdle [])"
    using spsc_reach.step [OF 0 spsc_step.push_load_tail [of _ 7]] by simp
  have 2: "spsc_reach [0, 0] (?st 0 0 (PHead 7 0 0) CIdle [])"
    using spsc_reach.step [OF 1 spsc_step.push_load_head [of _ 7 0]] by (simp add: ring_capacity_def)
  have 3: "spsc_reach [0, 0] (?st 7 0 (PWritten 7 0) CIdle [])"
    using spsc_reach.step [OF 2 spsc_step.push_write [of _ 7 0 0]] by (simp add: slot_def)
  have 4: "spsc_reach [0, 0] (?st 7 1 PIdle CIdle ?l)"
    using spsc_reach.step [OF 3 spsc_step.push_store_tail [of _ 7 0]] by simp
  have 5: "spsc_reach [0, 0] (?st 7 1 PIdle (CHead 0) ?l)"
    using spsc_reach.step [OF 4 spsc_step.pop_load_head] by simp
  have 6: "spsc_reach [0, 0] (?st 7 1 PIdle (CTail 0 1) ?l)"
    using spsc_reach.step [OF 5 spsc_step.pop_load_tail [of _ 0]] by simp
  have 7: "spsc_reach [0, 0] (?st 7 1 (PTail 8 1) (CTail 0 1) ?l)"
    using spsc_reach.step [OF 6 spsc_step.push_load_tail [of _ 8]] by simp
  show ?thesis
    using spsc_reach.step [OF 7 spsc_step.push_load_head [of _ 8 1]]
    by (simp add: ring_capacity_def word_le_nat_alt)
qed

lemma spsc_linearizable_witness:
  "fifo_run 2 [Push 7] [] =
     ([Pushed True], ring_items \<lparr>buffer = [7, 0 :: nat], head_pos = 0, tail_pos = 1\<rparr>)"
  using spsc_linearizable [OF spsc_run] by (simp add: exI [of _ 1] numeral_2_eq_2 del: fifo_run.simps)

lemma spsc_no_race_witness:
  "slot \<lparr>buffer = [7, 0 :: nat], head_pos = 0, tail_pos = 1\<rparr> 1 \<noteq>
   slot \<lparr>buffer = [7, 0 :: nat], head_pos = 0, tail_pos = 1\<rparr> 0"
  using spsc_no_race [OF spsc_run, of 8 1 0 0 1] by (simp add: exI [of _ 1])

end
