(* ===== verification/Backoff.thy ===== *)
theory Backoff
  imports Prelude
begin

text \<open>
  Exponential backoff with full jitter: \<^verbatim>\<open>include/network/backoff.hpp\<close>. The random generator and
  \<open>std::uniform_int_distribution\<close> are the parameter \<open>uniform\<close>: it maps an upper bound and a generator state to
  a value and the next state. The exponent is computed by shifting the 32-bit constant \<open>1u\<close>, which
  is undefined behaviour (\<open>None\<close>) for attempts above 32.
\<close>

record 'g backoff =
  base_ms :: u64
  max_ms :: u64
  generator :: 'g

definition backoff_new :: "u64 \<Rightarrow> u64 \<Rightarrow> 'g \<Rightarrow> 'g backoff" where
  "backoff_new base mx seed = \<lparr>base_ms = base, max_ms = mx, generator = seed\<rparr>"

text \<open>\<open>1u << n\<close> on a 32-bit \<open>unsigned int\<close>.\<close>

definition shift_one :: "u32 \<Rightarrow> u32 option" where
  "shift_one n = (if unat n < 32 then Some (push_bit (unat n) 1) else None)"

definition calculate_delay ::
    "(u64 \<Rightarrow> 'g \<Rightarrow> u64 \<times> 'g) \<Rightarrow> 'g backoff \<Rightarrow> u32 \<Rightarrow> (u64 \<times> 'g backoff) option" where
  "calculate_delay uniform b attempt =
     (if attempt = 0 then Some (0, b)
      else case shift_one (attempt - 1) of
          None \<Rightarrow> None
        | Some e \<Rightarrow>
            let exp_factor = ucast e :: u64;
                delay = base_ms b * exp_factor;
                delay = min delay (max_ms b);
                (x, g) = uniform delay (generator b)
            in Some (x, b\<lparr>generator := g\<rparr>))"

text \<open>What the standard says of a uniform distribution on \<open>[0, n]\<close>, as far as the code relies on it.\<close>

definition within_bound :: "(u64 \<Rightarrow> 'g \<Rightarrow> u64 \<times> 'g) \<Rightarrow> bool" where
  "within_bound uniform \<longleftrightarrow> (\<forall>n g. fst (uniform n g) \<le> n)"

lemma unat_pred: "w \<noteq> 0 \<Longrightarrow> unat (w - 1) = unat w - 1" for w :: "'a::len word"
  by (simp add: unat_minus_one)

lemma unat_shift_one:
  assumes "n < 32"
  shows "unat (ucast (push_bit n 1 :: u32) :: u64) = 2 ^ n"
proof -
  have "(2::nat) ^ n < 2 ^ LENGTH(32)" using assms by (intro power_strict_increasing) simp_all
  then have "unat (of_nat (2 ^ n) :: u32) = 2 ^ n" by (rule unat_of_nat_small)
  then have u: "unat (push_bit n 1 :: u32) = 2 ^ n" by (simp add: push_bit_eq_mult)
  have "(2::nat) ^ n < 2 ^ LENGTH(64)" using assms by (intro power_strict_increasing) simp_all
  then have "unat (of_nat (unat (push_bit n 1 :: u32)) :: u64) = 2 ^ n"
    unfolding u by (rule unat_of_nat_small)
  then show ?thesis by (simp add: unsigned_ucast_eq)
qed

text \<open>C40 The delay before the jitter doubles with every attempt up to the maximum: for attempt
  \<open>n + 1\<close> with \<open>n < 32\<close>, as long as \<open>base * 2^n\<close> fits into 64 bits, one value is drawn from the generator,
  uniformly from 0 to exactly \<open>base * 2^n\<close> or the maximum, whichever is less, and returned; it is within
  that bound; only the generator's state changes, and attempt 0 does not wait.\<close>

theorem backoff_delay:
  assumes "within_bound uniform" and "n < 32" and "unat (base_ms b) * 2 ^ n < 2 ^ 64"
  shows "calculate_delay uniform b 0 = Some (0, b) \<and>
    (\<exists>bound x g. unat bound = min (unat (base_ms b) * 2 ^ n) (unat (max_ms b)) \<and>
      uniform bound (generator b) = (x, g) \<and> x \<le> bound \<and>
      calculate_delay uniform b (of_nat (n + 1)) = Some (x, b\<lparr>generator := g\<rparr>))"
proof -
  have "unat (of_nat (n + 1) :: u32) = n + 1" using assms(2) by (intro unat_of_nat_small) simp
  then have a: "(of_nat (n + 1) :: u32) \<noteq> 0" by auto
  have p: "(of_nat (n + 1) :: u32) - 1 = of_nat n" by simp
  have "unat (of_nat n :: u32) = n" using assms(2) by (intro unat_of_nat_small) simp
  then have s: "shift_one (of_nat (n + 1) - 1) = Some (push_bit n 1)"
    using assms(2) unfolding p by (simp add: shift_one_def)
  let ?d = "base_ms b * ucast (push_bit n 1 :: u32)"
  have d: "unat ?d = unat (base_ms b) * 2 ^ n"
    using assms(3) unat_shift_one [OF assms(2)] by (simp add: unat_word_ariths)
  obtain x g where u: "uniform (min ?d (max_ms b)) (generator b) = (x, g)" by fastforce
  have "fst (uniform (min ?d (max_ms b)) (generator b)) \<le> min ?d (max_ms b)"
    using assms(1) unfolding within_bound_def by blast
  then have x: "x \<le> min ?d (max_ms b)" unfolding u by simp
  have bound: "unat (min ?d (max_ms b)) = min (unat (base_ms b) * 2 ^ n) (unat (max_ms b))"
    unfolding d [symmetric] by (auto simp: min_def word_le_nat_alt)
  have "calculate_delay uniform b (of_nat (n + 1)) = Some (x, b\<lparr>generator := g\<rparr>)"
    using a unfolding calculate_delay_def s by (simp only: u Let_def if_False option.case prod.case)
  then show ?thesis using bound u x by (auto simp: calculate_delay_def)
qed

text \<open>The policy of the self test, base 100 and maximum 2000, with the middle of the range for the draw:
  attempts 3 and 6.\<close>

lemma backoff_delay_witness:
  "calculate_delay (\<lambda>n g. (n div 2, g)) (backoff_new 100 2000 ()) 3 = Some (200, backoff_new 100 2000 ()) \<and>
   calculate_delay (\<lambda>n g. (n div 2, g)) (backoff_new 100 2000 ()) 6 = Some (1000, backoff_new 100 2000 ())"
proof -
  let ?u = "\<lambda>n g. (n div 2 :: u64, g :: unit)" and ?b = "backoff_new 100 2000 ()"
  have u: "within_bound ?u" by (auto simp: within_bound_def word_le_nat_alt unat_div)
  have draw: "calculate_delay ?u ?b (of_nat (n + 1)) = Some (of_nat (min (100 * 2 ^ n) 2000) div 2, ?b)"
    if small: "n < 32" "(100 :: nat) * 2 ^ n < 2 ^ 64" for n
  proof -
    have b: "unat (base_ms ?b) = 100" "unat (max_ms ?b) = 2000" by (simp_all add: backoff_new_def)
    obtain bound x g where run: "unat bound = min (100 * 2 ^ n) 2000" "(bound div 2, generator ?b) = (x, g)"
      "calculate_delay ?u ?b (of_nat (n + 1)) = Some (x, ?b\<lparr>generator := g\<rparr>)"
      using backoff_delay [OF u small(1), of ?b] small(2) unfolding b by blast
    have "bound = of_nat (min (100 * 2 ^ n) 2000)" unfolding run(1) [symmetric] by simp
    with run show ?thesis by (simp add: backoff_new_def)
  qed
  show ?thesis using draw [of 2] draw [of 5] by simp
qed

text \<open>From the 33rd attempt on the shift is undefined behaviour; every earlier attempt has a delay.\<close>

theorem calculate_delay_undefined: "calculate_delay uniform b attempt = None \<longleftrightarrow> 33 \<le> unat attempt"
proof (cases "attempt = 0")
  case False
  then have "unat (attempt - 1) = unat attempt - 1" by (rule unat_pred)
  moreover have "unat attempt \<noteq> 0" using False by (simp add: unat_eq_0)
  ultimately show ?thesis
    using False by (auto simp: calculate_delay_def shift_one_def Let_def split: prod.splits)
qed (simp add: calculate_delay_def)

end
