(* ===== verification/Monitor.thy ===== *)
theory Monitor
  imports EventQueue Binary64
begin

text \<open>
  The telemetry monitor: \<^verbatim>\<open>include/system/metrics.hpp\<close>, \<^verbatim>\<open>include/system/monitor.hpp\<close> and
  \<^verbatim>\<open>src/system/monitor.cpp\<close>. One round of the background thread drains the queue, reads the clock and, when
  100 milliseconds have passed, publishes the statistics. The producer may push while a
  round drains, so a round takes the list of the events that its \<open>pop\<close> calls returned before the first
  empty answer; without a concurrent push that list is the queue's content. The mutex around
  \<open>stats_\<close> makes the publication one step; the thread object and the sleep are not part of the state. The
  facts: published totals account for every event that was popped, and the average latency is the
  correctly rounded mean over the events that were not dropped.
\<close>

section \<open>Definitions\<close>

record metric_event =
  timestamp_us :: u64
  source_node :: string
  dest_node :: string
  packet_size :: u32
  latency_ns :: u64
  dropped :: bool

record aggregated_metrics =
  average_latency_ns :: double
  total_packets :: u64
  total_bytes :: u64
  dropped_packets :: u64
  throughput_kbps :: double

record monitor =
  running :: bool
  stats :: aggregated_metrics
  cumulative_latency_ns :: u64
  cumulative_packets :: u64
  cumulative_bytes :: u64
  cumulative_dropped :: u64

definition monitor_new :: monitor where
  "monitor_new =
     \<lparr>running = False,
      stats = \<lparr>average_latency_ns = Finite 0, total_packets = 0, total_bytes = 0,
               dropped_packets = 0, throughput_kbps = Finite 0\<rparr>,
      cumulative_latency_ns = 0, cumulative_packets = 0, cumulative_bytes = 0, cumulative_dropped = 0\<rparr>"

text \<open>The answer tells whether a thread is started, or joined.\<close>

definition monitor_start :: "monitor \<Rightarrow> bool \<times> monitor" where
  "monitor_start m = (if running m then (False, m) else (True, m\<lparr>running := True\<rparr>))"

definition monitor_stop :: "monitor \<Rightarrow> bool \<times> monitor" where
  "monitor_stop m = (if \<not> running m then (False, m) else (True, m\<lparr>running := False\<rparr>))"

text \<open>The destructor.\<close>

definition monitor_destroy :: "monitor \<Rightarrow> bool \<times> monitor" where
  "monitor_destroy m = monitor_stop m"

definition get_latest_metrics :: "monitor \<Rightarrow> aggregated_metrics" where
  "get_latest_metrics m = stats m"

text \<open>The body of the draining loop.\<close>

definition count_event :: "metric_event \<Rightarrow> monitor \<Rightarrow> monitor" where
  "count_event event m =
     (let m = (if \<not> dropped event then
                 m\<lparr>cumulative_latency_ns := cumulative_latency_ns m + latency_ns event,
                   cumulative_bytes := cumulative_bytes m + ucast (packet_size event)\<rparr>
               else m\<lparr>cumulative_dropped := cumulative_dropped m + 1\<rparr>)
      in m\<lparr>cumulative_packets := cumulative_packets m + 1\<rparr>)"

text \<open>The conversion of an unsigned counter to \<open>double\<close>.\<close>

definition double_of_u64 :: "u64 \<Rightarrow> double" where
  "double_of_u64 w = double_of_nat (unat w)"

text \<open>The statistics, \<open>elapsed\<close> milliseconds after the last publication.\<close>

definition publish_stats :: "int \<Rightarrow> monitor \<Rightarrow> monitor" where
  "publish_stats elapsed m =
     (let successful_packets = cumulative_packets m - cumulative_dropped m;
          average = (if 0 < successful_packets
            then f_div (double_of_u64 (cumulative_latency_ns m)) (double_of_u64 successful_packets)
            else Finite 0);
          elapsed_sec = f_div (round_binary64 (of_int elapsed)) (Finite 1000);
          throughput = (case elapsed_sec of
              Finite q \<Rightarrow> if 0 < q
                then f_div (f_mul (double_of_u64 (cumulative_bytes m)) (Finite 8))
                           (f_mul elapsed_sec (Finite 1000))
                else Finite 0
            | _ \<Rightarrow> f_div (f_mul (double_of_u64 (cumulative_bytes m)) (Finite 8))
                           (f_mul elapsed_sec (Finite 1000)))
      in m\<lparr>stats := \<lparr>average_latency_ns = average,
                      total_packets = cumulative_packets m,
                      total_bytes = total_bytes (stats m) + cumulative_bytes m,
                      dropped_packets = cumulative_dropped m,
                      throughput_kbps = throughput\<rparr>,
            cumulative_bytes := 0\<rparr>)"

text \<open>One round: the popped events, the reading of the clock, and the time of the last publication.\<close>

definition monitor_round :: "metric_event list \<times> int \<Rightarrow> monitor \<times> int \<Rightarrow> monitor \<times> int" where
  "monitor_round input state =
     (let (events, now) = input; (m, last_time) = state;
          m = fold count_event events m;
          elapsed = to_milliseconds (now - last_time)
      in if 100 \<le> elapsed then (publish_stats elapsed m, now) else (m, last_time))"

definition monitor_rounds :: "(metric_event list \<times> int) list \<Rightarrow> monitor \<times> int \<Rightarrow> monitor \<times> int" where
  "monitor_rounds inputs state = fold monitor_round inputs state"

text \<open>Draining a queue to which nobody pushes: \<open>pop\<close> until the empty answer, at most \<open>fuel\<close> times.\<close>

fun drain :: "nat \<Rightarrow> 'a ring \<Rightarrow> 'a list \<times> 'a ring" where
  "drain 0 q = ([], q)"
| "drain (Suc fuel) q =
     (case ring_pop q of
        (None, q) \<Rightarrow> ([], q)
      | (Some x, q) \<Rightarrow> (let (xs, q) = drain fuel q in (x # xs, q)))"

section \<open>Accounting\<close>

lemma drain_items:
  assumes "ring_ok q" and "length (ring_items q) < fuel"
  shows "fst (drain fuel q) = ring_items q \<and> ring_items (snd (drain fuel q)) = []"
  using assms
proof (induction fuel arbitrary: q)
  case (Suc fuel)
  obtain r q' where pop: "ring_pop q = (r, q')" by fastforce
  have ok: "ring_ok q'" and step: "(Popped r, ring_items q') = fifo_step (length (buffer q)) Pop (ring_items q)"
    using ring.deq_law [OF Suc.prems(1)] by (simp_all add: pop)
  show ?case
  proof (cases "ring_items q")
    case Nil
    then show ?thesis using step by (simp add: pop)
  next
    case (Cons x xs)
    then have "r = Some x" "ring_items q' = xs" using step by simp_all
    moreover have "length (ring_items q') < fuel"
      using Suc.prems(2) unfolding Cons \<open>ring_items q' = xs\<close> by simp
    ultimately show ?thesis using Suc.IH [OF ok] by (simp add: pop Cons case_prod_beta)
  qed
qed simp

lemma drain_ok: "ring_ok q \<Longrightarrow> ring_ok (snd (drain n q))"
proof (induction n arbitrary: q)
  case (Suc n)
  obtain r q' where 1: "ring_pop q = (r, q')" by fastforce
  have "ring_ok q'" using ring.deq_law [OF Suc.prems] by (simp add: 1)
  then show ?case using Suc.IH [of q'] by (cases r) (simp_all add: 1 case_prod_beta)
qed simp

lemma drain_buffer: "ring_ok q \<Longrightarrow> length (buffer (snd (drain n q))) = length (buffer q)"
proof (induction n arbitrary: q)
  case (Suc n)
  obtain r q1 where pop: "ring_pop q = (r, q1)" by fastforce
  then have "ring_ok q1" "length (buffer q1) = length (buffer q)"
    using ring.deq_law [OF Suc.prems] by simp_all
  with Suc.IH [of q1] show ?case by (simp add: pop case_prod_beta split: option.split)
qed simp

abbreviation delivered :: "metric_event list \<Rightarrow> metric_event list" where
  "delivered evs \<equiv> filter (\<lambda>e. \<not> dropped e) evs"

abbreviation sum_bytes :: "metric_event list \<Rightarrow> u64" where
  "sum_bytes evs \<equiv> sum_list (map (\<lambda>e. ucast (packet_size e)) (delivered evs))"

abbreviation sum_latency :: "metric_event list \<Rightarrow> u64" where
  "sum_latency evs \<equiv> sum_list (map latency_ns (delivered evs))"

text \<open>The counters after the events \<open>evs\<close>; bytes that are published leave the rolling counter.\<close>

definition accounts :: "metric_event list \<Rightarrow> monitor \<Rightarrow> bool" where
  "accounts evs m \<longleftrightarrow>
     cumulative_packets m = of_nat (length evs) \<and>
     cumulative_dropped m = of_nat (length evs - length (delivered evs)) \<and>
     cumulative_latency_ns m = sum_latency evs \<and>
     total_bytes (stats m) + cumulative_bytes m = sum_bytes evs"

lemma accounts_event: "accounts evs m \<Longrightarrow> accounts (evs @ [e]) (count_event e m)"
proof -
  assume a: "accounts evs m"
  have le: "length (delivered evs) \<le> length evs" by simp
  then have "Suc (length evs) - length (delivered evs) = Suc (length evs - length (delivered evs))"
    by (rule Suc_diff_le)
  with a show ?thesis by (auto simp: accounts_def count_event_def Let_def algebra_simps)
qed

lemma accounts_events: "accounts evs m \<Longrightarrow> accounts (evs @ es) (fold count_event es m)"
proof (induction es arbitrary: evs m)
  case (Cons e es)
  show ?case using Cons.IH [OF accounts_event [OF Cons.prems, of e]] by simp
qed simp

lemma accounts_publish: "accounts evs m \<Longrightarrow> accounts evs (publish_stats t m)"
  by (simp add: accounts_def publish_stats_def Let_def)

lemma accounts_round:
  "accounts evs (fst st) \<Longrightarrow> accounts (evs @ fst inp) (fst (monitor_round inp st))"
  using accounts_events accounts_publish
  by (cases inp; cases st) (auto simp: monitor_round_def Let_def)

lemma accounts_rounds:
  "accounts evs (fst st) \<Longrightarrow> accounts (evs @ concat (map fst inps)) (fst (monitor_rounds inps st))"
proof (induction inps arbitrary: evs st)
  case (Cons i inps)
  show ?case using Cons.IH [OF accounts_round [OF Cons.prems, of i]] by (simp add: monitor_rounds_def)
qed (simp add: monitor_rounds_def)

lemma accounts_new: "accounts [] monitor_new"
  by (simp add: accounts_def monitor_new_def)

text \<open>C25 Every popped event is accounted for exactly once: after any sequence of rounds whose last one
  publishes, the published totals are the number of all events, of the dropped ones, and the bytes of the
  others (modulo \<open>2^64\<close>), although the byte counter is reset by every publication.\<close>

theorem monitor_totals:
  assumes "100 \<le> to_milliseconds (now - snd (monitor_rounds inps (monitor_new, t0)))"
  shows "let m = get_latest_metrics (fst (monitor_rounds (inps @ [(es, now)]) (monitor_new, t0)));
             evs = concat (map fst inps) @ es
    in total_packets m = of_nat (length evs) \<and>
       dropped_packets m = of_nat (length (filter dropped evs)) \<and>
       total_bytes m = sum_bytes evs"
proof -
  let ?evs = "concat (map fst inps) @ es"
  obtain m last where m: "monitor_rounds inps (monitor_new, t0) = (m, last)" by fastforce
  let ?m = "fold count_event es m"
  have acc: "accounts ?evs ?m"
    using accounts_rounds [of "[]" "(monitor_new, t0)" inps] accounts_new accounts_events
    by (simp add: m)
  have "length ?evs = length (delivered ?evs) + length (filter dropped ?evs)"
    using sum_length_filter_compl [of "\<lambda>e. \<not> dropped e" ?evs] by simp
  then have d: "length ?evs - length (delivered ?evs) = length (filter dropped ?evs)" by linarith
  have last: "fst (monitor_rounds (inps @ [(es, now)]) (monitor_new, t0)) =
      publish_stats (to_milliseconds (now - last)) ?m"
    using assms m by (simp add: monitor_rounds_def monitor_round_def Let_def)
  show ?thesis
    using acc unfolding last Let_def get_latest_metrics_def accounts_def d
    by (simp add: publish_stats_def Let_def)
qed

lemma rounded_mean:
  assumes "a < 2 ^ 53" and "0 < n" and "n < 2 ^ 53"
  shows "f_div (double_of_nat a) (double_of_nat n) = round_binary64 (of_nat a / of_nat n)"
  using assms by (simp add: double_of_nat_exact)

lemma published_average:
  assumes "accounts evs m" and "length evs < 2 ^ 53"
    and "sum_list (map (\<lambda>e. unat (latency_ns e)) (delivered evs)) < 2 ^ 53"
  shows "average_latency_ns (get_latest_metrics (publish_stats t m)) =
    (if delivered evs = [] then Finite 0
     else round_binary64 (of_nat (sum_list (map (\<lambda>e. unat (latency_ns e)) (delivered evs))) /
            of_nat (length (delivered evs))))"
proof -
  have len: "length (delivered evs) \<le> length evs" by simp
  have unat_sum: "unat (sum_list (map latency_ns xs)) = sum_list (map (\<lambda>e. unat (latency_ns e)) xs)"
    if "sum_list (map (\<lambda>e. unat (latency_ns e)) xs) < 2 ^ 64" for xs
    using that
  proof (induction xs)
    case (Cons x xs)
    then have "unat (sum_list (map latency_ns xs)) = sum_list (map (\<lambda>e. unat (latency_ns e)) xs)" by simp
    with Cons.prems show ?case by (simp add: unat_word_ariths)
  qed simp
  have s: "unat (cumulative_latency_ns m) = sum_list (map (\<lambda>e. unat (latency_ns e)) (delivered evs))"
    using assms(1,3) unat_sum [of "delivered evs"] by (simp add: accounts_def)
  have "cumulative_packets m - cumulative_dropped m =
      of_nat (length evs) - of_nat (length evs - length (delivered evs))"
    using assms(1) by (simp add: accounts_def)
  also have "\<dots> = of_nat (length (delivered evs))" using len by (simp add: of_nat_diff)
  finally have diff: "cumulative_packets m - cumulative_dropped m = of_nat (length (delivered evs))" .
  have n: "unat (of_nat (length (delivered evs)) :: u64) = length (delivered evs)"
  proof (rule unat_of_nat_small)
    have "length evs < 2 ^ LENGTH(64)" using assms(2) by simp
    with len show "length (delivered evs) < 2 ^ LENGTH(64)" by (rule le_less_trans)
  qed
  have pos: "(0 :: u64) < of_nat (length (delivered evs)) \<longleftrightarrow> delivered evs \<noteq> []"
    unfolding word_less_nat_alt n by simp
  have small: "length (delivered evs) < 2 ^ 53" using len assms(2) by (rule le_less_trans)
  show ?thesis
    using rounded_mean [OF assms(3) _ small]
    unfolding get_latest_metrics_def publish_stats_def Let_def diff pos double_of_u64_def n s
    by simp
qed

text \<open>The published average latency is the mean over the events that were not dropped, rounded once:
  the quotient of the two counters is taken exactly and rounded to the nearest \<open>double\<close>, as long as
  sum and number stay below \<open>2^53\<close>; without such an event it is 0.\<close>

theorem monitor_average:
  assumes "100 \<le> to_milliseconds (now - snd (monitor_rounds inps (monitor_new, t0)))"
    and "evs = concat (map fst inps) @ es" and "length evs < 2 ^ 53"
    and "sum_list (map (\<lambda>e. unat (latency_ns e)) (delivered evs)) < 2 ^ 53"
  shows "average_latency_ns (get_latest_metrics
      (fst (monitor_rounds (inps @ [(es, now)]) (monitor_new, t0)))) =
    (if delivered evs = [] then Finite 0
     else round_binary64 (of_nat (sum_list (map (\<lambda>e. unat (latency_ns e)) (delivered evs))) /
            of_nat (length (delivered evs))))"
proof -
  obtain m last where m: "monitor_rounds inps (monitor_new, t0) = (m, last)" by fastforce
  have "accounts evs (fold count_event es m)"
    using accounts_rounds [of "[]" "(monitor_new, t0)" inps] accounts_new accounts_events
    by (simp add: m assms(2))
  moreover have "fst (monitor_rounds (inps @ [(es, now)]) (monitor_new, t0)) =
      publish_stats (to_milliseconds (now - last)) (fold count_event es m)"
    using assms(1) m by (simp add: monitor_rounds_def monitor_round_def Let_def)
  ultimately show ?thesis using published_average assms(3,4) by simp
qed

text \<open>The telemetry test of \<^verbatim>\<open>src/main/controller.cpp\<close>: ten events of 1000 bytes and latency 150, two
  dropped ones, published 100 milliseconds after the start.\<close>

definition test_events :: "metric_event list" where
  "test_events =
     replicate 10 \<lparr>timestamp_us = 0, source_node = ''RouterA'', dest_node = ''RouterB'',
       packet_size = 1000, latency_ns = 150, dropped = False\<rparr> @
     replicate 2 \<lparr>timestamp_us = 0, source_node = ''RouterA'', dest_node = ''RouterB'',
       packet_size = 0, latency_ns = 0, dropped = True\<rparr>"

lemma monitor_totals_witness:
  "let m = get_latest_metrics (fst (monitor_rounds [(test_events, 100000000)] (monitor_new, 0)))
   in total_packets m = 12 \<and> dropped_packets m = 2 \<and> total_bytes m = 10000"
proof -
  have len: "length test_events = 12" "filter dropped test_events = replicate 2
      \<lparr>timestamp_us = 0, source_node = ''RouterA'', dest_node = ''RouterB'', packet_size = 0,
       latency_ns = 0, dropped = True\<rparr>" by (simp_all add: test_events_def)
  have "delivered test_events = replicate 10 \<lparr>timestamp_us = 0, source_node = ''RouterA'',
      dest_node = ''RouterB'', packet_size = 1000, latency_ns = 150, dropped = False\<rparr>"
    by (simp add: test_events_def)
  then have bytes: "sum_bytes test_events = 10000" by (simp add: sum_list_replicate)
  have due: "100 \<le> to_milliseconds (100000000 - snd (monitor_rounds [] (monitor_new, 0)))"
    by (simp add: monitor_rounds_def to_milliseconds_nonneg)
  show ?thesis using monitor_totals [OF due, of test_events] bytes by (simp add: Let_def len)
qed

lemma monitor_average_witness:
  "average_latency_ns (get_latest_metrics
     (fst (monitor_rounds [(test_events, 100000000)] (monitor_new, 0)))) = Finite 150"
proof -
  have d: "delivered test_events = replicate 10 \<lparr>timestamp_us = 0, source_node = ''RouterA'',
      dest_node = ''RouterB'', packet_size = 1000, latency_ns = 150, dropped = False\<rparr>"
    by (simp add: test_events_def)
  have "average_latency_ns (get_latest_metrics
     (fst (monitor_rounds ([] @ [(test_events, 100000000)]) (monitor_new, 0)))) =
    (if delivered test_events = [] then Finite 0
     else round_binary64 (of_nat (sum_list (map (\<lambda>e. unat (latency_ns e)) (delivered test_events))) /
            of_nat (length (delivered test_events))))"
    by (rule monitor_average)
      (simp_all add: d monitor_rounds_def to_milliseconds_nonneg sum_list_replicate test_events_def)
  then show ?thesis
    using round_binary64_int [of 150] by (simp add: d sum_list_replicate)
qed

end
