(* ===== verification/Sockets.thy ===== *)
theory Sockets
  imports Prelude
begin

text \<open>
  Descriptors, connections and the listening server: \<^verbatim>\<open>include/core/connection.hpp\<close>,
  \<^verbatim>\<open>src/core/connection.cpp\<close>, \<^verbatim>\<open>include/core/tcp_server.hpp\<close> and \<^verbatim>\<open>src/core/tcp_server.cpp\<close>. The operating
  system is a parameter: a record of system calls over an abstract kernel state \<open>'k\<close>, each
  returning its value or its \<open>errno\<close>. What the code relies on is stated by the predicates
  \<open>descriptors_spec\<close> and \<open>send_spec\<close>. The facts: no path through the functions leaks or
  double-closes a descriptor, and \<open>send_data\<close> returns and reports exactly the prefix that was sent.
\<close>

section \<open>System calls\<close>

datatype errno = EAGAIN | EINPROGRESS | EINTR | ENOENT | EEXIST | Errno nat

record 'k os =
  sys_socket :: "'k \<Rightarrow> (errno + int) \<times> 'k"
  sys_close :: "int \<Rightarrow> 'k \<Rightarrow> 'k"
  sys_getfl :: "int \<Rightarrow> 'k \<Rightarrow> (errno + u32) \<times> 'k"
  sys_setfl :: "int \<Rightarrow> u32 \<Rightarrow> 'k \<Rightarrow> errno option \<times> 'k"
  sys_reuseaddr :: "int \<Rightarrow> 'k \<Rightarrow> errno option \<times> 'k"
  sys_connect :: "int \<Rightarrow> u32 \<Rightarrow> u16 \<Rightarrow> 'k \<Rightarrow> errno option \<times> 'k"
  sys_bind :: "int \<Rightarrow> u16 \<Rightarrow> 'k \<Rightarrow> errno option \<times> 'k"
  sys_listen :: "int \<Rightarrow> nat \<Rightarrow> 'k \<Rightarrow> errno option \<times> 'k"
  sys_accept :: "int \<Rightarrow> 'k \<Rightarrow> (errno + int) \<times> 'k"
  sys_send :: "int \<Rightarrow> u8 list \<Rightarrow> 'k \<Rightarrow> (errno + nat) \<times> 'k"
  sys_recv :: "int \<Rightarrow> nat \<Rightarrow> 'k \<Rightarrow> (errno + u8 list) \<times> 'k"
  inet_pton :: "string \<Rightarrow> u32 option"

datatype net_error = SystemError errno string | InvalidIp string | SocketClosed

text \<open>A computation over the kernel state that may throw.\<close>

type_synonym ('a, 'k) io = "'k \<Rightarrow> (net_error + 'a) \<times> 'k"

definition O_NONBLOCK :: u32 where
  "O_NONBLOCK = 0x800"

section \<open>Descriptors\<close>

text \<open>A \<open>SocketFD\<close> is its descriptor; \<open>-1\<close> is the empty one. Destruction and move assignment close
  what they drop.\<close>

definition is_valid :: "int \<Rightarrow> bool" where
  "is_valid fd \<longleftrightarrow> fd \<noteq> - 1"

definition close_socket :: "'k os \<Rightarrow> int \<Rightarrow> 'k \<Rightarrow> 'k" where
  "close_socket os fd k = (if fd \<noteq> - 1 then sys_close os fd k else k)"

text \<open>\<open>target = std::move(source)\<close> for two different objects: the new target and the new source.\<close>

definition move_assign :: "'k os \<Rightarrow> int \<Rightarrow> int \<Rightarrow> 'k \<Rightarrow> (int \<times> int) \<times> 'k" where
  "move_assign os target source k = ((source, - 1), close_socket os target k)"

definition set_nonblocking :: "'k os \<Rightarrow> string \<Rightarrow> int \<Rightarrow> (unit, 'k) io" where
  "set_nonblocking os what fd k =
     (case sys_getfl os fd k of
        (Inl e, k) \<Rightarrow> (Inl (SystemError e what), k)
      | (Inr flags, k) \<Rightarrow>
          (case sys_setfl os fd (flags OR O_NONBLOCK) k of
             (Some e, k) \<Rightarrow> (Inl (SystemError e what), k)
           | (None, k) \<Rightarrow> (Inr (), k)))"

section \<open>Connections\<close>

text \<open>The remote port is not initialised by the constructor.\<close>

record connection =
  conn_socket :: int
  remote_ip :: string
  remote_port :: "u16 option"

definition connection_new :: "'k os \<Rightarrow> int \<Rightarrow> (connection, 'k) io" where
  "connection_new os fd k =
     (let conn = \<lparr>conn_socket = fd, remote_ip = [], remote_port = None\<rparr> in
      if is_valid fd then
        (case set_nonblocking os ''Failed to set O_NONBLOCK'' fd k of
           (Inl e, k) \<Rightarrow> (Inl e, close_socket os fd k)
         | (Inr _, k) \<Rightarrow> (Inr conn, k))
      else (Inr conn, k))"

definition connect_to :: "'k os \<Rightarrow> string \<Rightarrow> u16 \<Rightarrow> (connection, 'k) io" where
  "connect_to os ip port k =
     (case sys_socket os k of
        (Inl e, k) \<Rightarrow> (Inl (SystemError e ''Failed to create socket''), k)
      | (Inr safe_socket, k) \<Rightarrow>
          (case set_nonblocking os ''Failed to set O_NONBLOCK on client socket'' safe_socket k of
             (Inl e, k) \<Rightarrow> (Inl e, close_socket os safe_socket k)
           | (Inr _, k) \<Rightarrow>
               (case inet_pton os ip of
                  None \<Rightarrow> (Inl (InvalidIp ip), close_socket os safe_socket k)
                | Some addr \<Rightarrow>
                    (case sys_connect os safe_socket addr port k of
                       (rc, k) \<Rightarrow>
                         if rc \<noteq> None \<and> rc \<noteq> Some EINPROGRESS
                         then (Inl (SystemError (the rc) ''Connection failed asynchronously''),
                               close_socket os safe_socket k)
                         else
                           (case connection_new os safe_socket k of
                              (Inl e, k) \<Rightarrow> (Inl e, k)
                            | (Inr conn, k) \<Rightarrow>
                                (Inr (conn\<lparr>remote_ip := ip, remote_port := Some port\<rparr>), k))))))"

text \<open>The loop of \<open>send_data\<close>; \<open>None\<close>: it does not end.\<close>

partial_function (option) send_loop ::
    "'k os \<Rightarrow> int \<Rightarrow> u8 list \<Rightarrow> nat \<Rightarrow> 'k \<Rightarrow> ((net_error + nat) \<times> 'k) option" where
  "send_loop os fd data total_sent k =
     (if total_sent < length data then
        (case sys_send os fd (drop total_sent data) k of
           (Inl e, k) \<Rightarrow>
             if e = EAGAIN then Some (Inr total_sent, k)
             else Some (Inl (SystemError e ''Send failed''), k)
         | (Inr sent, k) \<Rightarrow> send_loop os fd data (total_sent + sent) k)
      else Some (Inr total_sent, k))"

definition send_data ::
    "'k os \<Rightarrow> connection \<Rightarrow> u8 list \<Rightarrow> 'k \<Rightarrow> ((net_error + nat) \<times> 'k) option" where
  "send_data os conn data k =
     (if \<not> is_valid (conn_socket conn) then Some (Inl SocketClosed, k)
      else send_loop os (conn_socket conn) data 0 k)"

definition disconnect :: "'k os \<Rightarrow> connection \<Rightarrow> 'k \<Rightarrow> connection \<times> 'k" where
  "disconnect os conn k =
     (let ((fd, _), k) = move_assign os (conn_socket conn) (- 1) k in (conn\<lparr>conn_socket := fd\<rparr>, k))"

definition receive_data ::
    "'k os \<Rightarrow> connection \<Rightarrow> nat \<Rightarrow> 'k \<Rightarrow> (net_error + u8 list) \<times> connection \<times> 'k" where
  "receive_data os conn max_bytes k =
     (if \<not> is_valid (conn_socket conn) then (Inl SocketClosed, conn, k)
      else case sys_recv os (conn_socket conn) max_bytes k of
          (Inl e, k) \<Rightarrow>
            if e = EAGAIN then (Inr [], conn, k)
            else (Inl (SystemError e ''Receive failed''), conn, k)
        | (Inr bytes, k) \<Rightarrow>
            if length bytes = 0 then (Inr [], disconnect os conn k)
            else (Inr bytes, conn, k))"

section \<open>The listening server\<close>

record tcp_server =
  port :: u16
  server_socket :: int

definition tcp_server_new :: "u16 \<Rightarrow> tcp_server" where
  "tcp_server_new p = \<lparr>port = p, server_socket = - 1\<rparr>"

text \<open>The server object survives an exception of \<open>start\<close> and keeps the socket.\<close>

definition tcp_server_start ::
    "'k os \<Rightarrow> tcp_server \<Rightarrow> 'k \<Rightarrow> (net_error + unit) \<times> tcp_server \<times> 'k" where
  "tcp_server_start os srv k =
     (case sys_socket os k of
        (Inl e, k) \<Rightarrow> (Inl (SystemError e ''Failed to create server socket''), srv, k)
      | (Inr sock, k) \<Rightarrow>
          (let ((fd, _), k) = move_assign os (server_socket srv) sock k;
               srv = srv\<lparr>server_socket := fd\<rparr>
           in case sys_reuseaddr os fd k of
                (Some e, k) \<Rightarrow> (Inl (SystemError e ''Failed to set SO_REUSEADDR''), srv, k)
              | (None, k) \<Rightarrow>
                  (case set_nonblocking os ''Failed to set O_NONBLOCK on server socket'' fd k of
                     (Inl e, k) \<Rightarrow> (Inl e, srv, k)
                   | (Inr _, k) \<Rightarrow>
                       (case sys_bind os fd (port srv) k of
                          (Some e, k) \<Rightarrow>
                            (Inl (SystemError e (''Bind failed on port '' @ std_to_string (unat (port srv)))),
                             srv, k)
                        | (None, k) \<Rightarrow>
                            (case sys_listen os fd 10 k of
                               (Some e, k) \<Rightarrow> (Inl (SystemError e ''Listen failed''), srv, k)
                             | (None, k) \<Rightarrow> (Inr (), srv, k))))))"

text \<open>\<open>Inr None\<close> is the null pointer: no pending connection.\<close>

definition accept_connection :: "'k os \<Rightarrow> tcp_server \<Rightarrow> (connection option, 'k) io" where
  "accept_connection os srv k =
     (case sys_accept os (server_socket srv) k of
        (Inl e, k) \<Rightarrow>
          if e = EAGAIN then (Inr None, k) else (Inl (SystemError e ''Accept failed''), k)
      | (Inr client_sock, k) \<Rightarrow>
          (case connection_new os client_sock k of
             (Inl e, k) \<Rightarrow> (Inl e, k)
           | (Inr conn, k) \<Rightarrow> (Inr (Some conn), k)))"

definition tcp_server_stop :: "'k os \<Rightarrow> tcp_server \<Rightarrow> 'k \<Rightarrow> tcp_server \<times> 'k" where
  "tcp_server_stop os srv k =
     (let ((fd, _), k) = move_assign os (server_socket srv) (- 1) k in (srv\<lparr>server_socket := fd\<rparr>, k))"

section \<open>Ownership of descriptors\<close>

text \<open>The documented behaviour on the set of open descriptors: \<open>socket\<close> and \<open>accept\<close> return a
  descriptor that was not open, \<open>close\<close> closes it, and no other call changes the set.\<close>

definition descriptors_spec :: "'k os \<Rightarrow> ('k \<Rightarrow> int set) \<Rightarrow> bool" where
  "descriptors_spec os fds \<longleftrightarrow>
     (\<forall>k. case sys_socket os k of
        (Inl _, k') \<Rightarrow> fds k' = fds k
      | (Inr fd, k') \<Rightarrow> 0 \<le> fd \<and> fd \<notin> fds k \<and> fds k' = insert fd (fds k)) \<and>
     (\<forall>s k. case sys_accept os s k of
        (Inl _, k') \<Rightarrow> fds k' = fds k
      | (Inr fd, k') \<Rightarrow> 0 \<le> fd \<and> fd \<notin> fds k \<and> fds k' = insert fd (fds k)) \<and>
     (\<forall>fd k. fds (sys_close os fd k) = fds k - {fd}) \<and>
     (\<forall>fd k. fds (snd (sys_getfl os fd k)) = fds k) \<and>
     (\<forall>fd f k. fds (snd (sys_setfl os fd f k)) = fds k) \<and>
     (\<forall>fd k. fds (snd (sys_reuseaddr os fd k)) = fds k) \<and>
     (\<forall>fd a p k. fds (snd (sys_connect os fd a p k)) = fds k) \<and>
     (\<forall>fd p k. fds (snd (sys_bind os fd p k)) = fds k) \<and>
     (\<forall>fd n k. fds (snd (sys_listen os fd n k)) = fds k) \<and>
     (\<forall>fd n k. fds (snd (sys_recv os fd n k)) = fds k)"

lemma nonblocking_fds:
  "descriptors_spec os fds \<Longrightarrow> fds (snd (set_nonblocking os what fd k)) = fds k"
  unfolding set_nonblocking_def descriptors_spec_def
  by (auto split: prod.split sum.split option.split) (metis snd_conv)+

lemma connection_new_fds:
  assumes "descriptors_spec os fds" and "0 \<le> fd"
  shows "case connection_new os fd k of
     (Inl _, k') \<Rightarrow> fds k' = fds k - {fd}
   | (Inr conn, k') \<Rightarrow> fds k' = fds k \<and> conn_socket conn = fd"
proof -
  have close: "fds (close_socket os fd k) = fds k - {fd}" for k
    using assms by (auto simp: close_socket_def descriptors_spec_def)
  obtain r k' where n: "set_nonblocking os ''Failed to set O_NONBLOCK'' fd k = (r, k')" by fastforce
  have "fds k' = fds k" using nonblocking_fds [OF assms(1)] n by (metis snd_conv)
  then show ?thesis
    using assms(2) close n by (auto simp: connection_new_def is_valid_def split: sum.split)
qed

lemma socket_fds:
  assumes "descriptors_spec os fds"
  shows "case sys_socket os k of
        (Inl _, k') \<Rightarrow> fds k' = fds k
      | (Inr fd, k') \<Rightarrow> 0 \<le> fd \<and> fd \<notin> fds k \<and> fds k' = insert fd (fds k)"
  using assms by (simp add: descriptors_spec_def)

lemma accept_fds:
  assumes "descriptors_spec os fds"
  shows "case sys_accept os s k of
        (Inl _, k') \<Rightarrow> fds k' = fds k
      | (Inr fd, k') \<Rightarrow> 0 \<le> fd \<and> fd \<notin> fds k \<and> fds k' = insert fd (fds k)"
  using assms by (simp add: descriptors_spec_def)

lemma close_fds: "descriptors_spec os fds \<Longrightarrow> 0 \<le> fd \<Longrightarrow> fds (close_socket os fd k) = fds k - {fd}"
  by (auto simp: close_socket_def descriptors_spec_def)

lemma connect_fds: "descriptors_spec os fds \<Longrightarrow> fds (snd (sys_connect os fd a p k)) = fds k"
  by (simp add: descriptors_spec_def)

lemma connect_to_fds:
  assumes spec: "descriptors_spec os fds"
  shows "case connect_to os ip p k of
     (Inl _, k') \<Rightarrow> fds k' = fds k
   | (Inr conn, k') \<Rightarrow> conn_socket conn \<notin> fds k \<and> fds k' = insert (conn_socket conn) (fds k) \<and>
       remote_ip conn = ip \<and> remote_port conn = Some p"
proof -
  obtain r1 k1 where 1: "sys_socket os k = (r1, k1)" by fastforce
  show ?thesis
  proof (cases r1)
    case (Inl e)
    then show ?thesis using socket_fds [OF spec, where k = k] by (simp add: connect_to_def 1)
  next
    case (Inr fd)
    then have fd: "0 \<le> fd" "fd \<notin> fds k" "fds k1 = insert fd (fds k)"
      using socket_fds [OF spec, where k = k] by (simp_all add: 1)
    obtain r2 k2 where 2: "set_nonblocking os ''Failed to set O_NONBLOCK on client socket'' fd k1 = (r2, k2)"
      by fastforce
    have k2: "fds k2 = insert fd (fds k)" using nonblocking_fds [OF spec] 2 fd(3) by (metis snd_conv)
    have closed: "fds (close_socket os fd k') = fds k" if "fds k' = insert fd (fds k)" for k'
      using close_fds [OF spec fd(1)] fd(2) that by simp
    show ?thesis
    proof (cases r2)
      case (Inl e)
      then show ?thesis using closed [OF k2] by (simp add: connect_to_def 1 \<open>r1 = Inr fd\<close> 2)
    next
      case (Inr u)
      note 12 = 1 \<open>r1 = Inr fd\<close> 2 Inr
      show ?thesis
      proof (cases "inet_pton os ip")
        case None
        then show ?thesis using closed [OF k2] by (simp add: connect_to_def 12)
      next
        case (Some a)
        obtain r3 k3 where 3: "sys_connect os fd a p k2 = (r3, k3)" by fastforce
        have k3: "fds k3 = insert fd (fds k)" using connect_fds [OF spec, of fd a p k2] k2 by (simp add: 3)
        have "case connection_new os fd k3 of
           (Inl _, k') \<Rightarrow> fds k' = fds k3 - {fd}
         | (Inr conn, k') \<Rightarrow> fds k' = fds k3 \<and> conn_socket conn = fd"
          by (rule connection_new_fds [OF spec fd(1)])
        then show ?thesis
          using closed [OF k3] k3 fd(2)
          by (auto simp: connect_to_def 12 Some 3 split: prod.splits sum.splits)
      qed
    qed
  qed
qed

lemma accept_connection_fds:
  assumes spec: "descriptors_spec os fds"
  shows "case accept_connection os srv k of
     (Inr (Some conn), k') \<Rightarrow> conn_socket conn \<notin> fds k \<and> fds k' = insert (conn_socket conn) (fds k)
   | (_, k') \<Rightarrow> fds k' = fds k"
proof -
  obtain r1 k1 where 1: "sys_accept os (server_socket srv) k = (r1, k1)" by fastforce
  show ?thesis
  proof (cases r1)
    case (Inl e)
    then show ?thesis
      using accept_fds [OF spec, where k = k and s = "server_socket srv"] by (simp add: accept_connection_def 1)
  next
    case (Inr fd)
    then have fd: "0 \<le> fd" "fd \<notin> fds k" "fds k1 = insert fd (fds k)"
      using accept_fds [OF spec, where k = k and s = "server_socket srv"] by (simp_all add: 1)
    have "case connection_new os fd k1 of
       (Inl _, k') \<Rightarrow> fds k' = fds k1 - {fd}
     | (Inr conn, k') \<Rightarrow> fds k' = fds k1 \<and> conn_socket conn = fd"
      by (rule connection_new_fds [OF spec fd(1)])
    with fd Inr show ?thesis
      by (auto simp: accept_connection_def 1 split: prod.splits sum.splits)
  qed
qed

text \<open>A kernel that counts the calls of \<open>close\<close> on descriptors that are not open (\<open>EBADF\<close>); in a process with
  several threads such a call could hit a descriptor that another thread has just been given.\<close>

definition closes_spec :: "'k os \<Rightarrow> ('k \<Rightarrow> int set) \<Rightarrow> ('k \<Rightarrow> nat) \<Rightarrow> bool" where
  "closes_spec os fds bad \<longleftrightarrow>
     (\<forall>fd k. bad (sys_close os fd k) = (if fd \<in> fds k then bad k else Suc (bad k))) \<and>
     (\<forall>k. bad (snd (sys_socket os k)) = bad k) \<and>
     (\<forall>s k. bad (snd (sys_accept os s k)) = bad k) \<and>
     (\<forall>fd k. bad (snd (sys_getfl os fd k)) = bad k) \<and>
     (\<forall>fd f k. bad (snd (sys_setfl os fd f k)) = bad k) \<and>
     (\<forall>fd a p k. bad (snd (sys_connect os fd a p k)) = bad k)"

lemma closes_calls:
  assumes "closes_spec os fds bad"
  shows "sys_socket os k = (r1, k') \<Longrightarrow> bad k' = bad k"
    and "sys_accept os s k = (r2, k') \<Longrightarrow> bad k' = bad k"
    and "sys_getfl os fd k = (r3, k') \<Longrightarrow> bad k' = bad k"
    and "sys_setfl os fd f k = (r4, k') \<Longrightarrow> bad k' = bad k"
    and "sys_connect os fd a p k = (r5, k') \<Longrightarrow> bad k' = bad k"
    and "fd \<in> fds k \<Longrightarrow> bad (close_socket os fd k) = bad k"
proof -
  have *: "bad (snd (sys_socket os k)) = bad k" "bad (snd (sys_accept os s k)) = bad k"
    "bad (snd (sys_getfl os fd k)) = bad k" "bad (snd (sys_setfl os fd f k)) = bad k"
    "bad (snd (sys_connect os fd a p k)) = bad k" "fd \<in> fds k \<longrightarrow> bad (sys_close os fd k) = bad k"
    using assms by (simp_all add: closes_spec_def)
  show "sys_socket os k = (r1, k') \<Longrightarrow> bad k' = bad k" "sys_accept os s k = (r2, k') \<Longrightarrow> bad k' = bad k"
    "sys_getfl os fd k = (r3, k') \<Longrightarrow> bad k' = bad k" "sys_setfl os fd f k = (r4, k') \<Longrightarrow> bad k' = bad k"
    "sys_connect os fd a p k = (r5, k') \<Longrightarrow> bad k' = bad k"
    "fd \<in> fds k \<Longrightarrow> bad (close_socket os fd k) = bad k"
    using * by (simp_all add: close_socket_def)
qed

lemma nonblocking_closes:
  assumes "closes_spec os fds bad" and "set_nonblocking os what fd k = (r, k')"
  shows "bad k' = bad k"
proof -
  obtain q k1 where 1: "sys_getfl os fd k = (q, k1)" by fastforce
  show ?thesis
    using assms(2) closes_calls(3) [OF assms(1) 1] closes_calls(4) [OF assms(1), of fd _ k1]
    by (auto simp: set_nonblocking_def 1 split: prod.splits sum.splits option.splits)
qed

lemma connection_new_closes:
  assumes "descriptors_spec os fds" and "closes_spec os fds bad" and "fd \<in> fds k"
    and "connection_new os fd k = (r, k')"
  shows "bad k' = bad k"
proof -
  obtain r1 k1 where 1: "set_nonblocking os ''Failed to set O_NONBLOCK'' fd k = (r1, k1)" by fastforce
  have "bad k1 = bad k" "fds k1 = fds k"
    using nonblocking_closes [OF assms(2) 1] nonblocking_fds [OF assms(1)] 1 by (simp, metis snd_conv)
  then show ?thesis
    using assms(3,4) closes_calls(6) [OF assms(2), of fd k1]
    by (auto simp: connection_new_def 1 Let_def split: if_splits sum.splits)
qed

lemma connect_to_closes:
  assumes spec: "descriptors_spec os fds" and close: "closes_spec os fds bad"
    and run: "connect_to os ip p k = (r, k')"
  shows "bad k' = bad k"
proof -
  obtain r1 k1 where 1: "sys_socket os k = (r1, k1)" by fastforce
  note b1 = closes_calls(1) [OF close 1]
  show ?thesis
  proof (cases r1)
    case (Inl e)
    then show ?thesis using run b1 by (simp add: connect_to_def 1)
  next
    case (Inr fd)
    then have fd: "fd \<in> fds k1" using socket_fds [OF spec, where k = k] by (simp add: 1)
    obtain r2 k2 where 2: "set_nonblocking os ''Failed to set O_NONBLOCK on client socket'' fd k1 = (r2, k2)"
      by fastforce
    have b2: "bad k2 = bad k" "fd \<in> fds k2"
      using nonblocking_closes [OF close 2] nonblocking_fds [OF spec] 2 fd b1 by (simp, metis snd_conv)
    have b3: "bad k3 = bad k" "fd \<in> fds k3" if "sys_connect os fd a p k2 = (c, k3)" for a c k3
      using closes_calls(5) [OF close that] connect_fds [OF spec, of fd a p k2] that b2 by simp_all
    have b4: "bad k4 = bad k" if "sys_connect os fd a p k2 = (c, k3)" "connection_new os fd k3 = (q, k4)" for a c k3 q k4
      using connection_new_closes [OF spec close b3(2) [OF that(1)] that(2)] b3(1) [OF that(1)] by simp
    show ?thesis
      using run b2 b3 b4 closes_calls(6) [OF close]
      by (auto simp: connect_to_def 1 Inr 2 split: sum.splits option.splits prod.splits if_splits)
  qed
qed

lemma accept_connection_closes:
  assumes spec: "descriptors_spec os fds" and close: "closes_spec os fds bad"
    and run: "accept_connection os srv k = (r, k')"
  shows "bad k' = bad k"
proof -
  obtain r1 k1 where 1: "sys_accept os (server_socket srv) k = (r1, k1)" by fastforce
  note b1 = closes_calls(2) [OF close 1]
  show ?thesis
  proof (cases r1)
    case (Inl e)
    then show ?thesis using run b1 by (simp add: accept_connection_def 1 split: if_splits)
  next
    case (Inr fd)
    then have fd: "fd \<in> fds k1"
      using accept_fds [OF spec, where k = k and s = "server_socket srv"] by (simp add: 1)
    obtain q k2 where 2: "connection_new os fd k1 = (q, k2)" by fastforce
    show ?thesis
      using run connection_new_closes [OF spec close fd 2] b1 by (auto simp: accept_connection_def 1 Inr 2 split: sum.splits)
  qed
qed

text \<open>C27 Ownership of descriptors: on every error path of \<open>connect_to\<close> and \<open>accept_connection\<close> the
  set of open descriptors is what it was before the call, and on success it has exactly the descriptor
  of the returned connection in addition; and on no path is \<open>close\<close> called on a descriptor that is not open, so
  none is closed twice.\<close>

theorem connections_own_descriptors:
  assumes "descriptors_spec os fds" and "closes_spec os fds bad"
  shows "(case connect_to os ip p k of
     (Inl _, k') \<Rightarrow> fds k' = fds k \<and> bad k' = bad k
   | (Inr conn, k') \<Rightarrow> conn_socket conn \<notin> fds k \<and> fds k' = insert (conn_socket conn) (fds k) \<and> bad k' = bad k) \<and>
   (case accept_connection os srv k of
     (Inr (Some conn), k') \<Rightarrow>
       conn_socket conn \<notin> fds k \<and> fds k' = insert (conn_socket conn) (fds k) \<and> bad k' = bad k
   | (_, k') \<Rightarrow> fds k' = fds k \<and> bad k' = bad k)"
  using connect_to_fds [OF assms(1), where ip = ip and p = p and k = k]
    accept_connection_fds [OF assms(1), where srv = srv and k = k]
    connect_to_closes [OF assms, where ip = ip and p = p and k = k]
    accept_connection_closes [OF assms, where srv = srv and k = k]
  by (auto split: prod.splits sum.splits option.splits)

text \<open>\<open>start\<close> opens at most one descriptor, which the server owns, whatever it answers.\<close>

lemma tcp_server_start_fds:
  assumes "descriptors_spec os fds"
    and "tcp_server_start os (tcp_server_new p) k = (r, srv, k')"
  shows "(server_socket srv = - 1 \<and> r \<noteq> Inr () \<and> fds k' = fds k) \<or>
    (0 \<le> server_socket srv \<and> server_socket srv \<notin> fds k \<and> fds k' = insert (server_socket srv) (fds k))"
proof -
  obtain r1 k1 where 1: "sys_socket os k = (r1, k1)" by fastforce
  show ?thesis
  proof (cases r1)
    case (Inl e)
    then show ?thesis
      using assms(2) socket_fds [OF assms(1), where k = k]
      by (auto simp: tcp_server_start_def 1 tcp_server_new_def)
  next
    case (Inr fd)
    then have fd: "0 \<le> fd" "fd \<notin> fds k" "fds k1 = insert fd (fds k)"
      using socket_fds [OF assms(1), where k = k] by (simp_all add: 1)
    obtain r2 k2 where 2: "sys_reuseaddr os fd k1 = (r2, k2)" by fastforce
    obtain r3 k3 where 3: "set_nonblocking os ''Failed to set O_NONBLOCK on server socket'' fd k2 = (r3, k3)"
      by fastforce
    obtain r4 k4 where 4: "sys_bind os fd p k3 = (r4, k4)" by fastforce
    obtain r5 k5 where 5: "sys_listen os fd 10 k4 = (r5, k5)" by fastforce
    have "fds (snd (sys_reuseaddr os fd k1)) = fds k1" "fds (snd (sys_bind os fd p k3)) = fds k3"
      "fds (snd (sys_listen os fd 10 k4)) = fds k4"
      using assms(1) by (simp_all only: descriptors_spec_def)
    moreover have "fds (snd (set_nonblocking os ''Failed to set O_NONBLOCK on server socket'' fd k2)) = fds k2"
      by (rule nonblocking_fds [OF assms(1)])
    ultimately have same: "fds k2 = fds k1" "fds k3 = fds k1" "fds k4 = fds k1" "fds k5 = fds k1"
      by (simp_all add: 2 3 4 5)
    let ?srv = "\<lparr>port = p, server_socket = fd\<rparr>"
    let ?run = "tcp_server_start os (tcp_server_new p) k"
    note eval = tcp_server_start_def 1 Inr move_assign_def close_socket_def tcp_server_new_def 2 3 4 5
    have run: "snd ?run \<in> Pair ?srv ` {k2, k3, k4, k5}"
    proof (cases r2)
      case (Some e)
      then show ?thesis by (simp add: eval)
    next
      case r2: None
      show ?thesis
      proof (cases r3)
        case (Inl e)
        then show ?thesis using r2 by (simp add: eval)
      next
        case r3: (Inr u)
        show ?thesis
        proof (cases r4)
          case (Some e)
          then show ?thesis using r2 r3 by (simp add: eval)
        next
          case None
          then show ?thesis using r2 r3 by (cases r5) (simp_all add: eval)
        qed
      qed
    qed
    have "snd ?run = (srv, k')" using assms(2) by simp
    then have "srv = ?srv" "k' \<in> {k2, k3, k4, k5}"
      using run by auto
    then have "server_socket srv = fd \<and> fds k' = fds k1" using same by auto
    then show ?thesis using fd by simp
  qed
qed

text \<open>A server that was started, whatever \<open>start\<close> answered, and then stopped leaves no descriptor
  open.\<close>

theorem start_stop_balanced:
  assumes "descriptors_spec os fds"
    and "tcp_server_start os (tcp_server_new p) k = (r, srv, k')"
  shows "fds (snd (tcp_server_stop os srv k')) = fds k"
  using tcp_server_start_fds [OF assms] close_fds [OF assms(1)]
  by (auto simp: tcp_server_stop_def move_assign_def close_socket_def)

section \<open>Sending\<close>

text \<open>The documented behaviour of \<open>send\<close> on a stream socket: an error sends nothing; otherwise a prefix of
  the buffer, not empty unless the buffer is, is appended to the stream.\<close>

definition send_spec :: "'k os \<Rightarrow> int \<Rightarrow> ('k \<Rightarrow> u8 list) \<Rightarrow> bool" where
  "send_spec os fd stream \<longleftrightarrow>
     (\<forall>bytes k. case sys_send os fd bytes k of
        (Inl _, k') \<Rightarrow> stream k' = stream k
      | (Inr n, k') \<Rightarrow> n \<le> length bytes \<and> (bytes \<noteq> [] \<longrightarrow> 0 < n) \<and> stream k' = stream k @ take n bytes)"

lemma send_step:
  assumes "send_spec os fd stream"
  shows "case sys_send os fd bytes k of
      (Inl _, k') \<Rightarrow> stream k' = stream k
    | (Inr n, k') \<Rightarrow> n \<le> length bytes \<and> (bytes \<noteq> [] \<longrightarrow> 0 < n) \<and> stream k' = stream k @ take n bytes"
  using assms by (simp add: send_spec_def)

lemma send_loop_prefix:
  assumes spec: "send_spec os fd stream" and "t \<le> length data" and "stream k = old @ take t data"
  shows "\<exists>r k' n. send_loop os fd data t k = Some (r, k') \<and> n \<le> length data \<and>
    stream k' = old @ take n data \<and> (\<forall>m. r = Inr m \<longrightarrow> m = n)"
  using assms(2,3)
proof (induction "length data - t" arbitrary: t k rule: less_induct)
  case less
  show ?case
  proof (cases "t < length data")
    case False
    then show ?thesis using less.prems by (subst send_loop.simps) auto
  next
    case True
    obtain r k1 where 1: "sys_send os fd (drop t data) k = (r, k1)" by fastforce
    have s: "case sys_send os fd (drop t data) k of
        (Inl _, k') \<Rightarrow> stream k' = stream k
      | (Inr n, k') \<Rightarrow> n \<le> length (drop t data) \<and> (drop t data \<noteq> [] \<longrightarrow> 0 < n) \<and>
          stream k' = stream k @ take n (drop t data)"
      by (rule send_step [OF spec])
    show ?thesis
    proof (cases r)
      case (Inl e)
      then have "stream k1 = old @ take t data" using s less.prems by (simp add: 1)
      moreover have "send_loop os fd data t k =
          Some (if e = EAGAIN then Inr t else Inl (SystemError e ''Send failed''), k1)"
        using True Inl 1 by (subst send_loop.simps) simp
      ultimately show ?thesis using less.prems(1) by (cases "e = EAGAIN") auto
    next
      case (Inr n)
      then have n: "n \<le> length data - t" "0 < n" "stream k1 = stream k @ take n (drop t data)"
        using s True by (simp_all add: 1)
      then have "stream k1 = old @ take (t + n) data" using less.prems by (simp add: take_add)
      moreover have "send_loop os fd data t k = send_loop os fd data (t + n) k1"
        using True Inr 1 by (subst send_loop.simps) simp
      moreover have "length data - (t + n) < length data - t" "t + n \<le> length data" using n True by linarith+
      ultimately show ?thesis using less.hyps [of "t + n" k1] by simp
    qed
  qed
qed

text \<open>C34 \<open>send_data\<close> always returns; what it has sent is a prefix of the data, in order and without gaps
  or repetitions however the kernel splits it, and the number it returns is the length of that prefix.\<close>

theorem send_data_prefix:
  assumes "send_spec os (conn_socket conn) stream" and "is_valid (conn_socket conn)"
  shows "\<exists>r k' n. send_data os conn data k = Some (r, k') \<and> n \<le> length data \<and>
    stream k' = stream k @ take n data \<and> (\<forall>m. r = Inr m \<longrightarrow> m = n)"
  using send_loop_prefix [OF assms(1), of 0 data k "stream k"] assms(2) by (simp add: send_data_def)

lemma receive_data_cases:
  "receive_data os conn n k =
     (if \<not> is_valid (conn_socket conn) then (Inl SocketClosed, conn, k)
      else case sys_recv os (conn_socket conn) n k of
        (Inl EAGAIN, k') \<Rightarrow> (Inr [], conn, k')
      | (Inl e, k') \<Rightarrow> (Inl (SystemError e ''Receive failed''), conn, k')
      | (Inr [], k') \<Rightarrow> (Inr [], conn\<lparr>conn_socket := - 1\<rparr>, sys_close os (conn_socket conn) k')
      | (Inr bytes, k') \<Rightarrow> (Inr bytes, conn, k'))"
  by (auto simp: receive_data_def disconnect_def move_assign_def close_socket_def is_valid_def
      split: prod.split sum.split errno.split list.split)

text \<open>An empty answer of \<open>receive_data\<close> has two meanings, end of the stream and no data yet, which the
  caller can only tell apart by the descriptor: at the end of the stream the connection closes its
  descriptor and becomes invalid, and without data nothing changes but the kernel.\<close>

theorem receive_data_empty:
  assumes "receive_data os conn n k = (Inr [], conn', k')" and "is_valid (conn_socket conn)"
  shows "(is_valid (conn_socket conn') \<longleftrightarrow> (\<exists>k1. sys_recv os (conn_socket conn) n k = (Inl EAGAIN, k1))) \<and>
    (is_valid (conn_socket conn') \<longrightarrow> conn' = conn)"
  using assms unfolding receive_data_cases
  by (auto simp: is_valid_def split: prod.splits sum.splits errno.splits list.splits if_splits)

section \<open>A kernel\<close>

text \<open>A small kernel that meets the specifications: the open descriptors and the bytes sent; it sends at most
  three bytes at a time and refuses to connect.\<close>

type_synonym small_kernel = "int list \<times> u8 list"

definition fresh_fd :: "int list \<Rightarrow> int" where
  "fresh_fd fds = fold max fds 2 + 1"

definition small_os :: "small_kernel os" where
  "small_os =
     \<lparr>sys_socket = (\<lambda>(fds, out). (Inr (fresh_fd fds), (fresh_fd fds # fds, out))),
      sys_close = (\<lambda>fd (fds, out). (removeAll fd fds, out)),
      sys_getfl = (\<lambda>fd k. (Inr 2, k)),
      sys_setfl = (\<lambda>fd flags k. (None, k)),
      sys_reuseaddr = (\<lambda>fd k. (None, k)),
      sys_connect = (\<lambda>fd a p k. (Some (Errno 111), k)),
      sys_bind = (\<lambda>fd p k. (None, k)),
      sys_listen = (\<lambda>fd n k. (None, k)),
      sys_accept = (\<lambda>fd (fds, out). (Inr (fresh_fd fds), (fresh_fd fds # fds, out))),
      sys_send = (\<lambda>fd bytes (fds, out). (Inr (min 3 (length bytes)), (fds, out @ take 3 bytes))),
      sys_recv = (\<lambda>fd n k. (Inr [], k)),
      inet_pton = (\<lambda>s. Some 0x7F000001)\<rparr>"

lemma fold_max_ge: "(a::int) \<le> fold max xs a \<and> (\<forall>x \<in> set xs. x \<le> fold max xs a)"
proof (induction xs arbitrary: a)
  case (Cons x xs)
  have "max x a \<le> fold max xs (max x a)" "\<forall>y \<in> set xs. y \<le> fold max xs (max x a)"
    using Cons.IH [of "max x a"] by blast+
  then show ?case by auto
qed simp

lemma fresh_fd: "0 \<le> fresh_fd fds \<and> fresh_fd fds \<notin> set fds"
  using fold_max_ge [of 2 fds] by (force simp: fresh_fd_def)

lemma small_os_descriptors: "descriptors_spec small_os (set \<circ> fst)"
  using fresh_fd by (auto simp: descriptors_spec_def small_os_def)

lemma small_os_send: "send_spec small_os fd snd"
  by (auto simp: send_spec_def small_os_def min_def)

text \<open>A kernel with the count of the failed calls of \<open>close\<close>, which refuses every connection.\<close>

definition counting_os :: "(int list \<times> nat) os" where
  "counting_os =
     \<lparr>sys_socket = (\<lambda>(fds, n). (Inr (fresh_fd fds), (fresh_fd fds # fds, n))),
      sys_close = (\<lambda>fd (fds, n). (removeAll fd fds, if fd \<in> set fds then n else Suc n)),
      sys_getfl = (\<lambda>fd k. (Inr 2, k)),
      sys_setfl = (\<lambda>fd flags k. (None, k)),
      sys_reuseaddr = (\<lambda>fd k. (None, k)),
      sys_connect = (\<lambda>fd a p k. (Some (Errno 111), k)),
      sys_bind = (\<lambda>fd p k. (None, k)),
      sys_listen = (\<lambda>fd n k. (None, k)),
      sys_accept = (\<lambda>fd (fds, n). (Inr (fresh_fd fds), (fresh_fd fds # fds, n))),
      sys_send = (\<lambda>fd bytes k. (Inr (length bytes), k)),
      sys_recv = (\<lambda>fd n k. (Inr [], k)),
      inet_pton = (\<lambda>s. Some 0x7F000001)\<rparr>"

lemma counting_os_specs: "descriptors_spec counting_os (set \<circ> fst)" "closes_spec counting_os (set \<circ> fst) snd"
  using fresh_fd by (auto simp: descriptors_spec_def closes_spec_def counting_os_def)

lemma connections_own_descriptors_witness:
  "(\<exists>e fds. connect_to counting_os ''127.0.0.1'' 9090 ([5], 0) = (Inl e, fds, 0) \<and> set fds = {5}) \<and>
   (\<exists>conn fds. accept_connection counting_os (tcp_server_new 9090) ([5], 0) = (Inr (Some conn), fds, 0) \<and>
      set fds = {conn_socket conn, 5})"
proof -
  have refused: "connect_to counting_os ''127.0.0.1'' 9090 ([5], 0) =
      (Inl (SystemError (Errno 111) ''Connection failed asynchronously''), snd (connect_to counting_os ''127.0.0.1'' 9090 ([5], 0)))"
    by (simp add: connect_to_def counting_os_def set_nonblocking_def)
  have accepted: "\<exists>conn. fst (accept_connection counting_os (tcp_server_new 9090) ([5], 0)) = Inr (Some conn)"
    by (simp add: accept_connection_def counting_os_def connection_new_def set_nonblocking_def Let_def)
  obtain fds n where 1: "snd (connect_to counting_os ''127.0.0.1'' 9090 ([5], 0)) = (fds, n)" by fastforce
  obtain conn fds' n' where 2: "accept_connection counting_os (tcp_server_new 9090) ([5], 0) = (Inr (Some conn), fds', n')"
    using accepted by (metis prod.collapse)
  from connections_own_descriptors [OF counting_os_specs, where ip = "''127.0.0.1''" and p = 9090 and k = "([5], 0)"
      and srv = "tcp_server_new 9090"]
  show ?thesis by (auto simp: refused [unfolded 1] 2)
qed

lemma start_stop_balanced_witness:
  "set (fst (snd (tcp_server_stop small_os \<lparr>port = 9090, server_socket = 3\<rparr> ([3], [])))) = {}"
proof -
  have "tcp_server_start small_os (tcp_server_new 9090) ([], []) =
      (Inr (), \<lparr>port = 9090, server_socket = 3\<rparr>, ([3], []))"
    by (simp add: tcp_server_start_def tcp_server_new_def small_os_def fresh_fd_def move_assign_def
        close_socket_def set_nonblocking_def)
  from start_stop_balanced [OF small_os_descriptors this] show ?thesis by simp
qed

lemma send_data_prefix_witness:
  "\<exists>r k' n. send_data small_os \<lparr>conn_socket = 3, remote_ip = [], remote_port = None\<rparr> [1, 2, 3, 4, 5] ([3], []) =
     Some (r, k') \<and> n \<le> length [1, 2, 3, 4, 5 :: u8] \<and> snd k' = [] @ take n [1, 2, 3, 4, 5]"
  using send_data_prefix [OF small_os_send, of "\<lparr>conn_socket = 3, remote_ip = [], remote_port = None\<rparr>"
      "[1, 2, 3, 4, 5]" "([3], [])"]
  unfolding is_valid_def connection.simps snd_conv by (simp only: simp_thms eq_neg_numeral_simps) blast

lemma receive_data_empty_witness:
  "\<not> is_valid (conn_socket (fst (snd (receive_data small_os
     \<lparr>conn_socket = 3, remote_ip = [], remote_port = None\<rparr> 2048 ([3], [])))))"
proof -
  have run: "receive_data small_os \<lparr>conn_socket = 3, remote_ip = [], remote_port = None\<rparr> 2048 ([3], []) =
      (Inr [], \<lparr>conn_socket = - 1, remote_ip = [], remote_port = None\<rparr>, ([], []))"
    by (simp add: receive_data_cases small_os_def is_valid_def)
  have recv: "sys_recv small_os fd n k = (Inr [], k)" for fd n k by (simp add: small_os_def)
  show ?thesis using receive_data_empty [OF run] by (simp add: run recv is_valid_def)
qed

end
