(* ===== verification/SocketFd.thy ===== *)
theory SocketFd
  imports Sockets
begin

text \<open>
  Ownership of descriptors by \<open>SocketFD\<close> objects (\<^verbatim>\<open>include/core/connection.hpp\<close>): the store of the objects that are
  alive, the special member functions on it, and programs as sequences of their calls. Using an object that
  is not alive, or constructing one where another is alive, is undefined behaviour (\<open>None\<close>). Copying
  is deleted in the class, so no step copies. The fact: whatever such a program does, no two objects own
  the same descriptor, the open descriptors are those that were open before and the owned ones, and
  when no object is left all descriptors that the program opened are closed.
\<close>

section \<open>Definitions\<close>

text \<open>An object is named by its address and is its member \<open>fd_\<close>.\<close>

type_synonym socket_store = "nat \<Rightarrow> int option"

definition sfd_new :: "nat \<Rightarrow> int \<Rightarrow> socket_store \<Rightarrow> socket_store option" where
  "sfd_new this fd objs = (if objs this = None then Some (objs(this \<mapsto> fd)) else None)"

definition sfd_move_new :: "nat \<Rightarrow> nat \<Rightarrow> socket_store \<Rightarrow> socket_store option" where
  "sfd_move_new this other objs =
     (case (objs this, objs other) of
        (None, Some fd) \<Rightarrow> Some (objs(this \<mapsto> fd, other \<mapsto> - 1))
      | _ \<Rightarrow> None)"

definition sfd_move_assign ::
    "'k os \<Rightarrow> nat \<Rightarrow> nat \<Rightarrow> socket_store \<times> 'k \<Rightarrow> (socket_store \<times> 'k) option" where
  "sfd_move_assign os this other st =
     (let (objs, k) = st in
      case (objs this, objs other) of
        (Some fd, Some other_fd) \<Rightarrow>
          if this \<noteq> other then
            (let ((fd, other_fd), k) = move_assign os fd other_fd k
             in Some (objs(this \<mapsto> fd, other \<mapsto> other_fd), k))
          else Some (objs, k)
      | _ \<Rightarrow> None)"

definition sfd_destroy :: "'k os \<Rightarrow> nat \<Rightarrow> socket_store \<times> 'k \<Rightarrow> (socket_store \<times> 'k) option" where
  "sfd_destroy os this st =
     (let (objs, k) = st in
      case objs this of
        None \<Rightarrow> None
      | Some fd \<Rightarrow> Some (objs(this := None), close_socket os fd k))"

text \<open>A program: descriptors enter it by \<open>socket\<close> and \<open>accept\<close>, whose results are wrapped at once.\<close>

inductive sfd_step :: "'k os \<Rightarrow> socket_store \<times> 'k \<Rightarrow> socket_store \<times> 'k \<Rightarrow> bool" for os where
  socket_fails: "sys_socket os k = (Inl e, k') \<Longrightarrow> sfd_step os (objs, k) (objs, k')"
| accept_fails: "sys_accept os s k = (Inl e, k') \<Longrightarrow> sfd_step os (objs, k) (objs, k')"
| wrap_socket: "sys_socket os k = (Inr fd, k') \<Longrightarrow> sfd_new this fd objs = Some objs' \<Longrightarrow>
    sfd_step os (objs, k) (objs', k')"
| wrap_accept: "sys_accept os s k = (Inr fd, k') \<Longrightarrow> sfd_new this fd objs = Some objs' \<Longrightarrow>
    sfd_step os (objs, k) (objs', k')"
| default_new: "sfd_new this (- 1) objs = Some objs' \<Longrightarrow> sfd_step os (objs, k) (objs', k)"
| move_new: "sfd_move_new this other objs = Some objs' \<Longrightarrow> sfd_step os (objs, k) (objs', k)"
| move_assign: "sfd_move_assign os this other (objs, k) = Some st \<Longrightarrow> sfd_step os (objs, k) st"
| destroy: "sfd_destroy os this (objs, k) = Some st \<Longrightarrow> sfd_step os (objs, k) st"

definition sfd_reach :: "'k os \<Rightarrow> socket_store \<times> 'k \<Rightarrow> socket_store \<times> 'k \<Rightarrow> bool" where
  "sfd_reach os = (sfd_step os)\<^sup>*\<^sup>*"

section \<open>Single ownership\<close>

definition owns :: "socket_store \<Rightarrow> nat \<Rightarrow> int \<Rightarrow> bool" where
  "owns objs this fd \<longleftrightarrow> objs this = Some fd \<and> is_valid fd"

definition single_owner :: "('k \<Rightarrow> int set) \<Rightarrow> int set \<Rightarrow> socket_store \<times> 'k \<Rightarrow> bool" where
  "single_owner fds before st \<longleftrightarrow>
     (\<forall>a b fd. owns (fst st) a fd \<longrightarrow> owns (fst st) b fd \<longrightarrow> a = b) \<and>
     (\<forall>a fd. owns (fst st) a fd \<longrightarrow> fd \<notin> before) \<and>
     (\<forall>fd. fd \<in> fds (snd st) \<longleftrightarrow> fd \<in> before \<or> (\<exists>a. owns (fst st) a fd))"

lemma single_ownerD:
  assumes "single_owner fds before (objs, k)"
  shows "owns objs a fd \<Longrightarrow> owns objs b fd \<Longrightarrow> a = b" and "owns objs a fd \<Longrightarrow> fd \<notin> before"
    and "fd \<in> fds k \<longleftrightarrow> fd \<in> before \<or> (\<exists>a. owns objs a fd)"
  using assms unfolding single_owner_def fst_conv snd_conv by blast+

lemma empty_socket [simp]: "\<not> is_valid (- 1)"
  by (simp add: is_valid_def)

lemma owns_new:
  assumes "sfd_new this fd objs = Some objs'"
  shows "owns objs' a f \<longleftrightarrow> (a = this \<and> f = fd \<and> is_valid fd) \<or> owns objs a f"
  using assms by (auto simp: sfd_new_def owns_def split: if_splits)

lemma single_owner_new:
  assumes so: "single_owner fds before (objs, k)" and new: "sfd_new this fd objs = Some objs'"
    and "fd \<notin> fds k" and "fds k' = insert fd (fds k)" and "is_valid fd"
  shows "single_owner fds before (objs', k')"
proof -
  have fd: "\<not> owns objs a fd" "fd \<notin> before" for a using single_ownerD(3) [OF so] assms(3) by blast+
  show ?thesis
    unfolding single_owner_def fst_conv snd_conv owns_new [OF new] assms(4) insert_iff
  proof (intro conjI allI impI)
    fix a b f
    assume "a = this \<and> f = fd \<and> is_valid fd \<or> owns objs a f" "b = this \<and> f = fd \<and> is_valid fd \<or> owns objs b f"
    then show "a = b" using fd(1) single_ownerD(1) [OF so] by (elim disjE) auto
  next
    fix a f
    assume "a = this \<and> f = fd \<and> is_valid fd \<or> owns objs a f"
    then show "f \<notin> before" using fd(2) single_ownerD(2) [OF so] by (elim disjE) auto
  next
    fix f
    have "(\<exists>a. a = this \<and> f = fd \<and> is_valid fd \<or> owns objs a f) \<longleftrightarrow> f = fd \<or> (\<exists>a. owns objs a f)"
      using assms(5) by blast
    then show "(f = fd \<or> f \<in> fds k) =
        (f \<in> before \<or> (\<exists>a. a = this \<and> f = fd \<and> is_valid fd \<or> owns objs a f))"
      using single_ownerD(3) [OF so, of f] by argo
  qed
qed

text \<open>The other steps hand owners' descriptors on, or close them: \<open>target\<close> is the object that gets what an
  object owns.\<close>

lemma single_owner_transfer:
  assumes so: "single_owner fds before (objs, k)"
    and own: "\<And>a f. owns objs' a f \<longleftrightarrow> (\<exists>b. owns objs b f \<and> target b = Some a)"
    and inj: "\<And>a b c f g. owns objs a f \<Longrightarrow> owns objs b g \<Longrightarrow> target a = Some c \<Longrightarrow> target b = Some c \<Longrightarrow> a = b"
    and fds: "fds k' = fds k - {f. \<exists>b. owns objs b f \<and> target b = None}"
  shows "single_owner fds before (objs', k')"
  unfolding single_owner_def fst_conv snd_conv
proof (intro conjI allI impI)
  fix a b fd
  show "owns objs' a fd \<Longrightarrow> owns objs' b fd \<Longrightarrow> a = b"
    unfolding own using single_ownerD(1) [OF so] by (metis option.inject)
  show "owns objs' a fd \<Longrightarrow> fd \<notin> before" unfolding own using single_ownerD(2) [OF so] by blast
  show "fd \<in> fds k' \<longleftrightarrow> fd \<in> before \<or> (\<exists>a. owns objs' a fd)"
    unfolding own fds Diff_iff mem_Collect_eq
    using single_ownerD [OF so] by (metis option.exhaust option.distinct(1))
qed

lemma close_socket_owner:
  assumes "descriptors_spec os fds" and "objs this = Some fd"
  shows "fds (close_socket os fd k) = fds k - {f. owns objs this f}"
  using assms by (auto simp: descriptors_spec_def close_socket_def owns_def is_valid_def)

lemma single_owner_step:
  assumes spec: "descriptors_spec os fds" and "sfd_step os st st'" and "single_owner fds before st"
  shows "single_owner fds before st'"
  using assms(2,3)
proof (induction rule: sfd_step.induct)
  case (socket_fails k e k' objs)
  then show ?case using socket_fds [OF spec, of k] by (simp add: single_owner_def)
next
  case (accept_fails s k e k' objs)
  then show ?case using accept_fds [OF spec, where s = s and k = k] by (simp add: single_owner_def)
next
  case (wrap_socket k fd k' this objs objs')
  then show ?case
    using socket_fds [OF spec, of k] single_owner_new [OF wrap_socket(3,2)] by (simp add: is_valid_def)
next
  case (wrap_accept s k fd k' this objs objs')
  then show ?case
    using accept_fds [OF spec, where s = s and k = k] single_owner_new [OF wrap_accept(3,2)]
    by (simp add: is_valid_def)
next
  case (default_new this objs objs' k)
  show ?case
    by (rule single_owner_transfer [OF default_new(2), where target = Some])
      (simp_all add: owns_new [OF default_new(1)])
next
  case (move_new this other objs objs' k)
  then obtain fd where o: "objs this = None" "objs other = Some fd" "objs' = objs(this \<mapsto> fd, other \<mapsto> - 1)"
    by (auto simp: sfd_move_new_def split: option.splits)
  then have ne: "this \<noteq> other" by auto
  show ?case
    by (rule single_owner_transfer [OF move_new(2), where target = "\<lambda>b. Some (if b = other then this else b)"])
      (use o ne in \<open>auto simp: owns_def split: if_splits\<close>)
next
  case (move_assign this other objs k st)
  then obtain fd other_fd where o: "objs this = Some fd" "objs other = Some other_fd"
      "st = (if this \<noteq> other then (objs(this \<mapsto> other_fd, other \<mapsto> - 1), close_socket os fd k) else (objs, k))"
    by (auto simp: sfd_move_assign_def move_assign_def Let_def split: option.splits if_splits)
  show ?case
  proof (cases "this = other")
    case False
    have "single_owner fds before (objs(this \<mapsto> other_fd, other \<mapsto> - 1), close_socket os fd k)"
      by (rule single_owner_transfer [OF move_assign(2), where
            target = "\<lambda>b. if b = this then None else Some (if b = other then this else b)"])
        (use o(1,2) False close_socket_owner [OF spec, where objs = objs and this = this, OF o(1)] in \<open>auto simp: owns_def split: if_splits\<close>)
    then show ?thesis using False by (simp add: o(3))
  qed (use move_assign(2) o(3) in simp)
next
  case (destroy this objs k st)
  then obtain fd where o: "objs this = Some fd" "st = (objs(this := None), close_socket os fd k)"
    by (auto simp: sfd_destroy_def split: option.splits)
  show ?case
    unfolding o(2)
    by (rule single_owner_transfer [OF destroy(2), where target = "\<lambda>b. if b = this then None else Some b"])
      (use o(1) close_socket_owner [OF spec, where objs = objs and this = this, OF o(1)] in \<open>auto simp: owns_def split: if_splits\<close>)
qed

text \<open>C24 Single ownership: after any sequence of constructions, moves, assignments and destructions of
  \<open>SocketFD\<close> objects no two of them own the same descriptor, so none is closed twice or behind
  the back of its owner; exactly the descriptors that were open before and the owned ones are open;
  and when all objects are gone nothing has leaked.\<close>

theorem descriptors_single_owner:
  assumes "descriptors_spec os fds" and "sfd_reach os (Map.empty, k0) (objs, k)"
  shows "(\<forall>a b fd. objs a = Some fd \<and> objs b = Some fd \<and> is_valid fd \<longrightarrow> a = b) \<and>
    fds k = fds k0 \<union> {fd. is_valid fd \<and> (\<exists>a. objs a = Some fd)} \<and>
    fds k0 \<inter> {fd. is_valid fd \<and> (\<exists>a. objs a = Some fd)} = {} \<and>
    (objs = Map.empty \<longrightarrow> fds k = fds k0)"
proof -
  have "single_owner fds (fds k0) (Map.empty, k0)" by (simp add: single_owner_def owns_def)
  with assms(2) have "single_owner fds (fds k0) (objs, k)"
    unfolding sfd_reach_def
  proof (induction rule: rtranclp_induct)
    case (step y z)
    then show ?case using single_owner_step [OF assms(1)] by blast
  qed
  then show ?thesis unfolding single_owner_def owns_def by auto
qed

text \<open>A connection is accepted into a temporary object, moved into its connection, and both go.\<close>

lemma accept_and_drop:
  "sfd_reach small_os (Map.empty, [], []) (Map.empty, [], [])"
  "sfd_reach small_os (Map.empty, [], []) ([2 \<mapsto> 3], [3], [])"
proof -
  let ?s = "sfd_step small_os"
  have 1: "?s (Map.empty, [], []) ([1 \<mapsto> 3], [3], [])"
    by (rule sfd_step.wrap_accept [where fd = 3 and this = 1])
      (simp_all add: small_os_def fresh_fd_def sfd_new_def)
  have 2: "?s ([1 \<mapsto> 3], [3], []) ([1 \<mapsto> 3, 2 \<mapsto> 3, 1 \<mapsto> - 1], [3], [])"
    by (rule sfd_step.move_new [where this = 2 and other = 1]) (simp add: sfd_move_new_def)
  have 3: "?s ([1 \<mapsto> 3, 2 \<mapsto> 3, 1 \<mapsto> - 1], [3], []) ([2 \<mapsto> 3], [3], [])"
    by (rule sfd_step.destroy [where this = 1]) (auto simp: sfd_destroy_def close_socket_def)
  have 4: "?s ([2 \<mapsto> 3], [3], []) (Map.empty, [], [])"
    by (rule sfd_step.destroy [where this = 2]) (simp add: sfd_destroy_def close_socket_def small_os_def)
  show two: "sfd_reach small_os (Map.empty, [], []) ([2 \<mapsto> 3], [3], [])"
    unfolding sfd_reach_def using 1 2 3 by (meson rtranclp.rtrancl_into_rtrancl rtranclp.rtrancl_refl)
  show "sfd_reach small_os (Map.empty, [], []) (Map.empty, [], [])"
    using two 4 unfolding sfd_reach_def by (rule rtranclp.rtrancl_into_rtrancl)
qed

lemma descriptors_single_owner_witness:
  "set [3 :: int] = set [] \<union> {fd. is_valid fd \<and> (\<exists>a. [2 \<mapsto> 3] (a :: nat) = Some fd)}"
  using descriptors_single_owner [OF small_os_descriptors accept_and_drop(2)] unfolding comp_def fst_conv by blast

end
