(* ===== verification/EventLoop.thy ===== *)
theory EventLoop
  imports Sockets
begin

text \<open>
  The event loop in its Linux configuration: \<^verbatim>\<open>include/system/event_loop.hpp\<close> and
  \<^verbatim>\<open>src/system/event_loop.cpp\<close>. The epoll instance is part of the kernel state; the callbacks are values of a type
  \<open>'cb\<close> that \<open>poll_once\<close> runs by the argument \<open>run\<close> on the whole state, since a callback may
  register others. \<open>epoll_spec\<close> is the documented behaviour of \<open>epoll_ctl\<close> on the interest set. The facts: the callback table and
  the interest set stay equal through registrations; removing an unknown descriptor adds it; a
  descriptor number that was closed and opened again cannot be registered again.
\<close>

section \<open>Definitions\<close>

datatype epoll_op = EPOLL_CTL_ADD | EPOLL_CTL_MOD | EPOLL_CTL_DEL

record 'k epoll_os =
  sys_epoll_create :: "'k \<Rightarrow> (errno + int) \<times> 'k"
  sys_epoll_ctl :: "epoll_op \<Rightarrow> int \<Rightarrow> u32 \<Rightarrow> 'k \<Rightarrow> errno option \<times> 'k"
  sys_epoll_wait :: "nat \<Rightarrow> u32 \<Rightarrow> 'k \<Rightarrow> (errno + (int \<times> u32) list) \<times> 'k"

definition EPOLLIN :: u32 where
  "EPOLLIN = 0x001"

definition EPOLLRDHUP :: u32 where
  "EPOLLRDHUP = 0x2000"

record 'cb event_loop =
  loop_fd :: int
  callbacks :: "int \<rightharpoonup> 'cb"

definition event_loop_new :: "'k epoll_os \<Rightarrow> ('cb event_loop, 'k) io" where
  "event_loop_new eos k =
     (case sys_epoll_create eos k of
        (Inl e, k) \<Rightarrow> (Inl (SystemError e ''Failed to create epoll fd''), k)
      | (Inr fd, k) \<Rightarrow> (Inr \<lparr>loop_fd = fd, callbacks = Map.empty\<rparr>, k))"

definition event_loop_destroy :: "'k os \<Rightarrow> 'cb event_loop \<Rightarrow> 'k \<Rightarrow> 'k" where
  "event_loop_destroy os loop k = (if 0 \<le> loop_fd loop then sys_close os (loop_fd loop) k else k)"

text \<open>An empty \<open>std::function\<close> is \<open>None\<close>.\<close>

definition register_event ::
    "'k epoll_os \<Rightarrow> int \<Rightarrow> u16 \<Rightarrow> 'cb option \<Rightarrow> 'cb event_loop \<Rightarrow> 'k
      \<Rightarrow> (net_error + unit) \<times> 'cb event_loop \<times> 'k" where
  "register_event eos fd events callback loop k =
     (let ev = ucast events OR EPOLLRDHUP;
          op = (if callbacks loop fd \<noteq> None
                then (if callback \<noteq> None then EPOLL_CTL_MOD else EPOLL_CTL_DEL)
                else EPOLL_CTL_ADD)
      in case sys_epoll_ctl eos op fd ev k of
           (Some e, k) \<Rightarrow> (Inl (SystemError e ''Failed to execute epoll_ctl''), loop, k)
         | (None, k) \<Rightarrow> (Inr (), loop\<lparr>callbacks := (callbacks loop)(fd := callback)\<rparr>, k))"

text \<open>The state that callbacks work on: the loop, the kernel, and the rest of the program.\<close>

type_synonym ('cb, 'k, 's) world = "'cb event_loop \<times> 'k \<times> 's"

fun dispatch ::
    "('cb \<Rightarrow> int \<Rightarrow> u16 \<Rightarrow> ('cb, 'k, 's) world \<Rightarrow> ('e + unit) \<times> ('cb, 'k, 's) world) \<Rightarrow>
      (int \<times> u32) list \<Rightarrow> ('cb, 'k, 's) world \<Rightarrow> ('e + unit) \<times> ('cb, 'k, 's) world" where
  "dispatch run [] w = (Inr (), w)"
| "dispatch run ((fd, events) # evs) w =
     (case callbacks (fst w) fd of
        None \<Rightarrow> dispatch run evs w
      | Some cb \<Rightarrow>
          (case run cb fd (ucast events) w of
             (Inl e, w) \<Rightarrow> (Inl e, w)
           | (Inr _, w) \<Rightarrow> dispatch run evs w))"

definition poll_once ::
    "'k epoll_os \<Rightarrow> (net_error \<Rightarrow> 'e) \<Rightarrow>
      ('cb \<Rightarrow> int \<Rightarrow> u16 \<Rightarrow> ('cb, 'k, 's) world \<Rightarrow> ('e + unit) \<times> ('cb, 'k, 's) world) \<Rightarrow>
      u32 \<Rightarrow> ('cb, 'k, 's) world \<Rightarrow> ('e + unit) \<times> ('cb, 'k, 's) world" where
  "poll_once eos raise run timeout_ms w =
     (let (loop, k, s) = w in
      case sys_epoll_wait eos 10 timeout_ms k of
        (Inl e, k) \<Rightarrow>
          if e = EINTR then (Inr (), loop, k, s)
          else (Inl (raise (SystemError e ''Epoll wait failed'')), loop, k, s)
      | (Inr events, k) \<Rightarrow> dispatch run events (loop, k, s))"

section \<open>The interest set\<close>

text \<open>\<open>epoll_ctl\<close> as documented: \<open>ADD\<close> fails for a member, \<open>MOD\<close> and \<open>DEL\<close> fail with
  \<open>ENOENT\<close> for a non-member, failures change nothing.\<close>

definition epoll_spec :: "'k epoll_os \<Rightarrow> ('k \<Rightarrow> int set) \<Rightarrow> bool" where
  "epoll_spec eos interest \<longleftrightarrow>
     (\<forall>op fd ev k. case sys_epoll_ctl eos op fd ev k of
        (Some e, k') \<Rightarrow> interest k' = interest k
      | (None, k') \<Rightarrow>
          (case op of
             EPOLL_CTL_ADD \<Rightarrow> fd \<notin> interest k \<and> interest k' = insert fd (interest k)
           | EPOLL_CTL_MOD \<Rightarrow> fd \<in> interest k \<and> interest k' = interest k
           | EPOLL_CTL_DEL \<Rightarrow> fd \<in> interest k \<and> interest k' = interest k - {fd})) \<and>
     (\<forall>op fd ev k. op \<noteq> EPOLL_CTL_ADD \<longrightarrow> fd \<notin> interest k \<longrightarrow>
        fst (sys_epoll_ctl eos op fd ev k) = Some ENOENT)"

lemma epoll_ctl_cases:
  assumes "epoll_spec eos interest"
  shows "case sys_epoll_ctl eos op fd ev k of
        (Some e, k') \<Rightarrow> interest k' = interest k
      | (None, k') \<Rightarrow>
          (case op of
             EPOLL_CTL_ADD \<Rightarrow> fd \<notin> interest k \<and> interest k' = insert fd (interest k)
           | EPOLL_CTL_MOD \<Rightarrow> fd \<in> interest k \<and> interest k' = interest k
           | EPOLL_CTL_DEL \<Rightarrow> fd \<in> interest k \<and> interest k' = interest k - {fd})"
  using assms by (simp add: epoll_spec_def)

lemma epoll_ctl_enoent:
  assumes "epoll_spec eos interest" and "op \<noteq> EPOLL_CTL_ADD" and "fd \<notin> interest k"
  shows "fst (sys_epoll_ctl eos op fd ev k) = Some ENOENT"
  using assms by (simp add: epoll_spec_def)

definition in_sync :: "('k \<Rightarrow> int set) \<Rightarrow> 'cb event_loop \<Rightarrow> 'k \<Rightarrow> bool" where
  "in_sync interest loop k \<longleftrightarrow> dom (callbacks loop) = interest k"

lemma register_event_step:
  assumes spec: "epoll_spec eos interest" and "in_sync interest loop k"
    and "callback \<noteq> None \<or> fd \<in> dom (callbacks loop)"
  shows "case register_event eos fd events callback loop k of
      (Inl _, loop', k') \<Rightarrow> loop' = loop \<and> in_sync interest loop' k'
    | (Inr _, loop', k') \<Rightarrow> callbacks loop' = (callbacks loop)(fd := callback) \<and> in_sync interest loop' k'"
proof -
  define op where "op = (if callbacks loop fd \<noteq> None
    then (if callback \<noteq> None then EPOLL_CTL_MOD else EPOLL_CTL_DEL) else EPOLL_CTL_ADD)"
  let ?ev = "ucast events OR EPOLLRDHUP"
  obtain r k' where run: "sys_epoll_ctl eos op fd ?ev k = (r, k')" by fastforce
  have reg: "register_event eos fd events callback loop k =
      (case r of Some e \<Rightarrow> (Inl (SystemError e ''Failed to execute epoll_ctl''), loop, k')
       | None \<Rightarrow> (Inr (), loop\<lparr>callbacks := (callbacks loop)(fd := callback)\<rparr>, k'))"
    unfolding register_event_def Let_def op_def [symmetric] run by simp
  have ctl: "case r of Some e \<Rightarrow> interest k' = interest k
    | None \<Rightarrow> (case op of
         EPOLL_CTL_ADD \<Rightarrow> fd \<notin> interest k \<and> interest k' = insert fd (interest k)
       | EPOLL_CTL_MOD \<Rightarrow> fd \<in> interest k \<and> interest k' = interest k
       | EPOLL_CTL_DEL \<Rightarrow> fd \<in> interest k \<and> interest k' = interest k - {fd})"
    using epoll_ctl_cases [OF spec, where op = op and fd = fd and ev = ?ev and k = k] by (simp add: run)
  show ?thesis
  proof (cases r)
    case (Some e)
    then show ?thesis using ctl assms(2) by (simp add: reg in_sync_def)
  next
    case None
    have "dom ((callbacks loop)(fd := callback)) = interest k'"
      using ctl assms(2,3) None
      by (cases callback; cases "callbacks loop fd") (auto simp: op_def in_sync_def)
    with None show ?thesis by (simp add: reg in_sync_def)
  qed
qed

text \<open>The loop's table of callbacks and the kernel's interest set agree and stay so: registering a
  callback, replacing one and removing a registered one change both in the same way, and a failing
  system call changes neither.\<close>

theorem register_event_sync:
  assumes "epoll_spec eos interest" and "in_sync interest loop k"
    and "callback \<noteq> None \<or> fd \<in> dom (callbacks loop)"
  shows "case register_event eos fd events callback loop k of
      (Inl _, loop', k') \<Rightarrow> loop' = loop \<and> in_sync interest loop' k'
    | (Inr _, loop', k') \<Rightarrow> callbacks loop' = (callbacks loop)(fd := callback) \<and> in_sync interest loop' k'"
  by (rule register_event_step [OF assms])

text \<open>Removing a descriptor that was never registered registers it with the kernel: the call
  takes the branch of \<open>EPOLL_CTL_ADD\<close>, and when that succeeds the interest set has the
  descriptor and the table does not.\<close>

theorem unregister_unknown_adds:
  assumes "epoll_spec eos interest" and "callbacks loop fd = None"
    and "register_event eos fd events None loop k = (Inr (), loop', k')"
  shows "interest k' = insert fd (interest k) \<and> callbacks loop' = callbacks loop"
proof -
  let ?ev = "ucast events OR EPOLLRDHUP"
  obtain r k1 where run: "sys_epoll_ctl eos EPOLL_CTL_ADD fd ?ev k = (r, k1)" by fastforce
  have "r = None \<and> k1 = k' \<and> callbacks loop' = (callbacks loop)(fd := None)"
    using assms(2,3) by (auto simp: register_event_def run split: option.splits)
  moreover have "(callbacks loop)(fd := None) = callbacks loop" using assms(2) by auto
  ultimately show ?thesis
    using epoll_ctl_cases [OF assms(1), where op = EPOLL_CTL_ADD and fd = fd and ev = ?ev and k = k]
    by (simp add: run)
qed

lemma register_stale:
  assumes "epoll_spec eos interest" and "fd \<in> dom (callbacks loop)" and "fd \<notin> interest k"
  shows "fst (register_event eos fd events (Some cb) loop k) =
    Inl (SystemError ENOENT ''Failed to execute epoll_ctl'')"
proof -
  let ?ev = "ucast events OR EPOLLRDHUP"
  have "fst (sys_epoll_ctl eos EPOLL_CTL_MOD fd ?ev k) = Some ENOENT"
    by (rule epoll_ctl_enoent [OF assms(1) _ assms(3)]) simp
  then obtain k' where "sys_epoll_ctl eos EPOLL_CTL_MOD fd ?ev k = (Some ENOENT, k')"
    by (metis fst_conv surj_pair)
  with assms(2) show ?thesis by (auto simp: register_event_def)
qed

section \<open>Programs over the loop\<close>

text \<open>The contract between the loop and the program that registers callbacks: an invariant of the whole
  state that every callback keeps when it returns, and that waiting for events keeps. The loop then
  keeps it, whichever events the kernel reports.\<close>

locale reactor =
  fixes eos :: "'k epoll_os"
    and run :: "'cb \<Rightarrow> int \<Rightarrow> u16 \<Rightarrow> ('cb, 'k, 's) world \<Rightarrow> ('e + unit) \<times> ('cb, 'k, 's) world"
    and raise :: "net_error \<Rightarrow> 'e"
    and inv :: "('cb, 'k, 's) world \<Rightarrow> bool"
  assumes callback_law: "inv w \<Longrightarrow> callbacks (fst w) fd = Some cb \<Longrightarrow> run cb fd ev w = (Inr u, w') \<Longrightarrow> inv w'"
    and wait_law: "inv (loop, k, s) \<Longrightarrow> inv (loop, snd (sys_epoll_wait eos n t k), s)"
begin

lemma dispatch_inv: "inv w \<Longrightarrow> dispatch run evs w = (Inr u, w') \<Longrightarrow> inv w'"
proof (induction evs arbitrary: w)
  case (Cons e evs)
  obtain fd ev where e: "e = (fd, ev)" by fastforce
  show ?case
  proof (cases "callbacks (fst w) fd")
    case None
    with Cons show ?thesis by (simp add: e)
  next
    case (Some cb)
    obtain r w1 where r: "run cb fd (ucast ev) w = (r, w1)" by (meson surj_pair)
    with Some Cons.prems(2) obtain v where v: "r = Inr v" by (cases r) (simp_all add: e)
    have "inv w1" using callback_law [OF Cons.prems(1) Some] r v by simp
    moreover have "dispatch run evs w1 = (Inr u, w')" using Cons.prems(2) Some r v by (simp add: e)
    ultimately show ?thesis by (rule Cons.IH)
  qed
qed simp

lemma poll_inv:
  assumes "inv w" and "poll_once eos raise run t w = (Inr u, w')"
  shows "inv w'"
proof -
  obtain loop k s where w: "w = (loop, k, s)" by (cases w)
  obtain r k1 where r: "sys_epoll_wait eos 10 t k = (r, k1)" by fastforce
  have "inv (loop, k1, s)" using wait_law [of loop k s 10 t] assms(1) by (simp add: w r)
  then show ?thesis
    using assms(2) dispatch_inv by (cases r) (auto simp: poll_once_def w r split: if_splits)
qed

end

text \<open>The same contract for programs in which a callback may throw: what still holds when an exception leaves the
  loop, for the code that cleans up.\<close>

locale throwing_reactor = reactor eos run raise inv
  for eos :: "'k epoll_os"
    and run :: "'cb \<Rightarrow> int \<Rightarrow> u16 \<Rightarrow> ('cb, 'k, 's) world \<Rightarrow> ('e + unit) \<times> ('cb, 'k, 's) world"
    and raise :: "net_error \<Rightarrow> 'e"
    and inv :: "('cb, 'k, 's) world \<Rightarrow> bool" +
  fixes held :: "('cb, 'k, 's) world \<Rightarrow> bool"
  assumes held_law: "inv w \<Longrightarrow> held w"
    and fault_law: "inv w \<Longrightarrow> callbacks (fst w) fd = Some cb \<Longrightarrow> run cb fd ev w = (Inl e, w') \<Longrightarrow> held w'"
begin

lemma dispatch_held: "inv w \<Longrightarrow> dispatch run evs w = (r, w') \<Longrightarrow> held w'"
proof (induction evs arbitrary: w)
  case Nil
  then show ?case using held_law by simp
next
  case (Cons e evs)
  obtain fd ev where e: "e = (fd, ev)" by fastforce
  show ?case
  proof (cases "callbacks (fst w) fd")
    case None
    with Cons show ?thesis by (simp add: e)
  next
    case (Some cb)
    obtain q w1 where q: "run cb fd (ucast ev) w = (q, w1)" by (meson surj_pair)
    show ?thesis
    proof (cases q)
      case (Inl x)
      then have "held w1" using fault_law [OF Cons.prems(1) Some] q by blast
      then show ?thesis using Cons.prems(2) Some q Inl by (simp add: e)
    next
      case (Inr v)
      have "inv w1" using callback_law [OF Cons.prems(1) Some] q Inr by simp
      moreover have "dispatch run evs w1 = (r, w')" using Cons.prems(2) Some q Inr by (simp add: e)
      ultimately show ?thesis by (rule Cons.IH)
    qed
  qed
qed

lemma poll_held:
  assumes "inv w" and "poll_once eos raise run t w = (r, w')"
  shows "held w'"
proof -
  obtain loop k s where w: "w = (loop, k, s)" by (cases w)
  obtain q k1 where q: "sys_epoll_wait eos 10 t k = (q, k1)" by fastforce
  have "inv (loop, k1, s)" using wait_law [of loop k s 10 t] assms(1) by (simp add: w q)
  then show ?thesis
    using assms(2) dispatch_held held_law by (cases q) (auto simp: poll_once_def w q split: if_splits)
qed

end

text \<open>A property that every callback keeps, whether it returns or throws, is a special case.\<close>

locale invariant_reactor =
  fixes eos :: "'k epoll_os"
    and run :: "'cb \<Rightarrow> int \<Rightarrow> u16 \<Rightarrow> ('cb, 'k, 's) world \<Rightarrow> ('e + unit) \<times> ('cb, 'k, 's) world"
    and raise :: "net_error \<Rightarrow> 'e"
    and inv :: "('cb, 'k, 's) world \<Rightarrow> bool"
  assumes every_law: "inv w \<Longrightarrow> run cb fd ev w = (r, w') \<Longrightarrow> inv w'"
    and kernel_law: "inv (loop, k, s) \<Longrightarrow> inv (loop, k', s)"

sublocale invariant_reactor \<subseteq> throwing_reactor eos run raise inv inv
  by unfold_locales (blast intro: every_law kernel_law)+

section \<open>A kernel with an interest set\<close>

definition small_epoll :: "(int list) epoll_os" where
  "small_epoll =
     \<lparr>sys_epoll_create = (\<lambda>k. (Inr 4, k)),
      sys_epoll_ctl = (\<lambda>op fd ev k.
        case op of
          EPOLL_CTL_ADD \<Rightarrow> if fd \<in> set k then (Some EEXIST, k) else (None, fd # k)
        | EPOLL_CTL_MOD \<Rightarrow> if fd \<in> set k then (None, k) else (Some ENOENT, k)
        | EPOLL_CTL_DEL \<Rightarrow> if fd \<in> set k then (None, removeAll fd k) else (Some ENOENT, k)),
      sys_epoll_wait = (\<lambda>n t k. (Inr (map (\<lambda>fd. (fd, EPOLLIN)) (take n k)), k))\<rparr>"

lemma small_epoll_spec: "epoll_spec small_epoll set"
  by (auto simp: epoll_spec_def small_epoll_def split: epoll_op.split)

lemma register_event_sync_witness:
  "in_sync set (fst (snd (register_event small_epoll 5 1 (Some ''on_client'')
      \<lparr>loop_fd = 4, callbacks = [3 \<mapsto> ''on_accept'']\<rparr> [3]))) [5, 3]"
proof -
  let ?loop = "\<lparr>loop_fd = 4, callbacks = [3 \<mapsto> ''on_accept'']\<rparr>"
  have "in_sync set ?loop [3]" by (simp add: in_sync_def)
  from register_event_sync [OF small_epoll_spec this, of "Some ''on_client''" 5 1]
  show ?thesis by (simp add: register_event_def small_epoll_def)
qed

lemma unregister_unknown_adds_witness:
  "set [5 :: int] = insert 5 {}"
proof -
  have "register_event small_epoll 5 1 None \<lparr>loop_fd = 4, callbacks = (Map.empty :: int \<rightharpoonup> string)\<rparr> [] =
      (Inr (), \<lparr>loop_fd = 4, callbacks = Map.empty\<rparr>, [5])"
    by (auto simp: register_event_def small_epoll_def)
  from unregister_unknown_adds [OF small_epoll_spec _ this] show ?thesis by simp
qed

end
