(* ===== verification/Kqueue.thy ===== *)
theory Kqueue
  imports EventLoop
begin

text \<open>
  The event loop in its macOS configuration: the \<open>__APPLE__\<close> branches of
  \<^verbatim>\<open>src/system/event_loop.cpp\<close>, over a kqueue. A registration always adds its filter, whatever
  the table of callbacks has; so a descriptor number that was closed and opened again can be registered again (which
  ends the program in the Linux configuration), and an empty callback leaves its filter in the queue.
\<close>

section \<open>Definitions\<close>

record 'k kqueue_os =
  sys_kqueue :: "'k \<Rightarrow> (errno + int) \<times> 'k"
  sys_kevent_change :: "int \<Rightarrow> u16 \<Rightarrow> u16 \<Rightarrow> 'k \<Rightarrow> errno option \<times> 'k"
  sys_kevent_wait :: "nat \<Rightarrow> u32 \<Rightarrow> u32 \<Rightarrow> 'k \<Rightarrow> (errno + (int \<times> u16) list) \<times> 'k"

definition EV_ADD :: u16 where
  "EV_ADD = 0x0001"

definition EV_ENABLE :: u16 where
  "EV_ENABLE = 0x0004"

definition kqueue_loop_new :: "'k kqueue_os \<Rightarrow> ('cb event_loop, 'k) io" where
  "kqueue_loop_new kos k =
     (case sys_kqueue kos k of
        (Inl e, k) \<Rightarrow> (Inl (SystemError e ''Failed to create kqueue''), k)
      | (Inr fd, k) \<Rightarrow> (Inr \<lparr>loop_fd = fd, callbacks = Map.empty\<rparr>, k))"

definition kqueue_register_event ::
    "'k kqueue_os \<Rightarrow> int \<Rightarrow> u16 \<Rightarrow> 'cb option \<Rightarrow> 'cb event_loop \<Rightarrow> 'k
      \<Rightarrow> (net_error + unit) \<times> 'cb event_loop \<times> 'k" where
  "kqueue_register_event kos fd filter_id callback loop k =
     (case sys_kevent_change kos fd filter_id (EV_ADD OR EV_ENABLE) k of
        (Some e, k) \<Rightarrow> (Inl (SystemError e ''Failed to register kevent''), loop, k)
      | (None, k) \<Rightarrow> (Inr (), loop\<lparr>callbacks := (callbacks loop)(fd := callback)\<rparr>, k))"

fun kqueue_dispatch ::
    "('cb \<Rightarrow> int \<Rightarrow> u16 \<Rightarrow> ('cb, 'k, 's) world \<Rightarrow> ('e + unit) \<times> ('cb, 'k, 's) world) \<Rightarrow>
      (int \<times> u16) list \<Rightarrow> ('cb, 'k, 's) world \<Rightarrow> ('e + unit) \<times> ('cb, 'k, 's) world" where
  "kqueue_dispatch run [] w = (Inr (), w)"
| "kqueue_dispatch run ((fd, filter_id) # evs) w =
     (case callbacks (fst w) fd of
        None \<Rightarrow> kqueue_dispatch run evs w
      | Some cb \<Rightarrow>
          (case run cb fd filter_id w of
             (Inl e, w) \<Rightarrow> (Inl e, w)
           | (Inr _, w) \<Rightarrow> kqueue_dispatch run evs w))"

definition kqueue_poll_once ::
    "'k kqueue_os \<Rightarrow> (net_error \<Rightarrow> 'e) \<Rightarrow>
      ('cb \<Rightarrow> int \<Rightarrow> u16 \<Rightarrow> ('cb, 'k, 's) world \<Rightarrow> ('e + unit) \<times> ('cb, 'k, 's) world) \<Rightarrow>
      u32 \<Rightarrow> ('cb, 'k, 's) world \<Rightarrow> ('e + unit) \<times> ('cb, 'k, 's) world" where
  "kqueue_poll_once kos raise run timeout_ms w =
     (let (loop, k, s) = w;
          tv_sec = timeout_ms div 1000;
          tv_nsec = (timeout_ms mod 1000) * 1000000
      in case sys_kevent_wait kos 10 tv_sec tv_nsec k of
           (Inl e, k) \<Rightarrow>
             if e = EINTR then (Inr (), loop, k, s)
             else (Inl (raise (SystemError e ''Kevent poll failed'')), loop, k, s)
         | (Inr events, k) \<Rightarrow> kqueue_dispatch run events (loop, k, s))"

section \<open>Registrations\<close>

text \<open>\<open>kevent\<close> with \<open>EV_ADD\<close> as documented: it adds a filter, or changes the one that is there; a failure
  changes nothing.\<close>

definition kevent_spec :: "'k kqueue_os \<Rightarrow> ('k \<Rightarrow> int set) \<Rightarrow> bool" where
  "kevent_spec kos interest \<longleftrightarrow>
     (\<forall>fd filter_id k. case sys_kevent_change kos fd filter_id (EV_ADD OR EV_ENABLE) k of
        (Some e, k') \<Rightarrow> interest k' = interest k
      | (None, k') \<Rightarrow> interest k' = insert fd (interest k))"

lemma kevent_add:
  assumes "kevent_spec kos interest"
  shows "case sys_kevent_change kos fd filter_id (EV_ADD OR EV_ENABLE) k of
        (Some e, k') \<Rightarrow> interest k' = interest k
      | (None, k') \<Rightarrow> interest k' = insert fd (interest k)"
  using assms by (simp add: kevent_spec_def)

text \<open>C37 The invariant of this configuration: every callback has its filter. Every registration keeps it, also of a
  descriptor whose filter the kernel dropped when it was closed; the only errors are those of
  \<open>kevent\<close> itself. After a removal the filter is still there.\<close>

theorem kqueue_register_cases:
  assumes "kevent_spec kos interest" and "dom (callbacks loop) - {fd} \<subseteq> interest k"
  shows "case kqueue_register_event kos fd filter_id callback loop k of
      (Inl _, loop', k') \<Rightarrow> loop' = loop \<and> interest k' = interest k
    | (Inr _, loop', k') \<Rightarrow> callbacks loop' = (callbacks loop)(fd := callback) \<and>
        interest k' = insert fd (interest k) \<and> dom (callbacks loop') \<subseteq> interest k'"
proof -
  obtain r k' where 1: "sys_kevent_change kos fd filter_id (EV_ADD OR EV_ENABLE) k = (r, k')" by fastforce
  have "case r of Some e \<Rightarrow> interest k' = interest k | None \<Rightarrow> interest k' = insert fd (interest k)"
    using kevent_add [OF assms(1), where fd = fd and filter_id = filter_id and k = k] by (simp add: 1)
  then show ?thesis
    using assms(2) by (cases r; cases callback) (auto simp: kqueue_register_event_def 1)
qed

text \<open>The same situation in both configurations: a descriptor has a callback, but its kernel object is gone. Linux
  refuses the new registration; macOS accepts it whenever \<open>kevent\<close> does.\<close>

theorem stale_descriptor:
  assumes "epoll_spec eos interest" and "kevent_spec kos interest'"
    and "fd \<in> dom (callbacks loop)" and "fd \<notin> interest k"
    and "sys_kevent_change kos fd filter_id (EV_ADD OR EV_ENABLE) k' = (None, k'')"
  shows "fst (register_event eos fd events (Some cb) loop k) =
      Inl (SystemError ENOENT ''Failed to execute epoll_ctl'') \<and>
    kqueue_register_event kos fd filter_id (Some cb) loop k' =
      (Inr (), loop\<lparr>callbacks := (callbacks loop)(fd \<mapsto> cb)\<rparr>, k'') \<and> fd \<in> interest' k''"
  using register_stale [OF assms(1,3,4)] kevent_add [OF assms(2), where fd = fd and filter_id = filter_id and k = k'] assms(5)
  by (simp add: kqueue_register_event_def)

text \<open>The timeout is handed to \<open>kevent\<close> without loss: seconds and nanoseconds add up to the milliseconds, and
  the product does not wrap.\<close>

theorem kqueue_timeout_exact:
  "unat (t div 1000) * 10 ^ 9 + unat ((t mod 1000) * 1000000) = unat (t :: u32) * 10 ^ 6 \<and>
   unat ((t mod 1000) * 1000000) < 10 ^ 9"
proof -
  have d: "unat (t div 1000) = unat t div 1000" by (simp add: unat_div)
  have m: "unat (t mod 1000) = unat t mod 1000" by (simp add: unat_mod)
  have "unat t mod 1000 < 1000" by simp
  then have "unat t mod 1000 * 1000000 < 1000 * 1000000" by (rule mult_strict_right_mono) simp
  then have "unat ((t mod 1000) * 1000000) = unat t mod 1000 * 1000000"
    by (simp add: unat_word_ariths m)
  moreover have "unat t = unat t div 1000 * 1000 + unat t mod 1000" by simp
  ultimately have "unat t div 1000 * 1000000000 + unat ((t mod 1000) * 1000000) = unat t * 1000000"
    "unat ((t mod 1000) * 1000000) < 1000000000"
    using \<open>unat t mod 1000 < 1000\<close> by linarith+
  then show ?thesis by (simp add: d)
qed

section \<open>A kqueue\<close>

definition small_kqueue :: "(int list) kqueue_os" where
  "small_kqueue =
     \<lparr>sys_kqueue = (\<lambda>k. (Inr 4, k)),
      sys_kevent_change = (\<lambda>fd filter_id flags k. (None, if fd \<in> set k then k else fd # k)),
      sys_kevent_wait = (\<lambda>n s ns k. (Inr (map (\<lambda>fd. (fd, 0xFFFF)) (take n k)), k))\<rparr>"

lemma small_kqueue_spec: "kevent_spec small_kqueue set"
  by (auto simp: kevent_spec_def small_kqueue_def)

lemma kqueue_register_cases_witness:
  "set (snd (snd (kqueue_register_event small_kqueue 5 0xFFFF (Some ''on_client'')
      \<lparr>loop_fd = 4, callbacks = [3 \<mapsto> ''on_accept'']\<rparr> [3]))) = {3, 5}"
proof -
  have "dom (callbacks \<lparr>loop_fd = 4, callbacks = [3 \<mapsto> ''on_accept'']\<rparr>) - {5 :: int} \<subseteq> set [3]" by simp
  from kqueue_register_cases [OF small_kqueue_spec this, where filter_id = "0xFFFF" and callback = "Some ''on_client''"]
  show ?thesis by (auto simp: kqueue_register_event_def small_kqueue_def)
qed

lemma stale_descriptor_witness:
  "fst (register_event small_epoll 5 1 (Some ''on_client'') \<lparr>loop_fd = 4, callbacks = [5 \<mapsto> ''on_client'']\<rparr> [3]) =
    Inl (SystemError ENOENT ''Failed to execute epoll_ctl'')"
proof -
  let ?loop = "\<lparr>loop_fd = 4, callbacks = [5 \<mapsto> ''on_client'']\<rparr>"
  have change: "sys_kevent_change small_kqueue 5 0xFFFF (EV_ADD OR EV_ENABLE) [3] = (None, [5, 3])"
    by (simp add: small_kqueue_def)
  have "5 \<in> dom (callbacks ?loop)" "5 \<notin> set [3 :: int]" by simp_all
  from stale_descriptor [OF small_epoll_spec small_kqueue_spec this change] show ?thesis by blast
qed

end
