(* ===== verification/Json.thy ===== *)
theory Json
  imports Binary64
begin

text \<open>
  Decimal output of numbers, as \<open>std::ostream\<close> writes them, and a reader of JSON texts against which the
  telemetry publisher is judged. Output of a \<open>double\<close> follows the standard's rule for \<open>%g\<close> with six
  significant digits, rounded to nearest, ties to even. The reader follows RFC 8259 for flat objects of
  strings and numbers. The facts: every finite number is written as a JSON number, whose value differs from it by at
  most half a unit of the sixth significant digit; and a whole number below one million is written as its decimal digits.
\<close>

section \<open>Output of numbers\<close>

text \<open>The exponent of the leading decimal digit of a positive rational.\<close>

definition flog10 :: "rat \<Rightarrow> int" where
  "flog10 q =
     (let (n, d) = quotient_of q;
          k = int (length (std_to_string (nat n))) - int (length (std_to_string (nat d)))
      in if 10 powi k \<le> q then k else k - 1)"

text \<open>Six significant digits of a positive rational, with the exponent of the first.\<close>

definition six_digits :: "rat \<Rightarrow> string \<times> int" where
  "six_digits q =
     (let e = flog10 q; m = round_half_even (q * 10 powi (5 - e))
      in if m = 1000000 then (std_to_string 100000, e + 1) else (std_to_string (nat m), e))"

definition strip_zeros :: "string \<Rightarrow> string" where
  "strip_zeros s = rev (dropWhile (\<lambda>c. c = CHR ''0'') (rev s))"

definition with_fraction :: "string \<Rightarrow> string \<Rightarrow> string" where
  "with_fraction ip fp = (if strip_zeros fp = [] then ip else ip @ ''.'' @ strip_zeros fp)"

definition format_positive :: "rat \<Rightarrow> string" where
  "format_positive q =
     (let (ds, e) = six_digits q
      in if 0 \<le> e \<and> e < 6 then with_fraction (take (nat e + 1) ds) (drop (nat e + 1) ds)
         else if - 4 \<le> e \<and> e < 0 then with_fraction ''0'' (replicate (nat (- e) - 1) (CHR ''0'') @ ds)
         else with_fraction (take 1 ds) (drop 1 ds) @ ''e'' @ (if e < 0 then ''-'' else ''+'') @
              (if \<bar>e\<bar> < 10 then ''0'' else []) @ std_to_string (nat \<bar>e\<bar>))"

text \<open>\<open>out << x\<close> for a \<open>double\<close>.\<close>

fun format_double :: "double \<Rightarrow> string" where
  "format_double (Finite q) =
     (if q = 0 then ''0'' else if q < 0 then ''-'' @ format_positive (- q) else format_positive q)"
| "format_double (Infinite negative) = (if negative then ''-inf'' else ''inf'')"
| "format_double NaN = ''nan''"

section \<open>Decimal output\<close>

lemma to_string_bounds:
  "0 < n \<Longrightarrow> 10 ^ (length (std_to_string n) - 1) \<le> n \<and> n < 10 ^ length (std_to_string n)"
proof (induction n rule: std_to_string.induct)
  case (1 n)
  show ?case
  proof (cases "n < 10")
    case True
    then show ?thesis using 1 by (subst (1 2) std_to_string.simps) simp
  next
    case False
    let ?l = "length (std_to_string (n div 10))"
    have s: "std_to_string n = std_to_string (n div 10) @ [digit_char (n mod 10)]"
      using False by (subst std_to_string.simps) simp
    have l: "0 < ?l" by simp
    have "0 < n div 10" using False by linarith
    then have "10 ^ (?l - 1) \<le> n div 10" "n div 10 < 10 ^ ?l" using 1 False by simp_all
    then have "10 * 10 ^ (?l - 1) \<le> n" "n < 10 * 10 ^ ?l" by linarith+
    then show ?thesis using l by (simp add: s power_eq_if)
  qed
qed

lemma to_string_length:
  assumes "10 ^ k \<le> n" and "n < 10 ^ Suc k"
  shows "length (std_to_string n) = Suc k"
proof -
  have "0 < n" using assms(1) by (metis gr0I not_le zero_less_numeral zero_less_power)
  note b = to_string_bounds [OF this]
  have "(10::nat) ^ k < 10 ^ length (std_to_string n)" using b assms(1) by linarith
  then have "k < length (std_to_string n)" by simp
  moreover have "(10::nat) ^ (length (std_to_string n) - 1) < 10 ^ Suc k" using b assms(2) by linarith
  then have "length (std_to_string n) - 1 < Suc k" by (metis one_less_numeral_iff power_less_imp_less_exp semiring_norm(76))
  ultimately show ?thesis by simp
qed

lemma to_string_shift:
  "0 < n \<Longrightarrow> std_to_string (n * 10 ^ k) = std_to_string n @ replicate k (CHR ''0'')"
proof (induction k)
  case (Suc k)
  have z: "digit_char 0 = CHR ''0''" by (simp add: digit_char_def char_of_eq_iff)
  have "0 < n * 10 ^ k" using Suc.prems by simp
  then have "\<not> n * 10 ^ Suc k < 10" by simp
  then have "std_to_string (n * 10 ^ Suc k) =
      std_to_string (n * 10 ^ Suc k div 10) @ [digit_char (n * 10 ^ Suc k mod 10)]"
    by (subst std_to_string.simps) simp
  moreover have "n * 10 ^ Suc k div 10 = n * 10 ^ k" "n * 10 ^ Suc k mod 10 = 0"
    by (simp_all add: mult.commute mult.left_commute)
  ultimately show ?case using Suc by (simp add: z replicate_append_same [symmetric])
qed simp

lemma flog10_lower:
  assumes "0 < q"
  shows "10 powi flog10 q \<le> q"
proof -
  obtain n d where nd: "quotient_of q = (n, d)" by fastforce
  then have d: "0 < d" and q: "q = of_int n / of_int d"
    using quotient_of_denom_pos quotient_of_div by blast+
  then have n: "0 < n" using assms by (simp add: zero_less_divide_iff)
  define a where "a = length (std_to_string (nat n))"
  define b where "b = length (std_to_string (nat d))"
  have "10 ^ (a - 1) \<le> nat n" "nat d < 10 ^ b" "0 < a"
    using to_string_bounds [of "nat n"] to_string_bounds [of "nat d"] n d by (simp_all add: a_def b_def)
  then have "(10::rat) ^ (a - 1) \<le> of_int n" "of_int d \<le> (10::rat) ^ b"
    using n d by (metis of_nat_le_iff of_nat_numeral of_nat_power nat_0_le of_int_of_nat_eq less_imp_le)+
  then have "(10::rat) ^ (a - 1) / 10 ^ b \<le> q"
    unfolding q using n d by (intro frac_le) simp_all
  moreover have "(10::rat) powi (int a - int b - 1) = 10 ^ (a - 1) / 10 ^ b"
    using \<open>0 < a\<close> by (simp add: power_int_diff power_diff)
  ultimately show ?thesis by (simp add: flog10_def nd Let_def a_def b_def)
qed
section \<open>JSON numbers\<close>

text \<open>Numbers of RFC 8259.\<close>

definition json_exponent :: "string \<Rightarrow> bool" where
  "json_exponent s =
     (case s of
        [] \<Rightarrow> True
      | c # t \<Rightarrow>
          (let ds = (case t of [] \<Rightarrow> t | d # u \<Rightarrow> if d = CHR ''+'' \<or> d = CHR ''-'' then u else t)
           in (c = CHR ''e'' \<or> c = CHR ''E'') \<and> ds \<noteq> [] \<and> list_all is_digit ds))"

definition json_fraction :: "string \<Rightarrow> bool" where
  "json_fraction s =
     (case s of
        [] \<Rightarrow> True
      | c # t \<Rightarrow>
          if c = CHR ''.'' then takeWhile is_digit t \<noteq> [] \<and> json_exponent (dropWhile is_digit t)
          else json_exponent s)"

definition json_natural :: "string \<Rightarrow> bool" where
  "json_natural s \<longleftrightarrow> s = ''0'' \<or> s \<noteq> [] \<and> hd s \<noteq> CHR ''0''"

definition json_number :: "string \<Rightarrow> bool" where
  "json_number s =
     (let t = (case s of [] \<Rightarrow> s | c # r \<Rightarrow> if c = CHR ''-'' then r else s)
      in json_natural (takeWhile is_digit t) \<and> json_fraction (dropWhile is_digit t))"

definition number_end :: "char \<Rightarrow> bool" where
  "number_end c \<longleftrightarrow> c = CHR '','' \<or> c = CHR ''}''"

lemma digit_not_end: "is_digit c \<Longrightarrow> \<not> number_end c"
  by (auto simp: number_end_def is_digit_def)

lemma digits_not_end: "list_all is_digit s \<Longrightarrow> list_all (\<lambda>c. \<not> number_end c) s"
  using digit_not_end by (auto simp: list_all_iff)

lemma take_digits_not_end: "list_all (\<lambda>c. \<not> number_end c) (takeWhile is_digit s)"
  by (rule digits_not_end) (auto simp: list_all_iff dest: set_takeWhileD)

lemma split_digits:
  "list_all (\<lambda>c. \<not> number_end c) (dropWhile is_digit s) \<Longrightarrow> list_all (\<lambda>c. \<not> number_end c) s"
  using take_digits_not_end [of s] by (metis list_all_append takeWhile_dropWhile_id)

lemma exponent_not_end: "json_exponent s \<Longrightarrow> list_all (\<lambda>c. \<not> number_end c) s"
  by (auto simp: json_exponent_def Let_def number_end_def is_digit_def digits_not_end [unfolded number_end_def]
      split: list.splits if_splits dest!: digits_not_end [unfolded number_end_def])

lemma fraction_not_end: "json_fraction s \<Longrightarrow> list_all (\<lambda>c. \<not> number_end c) s"
proof -
  assume s: "json_fraction s"
  then consider "json_exponent s" | t where "s = CHR ''.'' # t" "json_exponent (dropWhile is_digit t)"
    by (auto simp: json_fraction_def json_exponent_def split: list.splits if_splits)
  then show ?thesis
    using exponent_not_end split_digits by cases (auto simp: number_end_def [of "CHR ''.''"])
qed

lemma json_number_not_end: "json_number s \<Longrightarrow> list_all (\<lambda>c. \<not> number_end c) s"
proof -
  assume "json_number s"
  then obtain t where "s = t \<or> s = CHR ''-'' # t" "json_fraction (dropWhile is_digit t)"
    by (auto simp: json_number_def Let_def split: list.splits if_splits)
  moreover from this have "list_all (\<lambda>c. \<not> number_end c) t"
    using fraction_not_end split_digits by blast
  ultimately show ?thesis by (auto simp: number_end_def [of "CHR ''-''"])
qed

lemma json_number_parts:
  assumes "list_all is_digit ip" and "json_natural ip" and "list_all is_digit fp" and "json_exponent ex"
  shows "json_number (with_fraction ip fp @ ex)"
proof -
  have not_digit: "\<not> is_digit (CHR ''.'')" "\<not> is_digit (CHR ''-'')" "\<not> is_digit (CHR ''e'')" "\<not> is_digit (CHR ''E'')"
    by (simp_all add: is_digit_def)
  have ex: "takeWhile is_digit ex = []" "dropWhile is_digit ex = ex" "json_fraction ex"
    using assms(4) not_digit by (cases ex; auto simp: json_exponent_def json_fraction_def Let_def)+
  have digits: "takeWhile is_digit (s @ ex) = s" "dropWhile is_digit (s @ ex) = ex"
    if "list_all is_digit s" for s
    using that ex by (auto simp: list_all_iff takeWhile_append2 dropWhile_append2)
  obtain c r where ip: "ip = c # r" using assms(2) by (cases ip) (auto simp: json_natural_def)
  with assms(1) not_digit have c: "c \<noteq> CHR ''-''" by auto
  show ?thesis
  proof (cases "strip_zeros fp = []")
    case True
    then show ?thesis
      using digits [OF assms(1)] assms(2) ex(3) c unfolding ip with_fraction_def json_number_def
      by (simp add: Let_def)
  next
    case False
    have f: "list_all is_digit (strip_zeros fp)"
      using assms(3) by (auto simp: strip_zeros_def list_all_iff dest!: set_dropWhileD)
    have "takeWhile is_digit (ip @ ''.'' @ strip_zeros fp @ ex) = ip"
      "dropWhile is_digit (ip @ ''.'' @ strip_zeros fp @ ex) = ''.'' @ strip_zeros fp @ ex"
      using assms(1) not_digit by (auto simp: list_all_iff takeWhile_append2 dropWhile_append2)
    moreover have "json_fraction (''.'' @ strip_zeros fp @ ex)"
      using digits [OF f] False assms(4) by (simp add: json_fraction_def)
    ultimately show ?thesis
      using assms(2) False c unfolding ip with_fraction_def json_number_def by (simp add: Let_def)
  qed
qed

lemma hd_to_string: "0 < n \<Longrightarrow> hd (std_to_string n) \<noteq> CHR ''0''"
proof (induction n rule: std_to_string.induct)
  case (1 n)
  show ?case
  proof (cases "n < 10")
    case True
    have "digit_char n \<noteq> CHR ''0''"
    proof
      assume "digit_char n = CHR ''0''"
      then have "(of_char (digit_char n) :: nat) = 48" by simp
      with True 1 show False by (simp add: of_char_digit_char)
    qed
    with True show ?thesis by (subst std_to_string.simps) simp
  next
    case False
    then have "0 < n div 10" by linarith
    with 1 False show ?thesis by (subst std_to_string.simps) (simp add: hd_append)
  qed
qed

lemma to_string_0: "std_to_string 0 = ''0''"
  by (subst std_to_string.simps) (simp add: digit_char_def char_of_eq_iff)

lemma json_natural_to_string: "json_natural (std_to_string n)"
proof (cases "n = 0")
  case True
  then show ?thesis by (simp add: json_natural_def to_string_0)
qed (simp add: json_natural_def hd_to_string)

lemma json_number_to_string: "json_number (std_to_string n)"
  using json_number_parts [OF digits_to_string json_natural_to_string, of "[]" "[]" n]
  by (simp add: with_fraction_def strip_zeros_def json_exponent_def)

lemma six_digits_form:
  assumes "0 < q"
  shows "\<exists>ds e. six_digits q = (ds, e) \<and> list_all is_digit ds \<and> ds \<noteq> [] \<and> hd ds \<noteq> CHR ''0''"
proof -
  let ?e = "flog10 q"
  let ?m = "round_half_even (q * 10 powi (5 - ?e))"
  have "10 powi ?e * 10 powi (5 - ?e) \<le> q * 10 powi (5 - ?e)"
    using flog10_lower [OF assms] by (intro mult_right_mono) simp_all
  moreover have "(10::rat) powi ?e * 10 powi (5 - ?e) = 100000"
    by (simp add: power_int_add [symmetric])
  ultimately have "100000 \<le> q * 10 powi (5 - ?e)" by simp
  then have "100000 \<le> \<lfloor>q * 10 powi (5 - ?e)\<rfloor>" by (simp add: le_floor_iff)
  then have m: "0 < nat ?m" by (auto simp: round_half_even_def Let_def)
  show ?thesis
    using m hd_to_string [OF m] hd_to_string [of 100000]
    by (auto simp: six_digits_def Let_def digits_to_string)
qed

lemma format_positive_json:
  assumes "0 < q"
  shows "json_number (format_positive q) \<and> hd (format_positive q) \<noteq> CHR ''-''"
proof -
  obtain ds e where ds: "six_digits q = (ds, e)" "list_all is_digit ds" "ds \<noteq> []" "hd ds \<noteq> CHR ''0''"
    using six_digits_form [OF assms] by blast
  have dig: "list_all is_digit (take n ds)" "list_all is_digit (drop n ds)" for n
    using ds(2) by (auto simp: list_all_iff dest: in_set_takeD in_set_dropD)
  have first: "json_natural (take (Suc n) ds)" for n
    using ds(3,4) by (simp add: json_natural_def)
  have zero: "is_digit (CHR ''0'')" by (simp add: is_digit_def)
  have exp: "json_exponent (CHR ''e'' # (if e < 0 then ''-'' else ''+'') @
      (if \<bar>e\<bar> < 10 then ''0'' else []) @ std_to_string (nat \<bar>e\<bar>))"
    using zero digits_to_string by (simp add: json_exponent_def)
  have head: "hd (with_fraction ip fp @ ex) = hd ip" if "ip \<noteq> []" for ip fp ex
    using that by (simp add: with_fraction_def hd_append)
  have head0: "hd (with_fraction ip fp) = hd ip" if "ip \<noteq> []" for ip fp
    using head [OF that, of fp "[]"] by simp
  have nodash: "hd s \<noteq> CHR ''-''" if "list_all is_digit s" "s \<noteq> []" for s
    using that by (cases s) (auto simp: is_digit_def)
  consider "0 \<le> e \<and> e < 6" | "- 4 \<le> e \<and> e < 0" | "\<not> (0 \<le> e \<and> e < 6)" "\<not> (- 4 \<le> e \<and> e < 0)" by blast
  then show ?thesis
  proof cases
    case 1
    then have "format_positive q = with_fraction (take (nat e + 1) ds) (drop (nat e + 1) ds) @ []"
      by (simp add: format_positive_def ds(1))
    moreover have "json_exponent []" by (simp add: json_exponent_def)
    ultimately show ?thesis
      using json_number_parts [OF dig(1) first dig(2), of "[]"] nodash [OF dig(1), of "nat e + 1"] ds(3)
      by (simp add: head0)
  next
    case 2
    then have "format_positive q = with_fraction ''0'' (replicate (nat (- e) - 1) (CHR ''0'') @ ds) @ []"
      by (simp add: format_positive_def ds(1))
    moreover have "json_exponent []" "json_natural ''0''" by (simp_all add: json_exponent_def json_natural_def)
    moreover have "list_all is_digit ''0''" "list_all is_digit (replicate (nat (- e) - 1) (CHR ''0'') @ ds)"
      using zero ds(2) by (auto simp: list_all_iff)
    ultimately show ?thesis
      using json_number_parts [of "''0''" "replicate (nat (- e) - 1) (CHR ''0'') @ ds" "[]"]
      by (simp add: head0)
  next
    case 3
    then have "format_positive q = with_fraction (take 1 ds) (drop 1 ds) @
        CHR ''e'' # (if e < 0 then ''-'' else ''+'') @
        (if \<bar>e\<bar> < 10 then ''0'' else []) @ std_to_string (nat \<bar>e\<bar>)"
      unfolding format_positive_def ds(1) Let_def prod.case by (simp only: if_False) simp
    then show ?thesis
      using json_number_parts [OF dig(1) first dig(2) exp, of 0 1] head nodash [OF ds(2,3)] ds(3) by simp
  qed
qed

lemma format_double_json: "json_number (format_double (Finite q))"
proof -
  consider "q = 0" | "0 < q" | "0 < - q" by linarith
  then show ?thesis
  proof cases
    case 3
    let ?s = "format_positive (- q)"
    have "json_number ?s" "hd ?s \<noteq> CHR ''-''" using format_positive_json [OF 3] by simp_all
    then have "json_number (CHR ''-'' # ?s)" by (cases ?s) (simp_all add: json_number_def)
    then show ?thesis using 3 by simp
  qed (use format_positive_json json_number_to_string [of 0] in \<open>auto simp: json_number_def json_natural_def json_fraction_def is_digit_def\<close>)
qed

lemma round_half_even_nat [simp]: "round_half_even (of_nat n) = int n"
  by (simp add: round_half_even_def Let_def)

lemma strip_zeros_replicate [simp]: "strip_zeros (replicate k (CHR ''0'')) = []"
  by (simp add: strip_zeros_def)

lemma format_nat: "n < 1000000 \<Longrightarrow> format_double (Finite (of_nat n)) = std_to_string n"
proof (cases "n = 0")
  case True
  then show ?thesis by (simp add: to_string_0)
next
  case False
  assume small: "n < 1000000"
  let ?l = "length (std_to_string n)"
  have n: "0 < n" using False by simp
  have b: "10 ^ (?l - 1) \<le> n" "n < 10 ^ ?l" using to_string_bounds [OF n] by simp_all
  have l: "0 < ?l" by simp
  have "(10::nat) ^ (?l - 1) < 10 ^ 6" using b(1) small by simp
  then have l6: "?l \<le> 6" by (metis Suc_diff_1 Suc_leI l one_less_numeral_iff power_less_imp_less_exp semiring_norm(76))
  have one: "length (std_to_string (Suc 0)) = 1" by (subst std_to_string.simps) simp
  have e: "flog10 (of_nat n) = int ?l - 1"
  proof -
    have "(10::rat) powi (int ?l - 1) = of_nat (10 ^ (?l - 1))"
      using l by (simp add: power_int_def nat_diff_distrib)
    also have "\<dots> \<le> of_nat n" using b(1) by (simp only: of_nat_le_iff)
    finally show ?thesis
      using one quotient_of_int [of "int n"] by (simp add: flog10_def Let_def Rat.of_int_def)
  qed
  have "(10::rat) powi (5 - (int ?l - 1)) = 10 ^ (6 - ?l)"
    using l6 by (simp add: power_int_def nat_diff_distrib)
  then have "of_nat n * (10::rat) powi (5 - (int ?l - 1)) = of_nat (n * 10 ^ (6 - ?l))" by simp
  moreover have "n * 10 ^ (6 - ?l) < 10 ^ ?l * 10 ^ (6 - ?l)" using b(2) by (rule mult_strict_right_mono) simp
  then have "n * 10 ^ (6 - ?l) < 1000000" using l6 by (simp add: power_add [symmetric])
  moreover from this have "int (n * 10 ^ (6 - ?l)) \<noteq> 1000000" by linarith
  ultimately have "six_digits (of_nat n) = (std_to_string n @ replicate (6 - ?l) (CHR ''0''), int ?l - 1)"
    using to_string_shift [OF n, of "6 - ?l"] unfolding six_digits_def e Let_def
    by (simp only: round_half_even_nat nat_int if_False) 
  moreover have "nat (int ?l - 1) + 1 = ?l" "0 \<le> int ?l - 1" "int ?l - 1 < 6" using l l6 by linarith+
  ultimately have "format_positive (of_nat n) = std_to_string n"
    by (simp add: format_positive_def with_fraction_def)
  then show ?thesis using n by simp
qed
section \<open>The value of a number\<close>

text \<open>What a JSON number denotes: its digits as a decimal number, scaled by the exponent.\<close>

definition exponent_value :: "string \<Rightarrow> int" where
  "exponent_value s =
     (case s of
        c # d # u \<Rightarrow>
          if d = CHR ''-'' then - int (dec_value u) else if d = CHR ''+'' then int (dec_value u)
          else int (dec_value (d # u))
      | _ \<Rightarrow> 0)"

definition number_value :: "string \<Rightarrow> rat" where
  "number_value s =
     (let (negative, t) = (case s of [] \<Rightarrow> (False, s) | c # r \<Rightarrow> if c = CHR ''-'' then (True, r) else (False, s));
          ip = takeWhile is_digit t; r = dropWhile is_digit t;
          (fp, ex) = (case r of [] \<Rightarrow> ([], []) | c # u \<Rightarrow>
            if c = CHR ''.'' then (takeWhile is_digit u, dropWhile is_digit u) else ([], r));
          v = of_nat (dec_value (ip @ fp)) * 10 powi (exponent_value ex - int (length fp))
      in if negative then - v else v)"

lemma dec_value_zeros: "dec_value (s @ replicate k (CHR ''0'')) = dec_value s * 10 ^ k"
proof (induction k)
  case (Suc k)
  then show ?case
    by (simp add: replicate_append_same [symmetric] append_assoc [symmetric] digit_val_def del: append_assoc)
qed simp

lemma dec_value_leading_zeros: "dec_value (replicate k (CHR ''0'') @ s) = dec_value s"
  by (induction k) (simp_all add: dec_value_Cons digit_val_def)

lemma strip_zeros_split: "\<exists>k. s = strip_zeros s @ replicate k (CHR ''0'')"
proof -
  let ?z = "\<lambda>c. c = CHR ''0''"
  have "takeWhile ?z (rev s) = replicate (length (takeWhile ?z (rev s))) (CHR ''0'')"
    by (intro replicate_eqI) (auto dest: set_takeWhileD)
  then have "rev s = replicate (length (takeWhile ?z (rev s))) (CHR ''0'') @ dropWhile ?z (rev s)"
    by (metis takeWhile_dropWhile_id)
  then have "rev (rev s) = rev (dropWhile ?z (rev s)) @ rev (replicate (length (takeWhile ?z (rev s))) (CHR ''0''))"
    by (metis rev_append)
  then show ?thesis by (auto simp: strip_zeros_def)
qed

lemma number_value_plain:
  assumes "list_all is_digit ip" and "ip \<noteq> []" and "list_all is_digit fp" and "json_exponent ex"
  shows "number_value (ip @ ex) = of_nat (dec_value ip) * 10 powi exponent_value ex"
    and "number_value (ip @ ''.'' @ fp @ ex) = of_nat (dec_value (ip @ fp)) * 10 powi (exponent_value ex - int (length fp))"
proof -
  have not_digit: "\<not> is_digit (CHR ''.'')" "\<not> is_digit (CHR ''-'')" "\<not> is_digit (CHR ''e'')" "\<not> is_digit (CHR ''E'')"
    by (simp_all add: is_digit_def)
  have ex: "ex = [] \<or> (\<exists>c t. ex = c # t \<and> \<not> is_digit c \<and> c \<noteq> CHR ''.'')"
    using assms(4) not_digit by (cases ex) (auto simp: json_exponent_def Let_def)
  have digits: "takeWhile is_digit (s @ ex) = s" "dropWhile is_digit (s @ ex) = ex" if "list_all is_digit s" for s
    using that ex by (auto simp: list_all_iff takeWhile_append2 dropWhile_append2)
  obtain c r where ip: "ip = c # r" using assms(2) by (cases ip) auto
  then have c: "c \<noteq> CHR ''-''" using assms(1) not_digit by auto
  show "number_value (ip @ ex) = of_nat (dec_value ip) * 10 powi exponent_value ex"
    using digits [OF assms(1)] ex c unfolding number_value_def ip by (auto simp: Let_def)
  have "takeWhile is_digit (ip @ ''.'' @ fp @ ex) = ip" "dropWhile is_digit (ip @ ''.'' @ fp @ ex) = ''.'' @ fp @ ex"
    using assms(1) not_digit by (auto simp: list_all_iff takeWhile_append2 dropWhile_append2)
  then show "number_value (ip @ ''.'' @ fp @ ex) =
      of_nat (dec_value (ip @ fp)) * 10 powi (exponent_value ex - int (length fp))"
    using digits [OF assms(3)] c unfolding number_value_def ip by (simp add: Let_def)
qed

lemma number_value_parts:
  assumes "list_all is_digit ip" and "ip \<noteq> []" and "list_all is_digit fp" and "json_exponent ex"
  shows "number_value (with_fraction ip fp @ ex) =
    of_nat (dec_value (ip @ fp)) * 10 powi (exponent_value ex - int (length fp))"
proof -
  obtain k where k: "fp = strip_zeros fp @ replicate k (CHR ''0'')" using strip_zeros_split by blast
  have f: "list_all is_digit (strip_zeros fp)"
    using assms(3) by (auto simp: strip_zeros_def list_all_iff dest!: set_dropWhileD)
  have "number_value (with_fraction ip fp @ ex) = of_nat (dec_value (ip @ strip_zeros fp)) *
      10 powi (exponent_value ex - int (length (strip_zeros fp)))"
    using number_value_plain [OF assms(1,2) f assms(4)] by (simp add: with_fraction_def)
  also have "\<dots> = of_nat (dec_value (ip @ strip_zeros fp) * 10 ^ k) *
      10 powi (exponent_value ex - int (length (strip_zeros fp)) - int k)"
    by (simp add: power_int_diff [of _ _ "int k"])
  also have "dec_value (ip @ strip_zeros fp) * 10 ^ k = dec_value (ip @ fp)"
    using dec_value_zeros [of "ip @ strip_zeros fp" k] k by simp
  also have "exponent_value ex - int (length (strip_zeros fp)) - int k = exponent_value ex - int (length fp)"
    by (subst (2) k) simp
  finally show ?thesis .
qed

lemma number_value_nat: "number_value (std_to_string n) = of_nat n"
  using number_value_plain(1) [OF digits_to_string, of n "[]" "[]"]
  by (simp add: json_exponent_def exponent_value_def)

text \<open>The sixth digit is right, up to half a unit.\<close>

lemma flog10_upper:
  assumes "0 < q"
  shows "q < 10 powi (flog10 q + 1)"
proof -
  obtain n d where nd: "quotient_of q = (n, d)" by fastforce
  then have d: "0 < d" and q: "q = of_int n / of_int d"
    using quotient_of_denom_pos quotient_of_div by blast+
  then have n: "0 < n" using assms by (simp add: zero_less_divide_iff)
  define a where "a = length (std_to_string (nat n))"
  define b where "b = length (std_to_string (nat d))"
  have "nat n < 10 ^ a" "10 ^ (b - 1) \<le> nat d" "0 < b"
    using to_string_bounds [of "nat n"] to_string_bounds [of "nat d"] n d by (simp_all add: a_def b_def)
  then have up: "of_int n < (10::rat) ^ a" "(10::rat) ^ (b - 1) \<le> of_int d"
    using n d by (metis of_nat_le_iff of_nat_less_iff of_nat_numeral of_nat_power nat_0_le of_int_of_nat_eq less_imp_le)+
  have "q < 10 ^ a / of_int d" unfolding q using up(1) d by (intro divide_strict_right_mono) simp_all
  also have "\<dots> \<le> 10 ^ a / 10 ^ (b - 1)" using up(2) d by (intro divide_left_mono) simp_all
  also have "\<dots> = 10 powi (int a - int b + 1)"
    using \<open>0 < b\<close> by (simp add: power_int_diff power_int_add power_diff)
  finally show ?thesis by (auto simp: flog10_def nd Let_def a_def b_def not_le)
qed

lemma six_digits_value:
  assumes "0 < q"
  shows "\<exists>ds e. six_digits q = (ds, e) \<and> length ds = 6 \<and> list_all is_digit ds \<and>
    \<bar>of_nat (dec_value ds) * 10 powi (e - 5) - q\<bar> \<le> q / 200000"
proof -
  let ?e = "flog10 q"
  let ?x = "q * 10 powi (5 - ?e)"
  let ?m = "round_half_even ?x"
  have low: "100000 \<le> ?x"
  proof -
    have "10 powi ?e * 10 powi (5 - ?e) \<le> ?x"
      using flog10_lower [OF assms] by (intro mult_right_mono) simp_all
    then show ?thesis by (simp add: power_int_add [symmetric])
  qed
  have high: "?x < 1000000"
  proof -
    have "?x < 10 powi (?e + 1) * 10 powi (5 - ?e)"
      using flog10_upper [OF assms] by (intro mult_strict_right_mono) simp_all
    then show ?thesis by (simp add: power_int_add [symmetric])
  qed
  have near: "\<bar>of_int ?m - ?x\<bar> \<le> 1 / 2" using round_half_even_near [of ?x] unfolding abs_le_iff by linarith
  have "100000 \<le> ?m" "?m \<le> 1000000" using near low high by linarith+
  then have m: "100000 \<le> nat ?m" "nat ?m \<le> 1000000" "of_nat (nat ?m) = (of_int ?m :: rat)" by simp_all
  have "\<bar>of_int ?m * 10 powi (?e - 5) - q\<bar> = \<bar>of_int ?m - ?x\<bar> * 10 powi (?e - 5)"
  proof -
    have "q = ?x * 10 powi (?e - 5)" by (simp add: power_int_add [symmetric] mult.assoc)
    then have "of_int ?m * 10 powi (?e - 5) - q = (of_int ?m - ?x) * 10 powi (?e - 5)"
      by (simp only: left_diff_distrib)
    then show ?thesis by (simp add: abs_mult)
  qed
  also have "\<dots> \<le> 1 / 2 * 10 powi (?e - 5)" using near by (intro mult_right_mono) simp_all
  also have "\<dots> = 10 powi ?e / 200000" by (simp add: power_int_diff)
  also have "\<dots> \<le> q / 200000" using flog10_lower [OF assms] by (intro divide_right_mono) simp_all
  finally have err: "\<bar>of_int ?m * 10 powi (?e - 5) - q\<bar> \<le> q / 200000" .
  show ?thesis
  proof (cases "?m = 1000000")
    case True
    have "length (std_to_string 100000) = 6" using to_string_length [of 5 100000] by simp
    moreover have "(of_nat (dec_value (std_to_string 100000)) :: rat) * 10 powi (?e + 1 - 5) = of_int ?m * 10 powi (?e - 5)"
      unfolding True by (simp add: power_int_add power_int_diff)
    ultimately show ?thesis
      using True err digits_to_string by (simp add: six_digits_def)
  next
    case False
    then have "length (std_to_string (nat ?m)) = 6" using m(1,2) to_string_length [of 5 "nat ?m"] by simp
    then show ?thesis using False err digits_to_string m(3) by (simp add: six_digits_def Let_def)
  qed
qed

lemma format_positive_value:
  assumes "0 < q"
  shows "\<bar>number_value (format_positive q) - q\<bar> \<le> q / 200000"
proof -
  obtain ds e where ds: "six_digits q = (ds, e)" "length ds = 6" "list_all is_digit ds"
      "\<bar>of_nat (dec_value ds) * 10 powi (e - 5) - q\<bar> \<le> q / 200000"
    using six_digits_value [OF assms] by blast
  have dig: "list_all is_digit (take n ds)" "list_all is_digit (drop n ds)" for n
    using ds(3) by (auto simp: list_all_iff dest: in_set_takeD in_set_dropD)
  have ne: "take (Suc n) ds \<noteq> []" for n using ds(2) by auto
  have zero: "is_digit (CHR ''0'')" by (simp add: is_digit_def)
  have "number_value (format_positive q) = of_nat (dec_value ds) * 10 powi (e - 5)"
  proof -
    consider "0 \<le> e \<and> e < 6" | "- 4 \<le> e \<and> e < 0" | "\<not> (0 \<le> e \<and> e < 6)" "\<not> (- 4 \<le> e \<and> e < 0)" by blast
    then show ?thesis
    proof cases
      case 1
      then have "format_positive q = with_fraction (take (Suc (nat e)) ds) (drop (Suc (nat e)) ds) @ []"
        by (simp add: format_positive_def ds(1))
      moreover have "int (length (drop (Suc (nat e)) ds)) = 5 - e"
        unfolding length_drop ds(2) using 1 by linarith
      ultimately show ?thesis
        using number_value_parts [OF dig(1) ne dig(2), of "[]" "nat e" "Suc (nat e)"]
        by (simp add: json_exponent_def exponent_value_def)
    next
      case 2
      let ?fp = "replicate (nat (- e) - 1) (CHR ''0'') @ ds"
      have "format_positive q = with_fraction ''0'' ?fp @ []"
        using 2 by (simp add: format_positive_def ds(1))
      moreover have "list_all is_digit ''0''" "list_all is_digit ?fp" using zero ds(3) by (auto simp: list_all_iff)
      moreover have "int (length ?fp) = 5 - e"
        unfolding length_append length_replicate ds(2) using 2 by linarith
      moreover have "dec_value (''0'' @ ?fp) = dec_value ds"
        using dec_value_leading_zeros [of "Suc (nat (- e) - 1)" ds] by simp
      ultimately show ?thesis
        using number_value_parts [of "''0''" ?fp "[]"] by (simp add: json_exponent_def exponent_value_def)
    next
      case 3
      let ?ds = "(if \<bar>e\<bar> < 10 then ''0'' else []) @ std_to_string (nat \<bar>e\<bar>)"
      let ?ex = "CHR ''e'' # (if e < 0 then CHR ''-'' else CHR ''+'') # ?ds"
      have "format_positive q = with_fraction (take (Suc 0) ds) (drop (Suc 0) ds) @ ?ex"
        using 3 unfolding format_positive_def ds(1) Let_def prod.case by (simp only: if_False) simp
      moreover have "list_all is_digit ?ds" using digits_to_string zero by auto
      then have "json_exponent ?ex" by (simp add: json_exponent_def)
      moreover have "dec_value ?ds = nat \<bar>e\<bar>"
        using dec_value_leading_zeros [of 1 "std_to_string (nat \<bar>e\<bar>)"] by simp
      then have "exponent_value ?ex = e" by (simp add: exponent_value_def)
      ultimately show ?thesis
        using number_value_parts [OF dig(1) ne [of 0] dig(2), of ?ex "Suc 0"] ds(2)
        by (simp del: drop_Suc take_Suc)
    qed
  qed
  then show ?thesis using ds(4) by simp
qed

text \<open>What is written for a finite double differs from it by at most half a unit of the sixth significant digit, and
  not at all for a whole number below one million.\<close>

definition written_value :: "rat \<Rightarrow> rat \<Rightarrow> bool" where
  "written_value q x \<longleftrightarrow> \<bar>x - q\<bar> \<le> \<bar>q\<bar> / 200000 \<and> (\<forall>n<1000000. q = of_nat n \<longrightarrow> x = q)"

lemma format_double_value: "written_value q (number_value (format_double (Finite q)))"
proof -
  have "\<bar>number_value (format_double (Finite q)) - q\<bar> \<le> \<bar>q\<bar> / 200000"
  proof -
    consider "q = 0" | "0 < q" | "0 < - q" by linarith
    then show ?thesis
    proof cases
      case 1
      then show ?thesis using number_value_nat [of 0] by (simp add: to_string_0)
    next
      case 2
      then show ?thesis using format_positive_value [OF 2] by simp
    next
      case 3
      let ?s = "format_positive (- q)"
      have "number_value (CHR ''-'' # ?s) = - number_value ?s"
        using format_positive_json [OF 3] by (cases ?s) (simp_all add: number_value_def Let_def case_prod_beta)
      then show ?thesis using 3 format_positive_value [OF 3] by simp
    qed
  qed
  moreover have "number_value (format_double (Finite (of_nat n))) = of_nat n" if "n < 1000000" for n
    by (simp only: format_nat [OF that] number_value_nat)
  ultimately show ?thesis unfolding written_value_def by blast
qed

section \<open>Strings and flat objects\<close>

text \<open>A reader of strings as RFC 8259 defines them, from behind the opening quote; \<open>\\u\<close> escapes, which the
  writer never uses, are not read.\<close>

fun unescape :: "char \<Rightarrow> char option" where
  "unescape d =
     (if d = CHR 0x5C \<or> d = CHR 0x22 \<or> d = CHR ''/'' then Some d
      else if d = CHR ''n'' then Some (CHR 0x0A)
      else if d = CHR ''r'' then Some (CHR 0x0D)
      else if d = CHR ''t'' then Some (CHR 0x09)
      else if d = CHR ''b'' then Some (CHR 0x08)
      else if d = CHR ''f'' then Some (CHR 0x0C)
      else None)"

definition with_first :: "'a \<Rightarrow> ('a list \<times> 'b) option \<Rightarrow> ('a list \<times> 'b) option" where
  "with_first x r = map_option (\<lambda>(xs, rest). (x # xs, rest)) r"

lemma with_first_simps [simp]:
  "with_first x None = None" "with_first x (Some (xs, rest)) = Some (x # xs, rest)"
  by (simp_all add: with_first_def)

fun read_json_string :: "string \<Rightarrow> (string \<times> string) option" where
  "read_json_string [] = None"
| "read_json_string (c # s) =
     (if c = CHR 0x22 then Some ([], s)
      else if c = CHR 0x5C then
        (case s of
           [] \<Rightarrow> None
         | d # t \<Rightarrow>
             (case unescape d of None \<Rightarrow> None | Some x \<Rightarrow> with_first x (read_json_string t)))
      else if (of_char c :: nat) < 32 then None
      else with_first c (read_json_string s))"

datatype json_value = JString string | JNumber string

definition read_value :: "string \<Rightarrow> (json_value \<times> string) option" where
  "read_value s =
     (case s of
        [] \<Rightarrow> None
      | c # t \<Rightarrow>
          if c = CHR 0x22 then map_option (\<lambda>(x, rest). (JString x, rest)) (read_json_string t)
          else
            (let tok = takeWhile (\<lambda>c. \<not> number_end c) s in
             if json_number tok then Some (JNumber tok, drop (length tok) s) else None))"

text \<open>The members of a flat object, from behind the brace or a comma; the number bounds how many.\<close>

fun read_members :: "nat \<Rightarrow> string \<Rightarrow> ((string \<times> json_value) list \<times> string) option" where
  "read_members 0 s = None"
| "read_members (Suc n) s =
     (if take 1 s = ''\"'' then
        (case read_json_string (drop 1 s) of
           Some (key, u) \<Rightarrow>
             (if take 1 u = '':'' then
                (case read_value (drop 1 u) of
                   Some (v, r) \<Rightarrow>
                     if take 1 r = '','' then with_first (key, v) (read_members n (drop 1 r))
                     else if take 1 r = ''}'' then Some ([(key, v)], drop 1 r)
                     else None
                 | None \<Rightarrow> None)
              else None)
         | None \<Rightarrow> None)
      else None)"

definition read_object :: "string \<Rightarrow> ((string \<times> json_value) list \<times> string) option" where
  "read_object s = (if take 1 s = ''{'' then read_members (length s) (drop 1 s) else None)"

definition plain_key :: "string \<Rightarrow> bool" where
  "plain_key s \<longleftrightarrow> list_all (\<lambda>c. 32 \<le> (of_char c :: nat) \<and> c \<noteq> CHR 0x22 \<and> c \<noteq> CHR 0x5C) s"

lemma read_plain_key: "plain_key s \<Longrightarrow> read_json_string (s @ CHR 0x22 # rest) = Some (s, rest)"
  by (induction s) (auto simp: plain_key_def)

lemma read_value_number:
  assumes "json_number tok" and "number_end c"
  shows "read_value (tok @ c # rest) = Some (JNumber tok, c # rest)"
proof -
  have "takeWhile (\<lambda>c. \<not> number_end c) (tok @ c # rest) = tok"
    using json_number_not_end [OF assms(1)] assms(2) by (subst takeWhile_append2) (auto simp: list_all_iff)
  moreover have "tok \<noteq> [] \<and> hd tok \<noteq> CHR 0x22"
    using assms(1) by (auto simp: json_number_def json_natural_def is_digit_def Let_def split: list.splits if_splits)
  then obtain d t where "tok = d # t" "d \<noteq> CHR 0x22" by (cases tok) auto
  ultimately show ?thesis using assms(1) by (simp add: read_value_def)
qed

lemma read_members_next:
  assumes "plain_key key" and "read_value u = Some (v, CHR '','' # r)"
  shows "read_members (Suc n) (CHR 0x22 # key @ CHR 0x22 # CHR '':'' # u) = with_first (key, v) (read_members n r)"
  using read_plain_key [OF assms(1)] assms(2) by simp

lemma read_members_last:
  assumes "plain_key key" and "read_value u = Some (v, CHR ''}'' # r)"
  shows "read_members (Suc n) (CHR 0x22 # key @ CHR 0x22 # CHR '':'' # u) = Some ([(key, v)], r)"
  using read_plain_key [OF assms(1)] assms(2) by simp

declare read_members.simps [simp del]

end
