(* ===== verification/TelemetryClient.thy ===== *)
theory TelemetryClient
  imports Monitor Sockets HttpSim Json
begin

text \<open>
  The telemetry publisher: \<^verbatim>\<open>include/system/telemetry_http_client.hpp\<close> and
  \<^verbatim>\<open>src/system/telemetry_http_client.cpp\<close>: the endpoint of a URL, the JSON text of a sample, the HTTP
  request, and the exchange with the service over blocking sockets. Name resolution and sockets for its
  results are the parameter \<open>net_os\<close>; \<open>send\<close>, \<open>recv\<close> and \<open>close\<close> are those of \<open>os\<close>. The facts: escaping is
  inverted by a JSON reader exactly for strings without control characters that have no escape in the
  code; the request is accepted by the engine's own parser with the JSON text as its body; every path of
  \<open>post_sample\<close> closes the socket it opened; and the answer \<open>true\<close> means that the whole request was
  sent and a 2xx status was received.
\<close>

section \<open>Library functions\<close>

text \<open>\<open>std::string::find\<close> and \<open>rfind\<close> of a character.\<close>

definition find_char :: "char \<Rightarrow> string \<Rightarrow> nat option" where
  "find_char c s =
     (let n = length (takeWhile (\<lambda>d. d \<noteq> c) s) in if n < length s then Some n else None)"

definition rfind_char :: "char \<Rightarrow> string \<Rightarrow> nat option" where
  "rfind_char c s = map_option (\<lambda>n. length s - 1 - n) (find_char c (rev s))"

text \<open>A \<open>std::string\<close> read through \<open>c_str()\<close>.\<close>

definition c_str :: "string \<Rightarrow> string" where
  "c_str s = takeWhile (\<lambda>c. c \<noteq> CHR 0x00) s"

text \<open>\<open>std::stoi\<close> in base 10.\<close>

definition stoi :: "string \<Rightarrow> stoul_error + int" where
  "stoi s =
     (let s = dropWhile is_space s;
          (negative, digits) =
            (case s of
               [] \<Rightarrow> (False, s)
             | c # r \<Rightarrow> if c = CHR ''-'' then (True, r) else if c = CHR ''+'' then (False, r)
                 else (False, s));
          ds = takeWhile is_digit digits;
          v = (if negative then - int (dec_value ds) else int (dec_value ds))
      in if ds = [] then Inl InvalidArgument
         else if v < - (2 ^ 31) \<or> 2 ^ 31 \<le> v then Inl StoulOutOfRange
         else Inr v)"

section \<open>Definitions\<close>

record telemetry_endpoint =
  host :: string
  port_name :: string
  path :: string

record telemetry_sample =
  s_timestamp_us :: u64
  s_source_node :: string
  s_dest_node :: string
  s_packet_size :: u32
  s_latency_ns :: double
  s_dropped_packets :: u32
  s_throughput_kbps :: double

datatype endpoint_error = UnsupportedScheme

definition parse_endpoint :: "string \<Rightarrow> endpoint_error + telemetry_endpoint" where
  "parse_endpoint url =
     (if take 7 url \<noteq> ''http://'' then Inl UnsupportedScheme
      else
        let without_scheme = drop 7 url;
            path_pos = find_char (CHR ''/'') without_scheme;
            host_port = (case path_pos of None \<Rightarrow> without_scheme | Some n \<Rightarrow> take n without_scheme);
            p = (case path_pos of None \<Rightarrow> ''/'' | Some n \<Rightarrow> drop n without_scheme)
        in case rfind_char (CHR '':'') host_port of
             None \<Rightarrow> Inr \<lparr>host = host_port, port_name = ''80'', path = p\<rparr>
           | Some n \<Rightarrow> Inr \<lparr>host = take n host_port, port_name = drop (n + 1) host_port, path = p\<rparr>)"

definition escape_char :: "char \<Rightarrow> string" where
  "escape_char ch =
     (if ch = CHR 0x5C then [CHR 0x5C, CHR 0x5C]
      else if ch = CHR 0x22 then [CHR 0x5C, CHR 0x22]
      else if ch = CHR 0x0A then [CHR 0x5C, CHR ''n'']
      else if ch = CHR 0x0D then [CHR 0x5C, CHR ''r'']
      else if ch = CHR 0x09 then [CHR 0x5C, CHR ''t'']
      else [ch])"

definition escape_json :: "string \<Rightarrow> string" where
  "escape_json input = concat (map escape_char input)"

definition to_json :: "telemetry_sample \<Rightarrow> string" where
  "to_json sample =
     ''{'' @
     ''\"timestamp_us\":'' @ std_to_string (unat (s_timestamp_us sample)) @ '','' @
     ''\"source_node\":\"'' @ escape_json (s_source_node sample) @ ''\",'' @
     ''\"dest_node\":\"'' @ escape_json (s_dest_node sample) @ ''\",'' @
     ''\"packet_size\":'' @ std_to_string (unat (s_packet_size sample)) @ '','' @
     ''\"latency_ns\":'' @ format_double (s_latency_ns sample) @ '','' @
     ''\"dropped_packets\":'' @ std_to_string (unat (s_dropped_packets sample)) @ '','' @
     ''\"throughput_kbps\":'' @ format_double (s_throughput_kbps sample) @
     ''}''"

text \<open>The HTTP request of \<open>post_sample\<close>.\<close>

definition post_request :: "telemetry_endpoint \<Rightarrow> telemetry_sample \<Rightarrow> string" where
  "post_request endpoint sample =
     (let body = to_json sample in
      ''POST '' @ path endpoint @ '' HTTP/1.1'' @ CRLF @
      ''Host: '' @ host endpoint @ '':'' @ port_name endpoint @ CRLF @
      ''Content-Type: application/json'' @ CRLF @
      ''Content-Length: '' @ std_to_string (length body) @ CRLF @
      ''Connection: close'' @ CRLF @
      CRLF @
      body)"

text \<open>
  Name resolution, and sockets for the addresses it finds, whose type is \<open>'a\<close>; the connection is blocking.
\<close>

record ('a, 'k) net_os =
  sys_getaddrinfo :: "string \<Rightarrow> string \<Rightarrow> 'k \<Rightarrow> 'a list option \<times> 'k"
  sys_socket_for :: "'a \<Rightarrow> 'k \<Rightarrow> (errno + int) \<times> 'k"
  sys_connect_to :: "int \<Rightarrow> 'a \<Rightarrow> 'k \<Rightarrow> errno option \<times> 'k"

text \<open>The loop over the addresses; the answer \<open>None\<close> is a negative \<open>sock\<close>.\<close>

fun connect_first :: "'k os \<Rightarrow> ('a, 'k) net_os \<Rightarrow> 'a list \<Rightarrow> 'k \<Rightarrow> int option \<times> 'k" where
  "connect_first os net [] k = (None, k)"
| "connect_first os net (rp # rps) k =
     (case sys_socket_for net rp k of
        (Inl _, k) \<Rightarrow> connect_first os net rps k
      | (Inr sock, k) \<Rightarrow>
          (case sys_connect_to net sock rp k of
             (None, k) \<Rightarrow> (Some sock, k)
           | (Some _, k) \<Rightarrow> connect_first os net rps (sys_close os sock k)))"

function send_all :: "'k os \<Rightarrow> int \<Rightarrow> u8 list \<Rightarrow> nat \<Rightarrow> 'k \<Rightarrow> bool \<times> 'k" where
  "send_all os fd req total_sent k =
     (if total_sent < length req then
        (case sys_send os fd (drop total_sent req) k of
           (Inl _, k) \<Rightarrow> (False, k)
         | (Inr sent, k) \<Rightarrow>
             if sent = 0 then (False, k) else send_all os fd req (total_sent + sent) k)
      else (True, k))"
  by pat_completeness auto

termination
  by (relation "measure (\<lambda>(os, fd, req, total_sent, k). length req - total_sent)") auto

declare send_all.simps [simp del]

definition status_is_success :: "string \<Rightarrow> stoul_error + bool" where
  "status_is_success response =
     (case find_char (CHR '' '') response of
        None \<Rightarrow> Inr False
      | Some first_space \<Rightarrow>
          if length response \<le> first_space + 3 then Inr False
          else
            (case stoi (take 3 (drop (first_space + 1) response)) of
               Inl e \<Rightarrow> Inl e
             | Inr status_code \<Rightarrow> Inr (200 \<le> status_code \<and> status_code < 300)))"

text \<open>The exceptions of \<open>std::stoi\<close> are caught; nothing else throws.\<close>

definition post_sample ::
    "'k os \<Rightarrow> ('a, 'k) net_os \<Rightarrow> telemetry_endpoint \<Rightarrow> telemetry_sample \<Rightarrow> 'k \<Rightarrow> bool \<times> 'k" where
  "post_sample os net endpoint sample k =
     (case sys_getaddrinfo net (c_str (host endpoint)) (c_str (port_name endpoint)) k of
        (None, k) \<Rightarrow> (False, k)
      | (Some result, k) \<Rightarrow>
          (case connect_first os net result k of
             (None, k) \<Rightarrow> (False, k)
           | (Some sock, k) \<Rightarrow>
               (case send_all os sock (map byte_of_char (post_request endpoint sample)) 0 k of
                  (False, k) \<Rightarrow> (False, sys_close os sock k)
                | (True, k) \<Rightarrow>
                    (case sys_recv os sock 511 k of
                       (received, k) \<Rightarrow>
                         (let k = sys_close os sock k in
                          case received of
                            Inl _ \<Rightarrow> (False, k)
                          | Inr bytes \<Rightarrow>
                              if bytes = [] then (False, k)
                              else
                                (case status_is_success (map char_of_byte bytes) of
                                   Inl _ \<Rightarrow> (False, k)
                                 | Inr ok \<Rightarrow> (ok, k)))))))"

definition sample_of_event :: "metric_event \<Rightarrow> double \<Rightarrow> telemetry_sample" where
  "sample_of_event event throughput =
     \<lparr>s_timestamp_us = timestamp_us event, s_source_node = source_node event,
      s_dest_node = dest_node event, s_packet_size = packet_size event,
      s_latency_ns = double_of_u64 (latency_ns event),
      s_dropped_packets = (if dropped event then 1 else 0), s_throughput_kbps = throughput\<rparr>"

definition post_metric_event ::
    "'k os \<Rightarrow> ('a, 'k) net_os \<Rightarrow> telemetry_endpoint \<Rightarrow> metric_event \<Rightarrow> double \<Rightarrow> 'k \<Rightarrow> bool \<times> 'k" where
  "post_metric_event os net endpoint event throughput k =
     post_sample os net endpoint (sample_of_event event throughput) k"

record telemetry_http_client =
  endpoint_url :: string
  client_endpoint :: telemetry_endpoint

definition telemetry_client_new :: "string \<Rightarrow> endpoint_error + telemetry_http_client" where
  "telemetry_client_new url =
     (case parse_endpoint url of
        Inl e \<Rightarrow> Inl e
      | Inr ep \<Rightarrow> Inr \<lparr>endpoint_url = url, client_endpoint = ep\<rparr>)"

section \<open>Endpoints\<close>

lemma find_char_append: "c \<notin> set s \<Longrightarrow> find_char c (s @ c # t) = Some (length s)"
proof -
  assume c: "c \<notin> set s"
  have "takeWhile (\<lambda>d. d \<noteq> c) (s @ c # t) = s"
    using c by (subst takeWhile_append2) auto
  then show ?thesis by (simp add: find_char_def)
qed

lemma find_char_None: "c \<notin> set s \<Longrightarrow> find_char c s = None"
proof -
  assume "c \<notin> set s"
  then have eq: "takeWhile (\<lambda>d. d \<noteq> c) s = s" by (subst takeWhile_eq_all_conv) auto
  show ?thesis unfolding find_char_def Let_def eq by simp
qed

lemma rfind_char_append: "c \<notin> set t \<Longrightarrow> rfind_char c (s @ c # t) = Some (length s)"
  using find_char_append [of c "rev t" "rev s"] by (simp add: rfind_char_def)

lemma rfind_char_None: "c \<notin> set s \<Longrightarrow> rfind_char c s = None"
  by (simp add: rfind_char_def find_char_None)

lemma parse_endpoint_split:
  assumes "CHR ''/'' \<notin> set s" and "tail = [] \<or> hd tail = CHR ''/''"
  shows "parse_endpoint (''http://'' @ s @ tail) =
    (let p = (if tail = [] then ''/'' else tail) in
     case rfind_char (CHR '':'') s of
       None \<Rightarrow> Inr \<lparr>host = s, port_name = ''80'', path = p\<rparr>
     | Some n \<Rightarrow> Inr \<lparr>host = take n s, port_name = drop (n + 1) s, path = p\<rparr>)"
proof (cases tail)
  case Nil
  then show ?thesis using find_char_None [OF assms(1)] by (simp add: parse_endpoint_def)
next
  case (Cons c t)
  then show ?thesis
    using find_char_append [OF assms(1)] assms(2) by (simp add: parse_endpoint_def)
qed

text \<open>URLs: a URL is accepted exactly when it starts with \<open>http://\<close>; then the path starts at the first
  slash behind the scheme (the path \<open>/\<close> without one), and what is before it is split at its last colon,
  with the port 80 when there is none.\<close>

theorem parse_endpoint_cases:
  assumes "CHR ''/'' \<notin> set h" and "CHR ''/'' \<notin> set p" and "CHR '':'' \<notin> set p"
    and "tail = [] \<or> hd tail = CHR ''/''"
  shows "parse_endpoint (''http://'' @ (h @ '':'' @ p) @ tail) =
      Inr \<lparr>host = h, port_name = p, path = (if tail = [] then ''/'' else tail)\<rparr> \<and>
    (CHR '':'' \<notin> set h \<longrightarrow> parse_endpoint (''http://'' @ h @ tail) =
      Inr \<lparr>host = h, port_name = ''80'', path = (if tail = [] then ''/'' else tail)\<rparr>) \<and>
    (parse_endpoint url = Inl UnsupportedScheme \<longleftrightarrow> \<not> (\<exists>rest. url = ''http://'' @ rest))"
proof -
  have "CHR ''/'' \<notin> set (h @ '':'' @ p)" using assms(1,2) by simp
  then have "parse_endpoint (''http://'' @ (h @ '':'' @ p) @ tail) =
      Inr \<lparr>host = h, port_name = p, path = (if tail = [] then ''/'' else tail)\<rparr>"
    using rfind_char_append [OF assms(3), of h] parse_endpoint_split [OF _ assms(4), of "h @ '':'' @ p"]
    by (simp add: Let_def)
  moreover have "parse_endpoint (''http://'' @ h @ tail) =
      Inr \<lparr>host = h, port_name = ''80'', path = (if tail = [] then ''/'' else tail)\<rparr>"
    if "CHR '':'' \<notin> set h"
    using rfind_char_None [OF that] parse_endpoint_split [OF assms(1,4)] by (simp add: Let_def)
  moreover have "take 7 url = ''http://'' \<longleftrightarrow> (\<exists>rest. url = ''http://'' @ rest)"
  proof
    assume "take 7 url = ''http://''"
    then have "url = ''http://'' @ drop 7 url" by (metis append_take_drop_id)
    then show "\<exists>rest. url = ''http://'' @ rest" by (rule exI)
  qed auto
  then have "parse_endpoint url = Inl UnsupportedScheme \<longleftrightarrow> \<not> (\<exists>rest. url = ''http://'' @ rest)"
    by (simp add: parse_endpoint_def Let_def split: option.splits)
  ultimately show ?thesis by blast
qed

text \<open>The default of the daemon.\<close>

lemma parse_endpoint_cases_witness:
  "parse_endpoint ''http://127.0.0.1:8000/telemetry/stream'' =
     Inr \<lparr>host = ''127.0.0.1'', port_name = ''8000'', path = ''/telemetry/stream''\<rparr>"
  using parse_endpoint_cases [of "''127.0.0.1''" "''8000''" "''/telemetry/stream''"] by simp

section \<open>The JSON text\<close>

text \<open>The characters that the writer can represent: no control character besides those with an escape.\<close>

definition json_char :: "char \<Rightarrow> bool" where
  "json_char c \<longleftrightarrow> 32 \<le> (of_char c :: nat) \<or> c = CHR 0x0A \<or> c = CHR 0x0D \<or> c = CHR 0x09"

lemma read_escaped_char:
  "read_json_string (escape_char c @ s) =
     (if json_char c then with_first c (read_json_string s) else None)"
  by (auto simp: escape_char_def json_char_def)

lemma read_escaped:
  "read_json_string (escape_json s @ CHR 0x22 # rest) =
     (if list_all json_char s then Some (s, rest) else None)"
proof (induction s)
  case Nil
  show ?case by (simp add: escape_json_def)
next
  case (Cons c s)
  have "escape_json (c # s) = escape_char c @ escape_json s" by (simp add: escape_json_def)
  then show ?case using Cons.IH by (simp only: append_assoc read_escaped_char) simp
qed

text \<open>Escaping: a JSON reader gets back every string without control characters other than line feed,
  carriage return and tab, whatever quotes and backslashes it contains, and stops behind the closing
  quote; any other control character makes the text invalid JSON.\<close>

theorem escape_json_roundtrip:
  "read_json_string (escape_json s @ ''\"'' @ rest) =
     (if list_all json_char s then Some (s, rest) else None)"
  using read_escaped by simp

section \<open>The JSON object\<close>

lemma read_value_string:
  "list_all json_char s \<Longrightarrow> read_value (CHR 0x22 # escape_json s @ CHR 0x22 # rest) = Some (JString s, rest)"
  by (simp add: read_value_def read_escaped)

lemma plain_keys:
  "plain_key ''timestamp_us''" "plain_key ''source_node''" "plain_key ''dest_node''"
  "plain_key ''packet_size''" "plain_key ''latency_ns''" "plain_key ''dropped_packets''"
  "plain_key ''throughput_kbps''"
  by (simp_all add: plain_key_def)

lemma read_to_json:
  assumes "list_all json_char (s_source_node sample)" and "list_all json_char (s_dest_node sample)"
    and "s_latency_ns sample = Finite a" and "s_throughput_kbps sample = Finite b"
  shows "read_object (to_json sample @ rest) = Some (
    [(''timestamp_us'', JNumber (std_to_string (unat (s_timestamp_us sample)))),
     (''source_node'', JString (s_source_node sample)),
     (''dest_node'', JString (s_dest_node sample)),
     (''packet_size'', JNumber (std_to_string (unat (s_packet_size sample)))),
     (''latency_ns'', JNumber (format_double (Finite a))),
     (''dropped_packets'', JNumber (std_to_string (unat (s_dropped_packets sample)))),
     (''throughput_kbps'', JNumber (format_double (Finite b)))], rest)"
proof -
  let ?m = "\<lambda>key u. CHR 0x22 # key @ CHR 0x22 # CHR '':'' # u"
  let ?str = "\<lambda>s u. CHR 0x22 # escape_json s @ CHR 0x22 # u"
  let ?u7 = "?m ''throughput_kbps'' (format_double (Finite b) @ CHR ''}'' # rest)"
  let ?u6 = "?m ''dropped_packets'' (std_to_string (unat (s_dropped_packets sample)) @ CHR '','' # ?u7)"
  let ?u5 = "?m ''latency_ns'' (format_double (Finite a) @ CHR '','' # ?u6)"
  let ?u4 = "?m ''packet_size'' (std_to_string (unat (s_packet_size sample)) @ CHR '','' # ?u5)"
  let ?u3 = "?m ''dest_node'' (?str (s_dest_node sample) (CHR '','' # ?u4))"
  let ?u2 = "?m ''source_node'' (?str (s_source_node sample) (CHR '','' # ?u3))"
  let ?u1 = "?m ''timestamp_us'' (std_to_string (unat (s_timestamp_us sample)) @ CHR '','' # ?u2)"
  have json: "to_json sample @ rest = CHR ''{'' # ?u1"
    using assms(3,4) by (simp add: to_json_def)
  have ends: "number_end (CHR '','')" "number_end (CHR ''}'')" by (simp_all add: number_end_def)
  note num = read_value_number [OF json_number_to_string ends(1)]
    read_value_number [OF format_double_json ends(1)] read_value_number [OF format_double_json ends(2)]
  note str = read_value_string [OF assms(1)] read_value_string [OF assms(2)]
  have "7 \<le> length (CHR ''{'' # ?u1)" by simp
  then obtain n where "length (CHR ''{'' # ?u1) = 7 + n" by (rule le_Suc_ex [THEN exE])
  then have "length (CHR ''{'' # ?u1) = Suc (Suc (Suc (Suc (Suc (Suc (Suc n))))))" by simp
  then have "read_object (CHR ''{'' # ?u1) = read_members (Suc (Suc (Suc (Suc (Suc (Suc (Suc n))))))) ?u1"
    unfolding read_object_def by simp
  also have "\<dots> = with_first (''timestamp_us'', JNumber (std_to_string (unat (s_timestamp_us sample))))
      (read_members (Suc (Suc (Suc (Suc (Suc (Suc n)))))) ?u2)"
    by (rule read_members_next [OF plain_keys(1) num(1)])
  also have "read_members (Suc (Suc (Suc (Suc (Suc (Suc n)))))) ?u2 =
      with_first (''source_node'', JString (s_source_node sample)) (read_members (Suc (Suc (Suc (Suc (Suc n))))) ?u3)"
    by (rule read_members_next [OF plain_keys(2) str(1)])
  also have "read_members (Suc (Suc (Suc (Suc (Suc n))))) ?u3 =
      with_first (''dest_node'', JString (s_dest_node sample)) (read_members (Suc (Suc (Suc (Suc n)))) ?u4)"
    by (rule read_members_next [OF plain_keys(3) str(2)])
  also have "read_members (Suc (Suc (Suc (Suc n)))) ?u4 =
      with_first (''packet_size'', JNumber (std_to_string (unat (s_packet_size sample))))
        (read_members (Suc (Suc (Suc n))) ?u5)"
    by (rule read_members_next [OF plain_keys(4) num(1)])
  also have "read_members (Suc (Suc (Suc n))) ?u5 =
      with_first (''latency_ns'', JNumber (format_double (Finite a))) (read_members (Suc (Suc n)) ?u6)"
    by (rule read_members_next [OF plain_keys(5) num(2)])
  also have "read_members (Suc (Suc n)) ?u6 =
      with_first (''dropped_packets'', JNumber (std_to_string (unat (s_dropped_packets sample))))
        (read_members (Suc n) ?u7)"
    by (rule read_members_next [OF plain_keys(6) num(1)])
  also have "read_members (Suc n) ?u7 = Some ([(''throughput_kbps'', JNumber (format_double (Finite b)))], rest)"
    by (rule read_members_last [OF plain_keys(7) num(3)])
  finally show ?thesis unfolding json with_first_simps .
qed


text \<open>An event of the daemon: 120 nanoseconds, 12048 kilobits, a hostile node name.\<close>

definition sample_event :: metric_event where
  "sample_event =
     \<lparr>timestamp_us = 7, source_node = ''a\",\"x\":1'', dest_node = ''SecureHost'', packet_size = 1506,
      latency_ns = 120, dropped = False\<rparr>"


section \<open>The request\<close>

text \<open>C28 The request of the publisher is well-formed HTTP: the engine's own parser accepts it as a
  complete \<open>POST\<close> request for the endpoint's path, with the JSON text as its body and the announced length, for
  an endpoint without white space or carriage returns in host, port and path.\<close>

theorem post_request_parses:
  assumes "CHR '' '' \<notin> set (path ep)" and "CHR 0x0D \<notin> set (host ep)" and "CHR 0x0D \<notin> set (port_name ep)"
    and "host ep = [] \<or> hd (host ep) \<noteq> CHR '' ''"
    and "length (to_json sample) < 2 ^ 63" and "alloc (length (to_json sample))"
  shows "\<exists>sim. parse_chunk alloc (map byte_of_char (post_request ep sample)) http_new = Inr (True, sim) \<and>
    req_method (request sim) = ''POST'' \<and> req_uri (request sim) = path ep \<and>
    req_body (request sim) = map byte_of_char (to_json sample) \<and>
    req_headers (request sim) ''Host'' = Some (host ep @ '':'' @ port_name ep)"
proof -
  let ?hs = "[(''Host'', host ep @ '':'' @ port_name ep), (''Content-Type'', ''application/json'')]"
  let ?hs' = "[(''Connection'', ''close'')]"
  have "hd (host ep @ '':'' @ port_name ep) \<noteq> CHR '' ''"
    using assms(4) by (cases "host ep") auto
  then have ok: "\<forall>h \<in> set ?hs. header_ok h" "\<forall>h \<in> set ?hs'. header_ok h"
    using assms(2,3) by (simp_all add: header_ok_def)
  let ?body = "map byte_of_char (to_json sample)"
  have bytes: "map byte_of_char (post_request ep sample) =
      map byte_of_char (request_head ''POST'' (path ep) ''HTTP/1.1'' ?hs (length ?body) ?hs') @ ?body"
    by (simp add: post_request_def request_head_def render_header_def Let_def)
  have len: "length ?body < 2 ^ 63" "alloc (length ?body)" using assms(5,6) by simp_all
  have ver: "CHR '' '' \<notin> set ''POST''" "CHR 0x0D \<notin> set ''HTTP/1.1''" "CHR 0x0A \<notin> set ''HTTP/1.1''" by simp_all
  from parse_request [where body = ?body and alloc = alloc, OF ver(1) assms(1) ver(2,3) ok len]
  show ?thesis unfolding bytes by fastforce
qed

lemma post_request_parses_witness:
  "\<exists>sim. parse_chunk (\<lambda>_. True) (map byte_of_char (post_request
      \<lparr>host = ''127.0.0.1'', port_name = ''8000'', path = ''/telemetry/stream''\<rparr>
      (sample_of_event sample_event (Finite 12048)))) http_new = Inr (True, sim) \<and>
    req_uri (request sim) = ''/telemetry/stream''"
proof -
  let ?s = "sample_of_event sample_event (Finite 12048)"
  have lat: "s_latency_ns ?s = Finite (of_nat 120)" "s_throughput_kbps ?s = Finite (of_nat 12048)"
    using double_of_nat_exact [of 120] by (simp_all add: sample_of_event_def sample_event_def double_of_u64_def)
  have "length (to_json ?s) < 1000"
    using to_string_bounds [of 120] to_string_bounds [of 12048] to_string_length [of 2 120] to_string_length [of 4 12048]
      to_string_length [of 3 1506] to_string_length [of 0 7] to_string_0
    unfolding to_json_def lat format_nat [of 120, simplified] 
    by (simp add: sample_of_event_def sample_event_def escape_json_def escape_char_def
        format_nat [of 120, simplified] format_nat [of 12048, simplified])
  then show ?thesis
    using post_request_parses [of "\<lparr>host = ''127.0.0.1'', port_name = ''8000'', path = ''/telemetry/stream''\<rparr>" ?s "\<lambda>_. True"]
    by auto
qed

section \<open>The status line\<close>

lemma stoi_to_string: "n < 2 ^ 31 \<Longrightarrow> stoi (std_to_string n) = Inr (int n)"
proof -
  assume n: "n < 2 ^ 31"
  obtain c r where s: "std_to_string n = c # r" by (cases "std_to_string n") auto
  have digits: "\<forall>d \<in> set (std_to_string n). is_digit d"
    using digits_to_string [of n] by (simp add: list_all_iff)
  then have "is_digit c" by (simp add: s)
  then have "\<not> is_space c" "c \<noteq> CHR ''-''" "c \<noteq> CHR ''+''" by (auto simp: is_digit_def is_space_def)
  moreover have "takeWhile is_digit (std_to_string n) = std_to_string n"
    using digits by (simp add: takeWhile_eq_all_conv)
  ultimately show ?thesis using n dec_value_to_string [of n] by (simp add: stoi_def s Let_def)
qed

lemma status_of_line:
  assumes "CHR '' '' \<notin> set v" and "100 \<le> c" and "c \<le> 999"
  shows "status_is_success (v @ '' '' @ std_to_string c @ rest) = Inr (200 \<le> c \<and> c < 300)"
proof -
  have l: "length (std_to_string c) = 3" using to_string_length [of 2 c] assms(2,3) by simp
  have "find_char (CHR '' '') (v @ CHR '' '' # std_to_string c @ rest) = Some (length v)"
    by (rule find_char_append [OF assms(1)])
  moreover have "take 3 (std_to_string c @ rest) = std_to_string c" using l by simp
  moreover have "stoi (std_to_string c) = Inr (int c)" using assms(3) by (intro stoi_to_string) simp
  ultimately show ?thesis using l by (simp add: status_is_success_def)
qed

text \<open>A response with a success status: behind the first blank there are the digit 2 and two more digits.\<close>

definition success_response :: "string \<Rightarrow> bool" where
  "success_response r \<longleftrightarrow>
     (\<exists>v d e rest. r = v @ CHR '' '' # CHR ''2'' # d # e # rest \<and> CHR '' '' \<notin> set v \<and> is_digit d \<and> is_digit e)"

lemma find_char_split:
  assumes "find_char c s = Some n"
  shows "s = take n s @ c # drop (Suc n) s \<and> c \<notin> set (take n s)"
proof -
  let ?p = "\<lambda>d. d \<noteq> c"
  have n: "n = length (takeWhile ?p s)" "n < length s"
    using assms by (auto simp: find_char_def Let_def split: if_splits)
  then have "take n s = takeWhile ?p s" by (metis takeWhile_eq_take)
  moreover have "s ! n = c" using n nth_length_takeWhile [of ?p s] by simp
  ultimately show ?thesis using id_take_nth_drop [OF n(2)] set_takeWhileD [of c ?p s] by auto
qed

lemma digit_two:
  assumes "is_digit a" and "digit_val a = 2"
  shows "a = CHR ''2''"
proof -
  have "of_char a = (50 :: nat)" using assms unfolding is_digit_def digit_val_def by linarith
  then have "char_of (of_char a :: nat) = char_of (50 :: nat)" by (simp only:)
  moreover have "char_of (50 :: nat) = CHR ''2''" by (simp add: char_of_eq_iff)
  ultimately show ?thesis by simp
qed

lemma stoi_three:
  assumes "stoi [a, d, e] = Inr v" and "200 \<le> v" and "v < 300"
  shows "a = CHR ''2'' \<and> is_digit d \<and> is_digit e"
proof -
  have nine: "digit_val x \<le> 9" if "is_digit x" for x
    using that unfolding is_digit_def digit_val_def by linarith
  define t where "t = dropWhile is_space [a, d, e]"
  define u where "u = (case t of [] \<Rightarrow> (False, t) | c # r \<Rightarrow>
      if c = CHR ''-'' then (True, r) else if c = CHR ''+'' then (False, r) else (False, t))"
  define ds where "ds = takeWhile is_digit (snd u)"
  have v: "v = (if fst u then - int (dec_value ds) else int (dec_value ds))"
    using assms(1) unfolding stoi_def Let_def t_def [symmetric] u_def [symmetric] case_prod_beta
    unfolding ds_def [symmetric] by (simp split: if_splits)
  then have big: "v = int (dec_value ds)" "200 \<le> dec_value ds" using assms(2) by (auto split: if_splits)
  have "list_all is_digit ds" by (auto simp: ds_def list_all_iff dest: set_takeWhileD)
  then have "dec_value ds < 10 ^ length ds" by (rule dec_value_bound)
  then have "\<not> length ds \<le> 2" using big(2) power_increasing [of "length ds" 2 "10 :: nat"] by fastforce
  moreover have "length ds \<le> length (snd u)" unfolding ds_def by (rule length_takeWhile_le)
  moreover have "length (snd u) \<le> length t" by (auto simp: u_def split: list.split)
  moreover have "length t \<le> 3" unfolding t_def using length_dropWhile_le [of is_space "[a, d, e]"] by simp
  ultimately have len: "length t = 3" "length (snd u) = 3" "length ds = 3" by linarith+
  have "t = [a, d, e]"
    using len(1) by (auto simp: t_def split: if_splits)
  moreover have "snd u = t" using len(1,2) by (auto simp: u_def split: list.splits if_splits)
  moreover have "ds = snd u" using len(2,3) takeWhile_dropWhile_id [of is_digit "snd u"]
    unfolding ds_def by (metis append_eq_conv_conj take_all_iff le_refl)
  ultimately have ds: "is_digit a" "is_digit d" "is_digit e" "v = int (dec_value [a, d, e])"
    using \<open>list_all is_digit ds\<close> big(1) by simp_all
  then have "v = int (100 * digit_val a + 10 * digit_val d + digit_val e)" by (simp add: dec_value_def)
  then have "digit_val a = 2"
    using assms(2,3) nine [OF ds(2)] nine [OF ds(3)] by linarith
  then show ?thesis using ds digit_two [of a] by blast
qed

lemma success_accepted: "status_is_success r = Inr True \<Longrightarrow> success_response r"
proof -
  assume r: "status_is_success r = Inr True"
  then obtain n where n: "find_char (CHR '' '') r = Some n" "\<not> length r \<le> n + 3"
    by (auto simp: status_is_success_def split: option.splits if_splits)
  obtain c where c: "stoi (take 3 (drop (n + 1) r)) = Inr c" "200 \<le> c" "c < 300"
    using r n by (auto simp: status_is_success_def split: sum.splits)
  obtain a d e rest where rest: "drop (Suc n) r = a # d # e # rest"
  proof -
    have "3 \<le> length (drop (Suc n) r)" using n(2) by simp
    then have "\<exists>a d e rest. drop (Suc n) r = a # d # e # rest"
      unfolding numeral_3_eq_3 Suc_le_length_iff by blast
    then show thesis using that by blast
  qed
  have "a = CHR ''2'' \<and> is_digit d \<and> is_digit e" using c by (intro stoi_three) (simp_all add: rest)
  then show ?thesis using find_char_split [OF n(1)] unfolding rest success_response_def by blast
qed

text \<open>The status test: of a response whose first word is followed by a three-digit status, exactly the
  codes 200 to 299 count as success; a response without a blank, or with fewer than three characters behind
  the first one, does not count and raises nothing.\<close>

theorem status_is_success_cases:
  assumes "CHR '' '' \<notin> set v" and "100 \<le> c" and "c \<le> 999" and "length short < 3"
  shows "status_is_success (v @ '' '' @ std_to_string c @ rest) = Inr (200 \<le> c \<and> c < 300) \<and>
    status_is_success v = Inr False \<and> status_is_success (v @ '' '' @ short) = Inr False"
  using status_of_line [OF assms(1-3)] find_char_None [OF assms(1)] find_char_append [OF assms(1)] assms(4)
  by (simp add: status_is_success_def)

lemma status_is_success_cases_witness:
  "status_is_success ''HTTP/1.1 204 No Content'' = Inr True"
proof -
  have "std_to_string 204 = ''204''"
    by (simp add: std_to_string.simps [of 204] std_to_string.simps [of 20] std_to_string.simps [of 2]
        digit_char_def char_of_eq_iff)
  then show ?thesis
    using status_is_success_cases [of "''HTTP/1.1''" 204 "[]" "'' No Content''"] by simp
qed

section \<open>The exchange\<close>

text \<open>The documented behaviour of the calls on the set of open descriptors.\<close>

definition net_spec :: "'k os \<Rightarrow> ('a, 'k) net_os \<Rightarrow> ('k \<Rightarrow> int set) \<Rightarrow> bool" where
  "net_spec os net fds \<longleftrightarrow>
     (\<forall>h p k. fds (snd (sys_getaddrinfo net h p k)) = fds k) \<and>
     (\<forall>rp k. case sys_socket_for net rp k of
        (Inl _, k') \<Rightarrow> fds k' = fds k
      | (Inr fd, k') \<Rightarrow> 0 \<le> fd \<and> fd \<notin> fds k \<and> fds k' = insert fd (fds k)) \<and>
     (\<forall>fd rp k. fds (snd (sys_connect_to net fd rp k)) = fds k) \<and>
     (\<forall>fd bytes k. fds (snd (sys_send os fd bytes k)) = fds k)"

lemma net_specD:
  assumes "net_spec os net fds"
  shows "fds (snd (sys_getaddrinfo net h p k)) = fds k"
    and "fds (snd (sys_connect_to net fd rp k)) = fds k"
    and "fds (snd (sys_send os fd bytes k)) = fds k"
  using assms by (simp_all add: net_spec_def)

lemma socket_for_fds:
  "net_spec os net fds \<Longrightarrow> case sys_socket_for net rp k of
        (Inl _, k') \<Rightarrow> fds k' = fds k
      | (Inr fd, k') \<Rightarrow> 0 \<le> fd \<and> fd \<notin> fds k \<and> fds k' = insert fd (fds k)"
  by (simp add: net_spec_def)

lemma sys_close_fds: "descriptors_spec os fds \<Longrightarrow> fds (sys_close os fd k) = fds k - {fd}"
  by (simp add: descriptors_spec_def)

lemma sys_recv_fds: "descriptors_spec os fds \<Longrightarrow> fds (snd (sys_recv os fd n k)) = fds k"
  by (simp add: descriptors_spec_def)

lemma connect_first_fds:
  assumes "descriptors_spec os fds" and "net_spec os net fds"
  shows "case connect_first os net rps k of
      (None, k') \<Rightarrow> fds k' = fds k
    | (Some fd, k') \<Rightarrow> fd \<notin> fds k \<and> fds k' = insert fd (fds k) \<and>
        (\<exists>rp k0. rp \<in> set rps \<and> sys_connect_to net fd rp k0 = (None, k'))"
proof (induction rps arbitrary: k)
  case (Cons rp rps)
  obtain r k1 where 1: "sys_socket_for net rp k = (r, k1)" by fastforce
  show ?case
  proof (cases r)
    case (Inl e)
    have "fds k1 = fds k" using socket_for_fds [OF assms(2), where rp = rp and k = k] by (simp add: 1 Inl)
    with Cons.IH [of k1] show ?thesis by (auto simp: 1 Inl split: prod.splits option.splits)
  next
    case (Inr fd)
    then have fd: "fd \<notin> fds k" "fds k1 = insert fd (fds k)"
      using socket_for_fds [OF assms(2), where rp = rp and k = k] by (simp_all add: 1)
    obtain c k2 where 2: "sys_connect_to net fd rp k1 = (c, k2)" by fastforce
    have k2: "fds k2 = fds k1" using net_specD(2) [OF assms(2), of fd rp k1] by (simp add: 2)
    show ?thesis
    proof (cases c)
      case None
      then show ?thesis using fd k2 2 by (auto simp: 1 Inr)
    next
      case (Some e)
      have "fds (sys_close os fd k2) = fds k" using sys_close_fds [OF assms(1), of fd k2] fd k2 by simp
      with Cons.IH [of "sys_close os fd k2"] show ?thesis
        by (auto simp: 1 Inr 2 Some split: prod.splits option.splits)
    qed
  qed
qed simp

lemma send_all_keeps:
  assumes step: "\<And>bytes k. P k \<Longrightarrow> P (snd (sys_send os fd bytes k))" and "P k"
  shows "P (snd (send_all os fd req t k))"
  using assms(2)
proof (induction "length req - t" arbitrary: t k rule: less_induct)
  case less
  obtain r k1 where 1: "sys_send os fd (drop t req) k = (r, k1)" by fastforce
  have k1: "P k1" using step [OF less.prems, of "drop t req"] by (simp add: 1)
  consider "length req \<le> t" | e where "t < length req" "r = Inl e" | "t < length req" "r = Inr 0"
    | sent where "t < length req" "r = Inr sent" "0 < sent"
    by (metis gr0I not_le sum.exhaust)
  then show ?case
  proof cases
    case 4
    then have "send_all os fd req t k = send_all os fd req (t + sent) k1"
      by (subst send_all.simps) (simp add: 1)
    then show ?thesis using less.hyps [of "t + sent" k1] k1 4 by simp
  qed (use less.prems k1 in \<open>subst send_all.simps; simp add: 1\<close>)+
qed

lemma send_all_sends:
  assumes spec: "send_spec os fd stream" and "t \<le> length req" and "stream k = old @ take t req"
    and "send_all os fd req t k = (True, k')"
  shows "stream k' = old @ req"
  using assms(2-4)
proof (induction "length req - t" arbitrary: t k rule: less_induct)
  case less
  show ?case
  proof (cases "t < length req")
    case False
    then show ?thesis using less.prems by (subst (asm) send_all.simps) simp
  next
    case True
    obtain r k1 where 1: "sys_send os fd (drop t req) k = (r, k1)" by fastforce
    obtain sent where r: "r = Inr sent" "0 < sent" "send_all os fd req (t + sent) k1 = (True, k')"
      using less.prems(3) True
      by (subst (asm) send_all.simps) (auto simp: 1 split: sum.splits if_splits)
    have "sent \<le> length req - t" "stream k1 = stream k @ take sent (drop t req)"
      using send_step [OF spec, where bytes = "drop t req" and k = k] True by (simp_all add: 1 r)
    moreover from this have "stream k1 = old @ take (t + sent) req" using less.prems(2) by (simp add: take_add)
    moreover have "length req - (t + sent) < length req - t" "t + sent \<le> length req"
      using True r(2) \<open>sent \<le> length req - t\<close> by linarith+
    ultimately show ?thesis using less.hyps [of "t + sent" k1] r(3) by simp
  qed
qed

text \<open>The answer of \<open>post_sample\<close> once the request was sent.\<close>

definition accepted :: "errno + u8 list \<Rightarrow> bool" where
  "accepted received \<longleftrightarrow>
     (\<exists>bytes. received = Inr bytes \<and> bytes \<noteq> [] \<and> status_is_success (map char_of_byte bytes) = Inr True)"

lemma post_sample_cases:
  assumes "sys_getaddrinfo net (c_str (host ep)) (c_str (port_name ep)) k = (Some rps, k1)"
    and "connect_first os net rps k1 = (Some sock, k2)"
    and "send_all os sock (map byte_of_char (post_request ep sample)) 0 k2 = (ok, k3)"
    and "sys_recv os sock 511 k3 = (received, k4)"
  shows "post_sample os net ep sample k =
    (ok \<and> accepted received, sys_close os sock (if ok then k4 else k3))"
  using assms
  by (auto simp: post_sample_def accepted_def Let_def split: bool.splits sum.splits)

lemma post_sample_fds:
  assumes "descriptors_spec os fds" and "net_spec os net fds"
  shows "fds (snd (post_sample os net ep sample k)) = fds k"
proof -
  obtain r k1 where 1: "sys_getaddrinfo net (c_str (host ep)) (c_str (port_name ep)) k = (r, k1)" by fastforce
  have k1: "fds k1 = fds k"
    using net_specD(1) [OF assms(2), of "c_str (host ep)" "c_str (port_name ep)" k] by (simp add: 1)
  show ?thesis
  proof (cases r)
    case None
    then show ?thesis using k1 by (simp add: post_sample_def 1)
  next
    case (Some rps)
    obtain c k2 where 2: "connect_first os net rps k1 = (c, k2)" by fastforce
    note con = connect_first_fds [OF assms, where rps = rps and k = k1]
    show ?thesis
    proof (cases c)
      case None
      then show ?thesis using k1 con by (simp add: post_sample_def 1 Some 2)
    next
      case (Some sock)
      then have fd: "sock \<notin> fds k" "fds k2 = insert sock (fds k)" using con k1 by (simp_all add: 2)
      obtain ok k3 where 3: "send_all os sock (map byte_of_char (post_request ep sample)) 0 k2 = (ok, k3)"
        by fastforce
      obtain received k4 where 4: "sys_recv os sock 511 k3 = (received, k4)" by fastforce
      have "fds k3 = fds k2"
        using send_all_keeps [of "\<lambda>k'. fds k' = fds k2" os sock k2 "map byte_of_char (post_request ep sample)" 0]
          net_specD(3) [OF assms(2)] by (simp add: 3)
      moreover have "fds k4 = fds k3" using sys_recv_fds [OF assms(1), of sock 511 k3] by (simp add: 4)
      ultimately show ?thesis
        using fd sys_close_fds [OF assms(1)] post_sample_cases [OF 1 [unfolded \<open>r = Some rps\<close>] 2 [unfolded Some] 3 4]
        by simp
    qed
  qed
qed

text \<open>\<open>post_sample\<close> leaks no descriptor: after every call, successful or not, the same descriptors are
  open as before; all sockets that it tried are closed.\<close>

theorem post_sample_closes:
  assumes "descriptors_spec os fds" and "net_spec os net fds"
  shows "fds (snd (post_sample os net ep sample k)) = fds k"
  by (rule post_sample_fds [OF assms])

text \<open>C26 The answer \<open>true\<close> of \<open>post_sample\<close> means delivery: a socket was connected to one of the resolved
  addresses, the complete request was appended to its stream, and the answer that was then received has, behind its first
  blank, a status of three digits that begins with 2; then the socket is closed.\<close>

theorem post_sample_delivers:
  assumes "descriptors_spec os fds" and "net_spec os net fds" and "\<And>fd. send_spec os fd (stream fd)"
    and "post_sample os net ep sample k = (True, k')"
  shows "\<exists>rps k1 rp k0 sock k2 k3 bytes k4.
    sys_getaddrinfo net (c_str (host ep)) (c_str (port_name ep)) k = (Some rps, k1) \<and> rp \<in> set rps \<and>
    sys_connect_to net sock rp k0 = (None, k2) \<and>
    stream sock k3 = stream sock k2 @ map byte_of_char (post_request ep sample) \<and>
    sys_recv os sock 511 k3 = (Inr bytes, k4) \<and> success_response (map char_of_byte bytes) \<and>
    k' = sys_close os sock k4"
proof -
  let ?req = "map byte_of_char (post_request ep sample)"
  obtain rps k1 where 1: "sys_getaddrinfo net (c_str (host ep)) (c_str (port_name ep)) k = (Some rps, k1)"
    using assms(4) by (auto simp: post_sample_def split: prod.splits option.splits)
  obtain sock k2 where 2: "connect_first os net rps k1 = (Some sock, k2)"
    using assms(4) 1 by (auto simp: post_sample_def split: prod.splits option.splits)
  obtain ok k3 where 3: "send_all os sock ?req 0 k2 = (ok, k3)" by fastforce
  obtain received k4 where 4: "sys_recv os sock 511 k3 = (received, k4)" by fastforce
  have ok: "ok" "accepted received" "k' = sys_close os sock k4"
    using assms(4) post_sample_cases [OF 1 2 3 4] by auto
  have "stream sock k3 = stream sock k2 @ ?req"
    using send_all_sends [OF assms(3), of 0 ?req sock k2 "stream sock k2" k3] 3 ok(1) by simp
  moreover obtain rp k0 where "rp \<in> set rps" "sys_connect_to net sock rp k0 = (None, k2)"
    using connect_first_fds [OF assms(1,2), where rps = rps and k = k1] 2 by auto
  moreover obtain bytes where "received = Inr bytes" "success_response (map char_of_byte bytes)"
    using ok(2) success_accepted unfolding accepted_def by blast
  ultimately show ?thesis using 1 4 ok(3) by blast
qed

text \<open>A kernel for the exchange: it takes what it is sent, and answers 200.\<close>

definition answering_os :: "small_kernel os" where
  "answering_os = small_os
     \<lparr>sys_send := (\<lambda>fd bytes (fds, out). (Inr (length bytes), (fds, out @ bytes))),
      sys_recv := (\<lambda>fd n k. (Inr (map byte_of_char ''HTTP/1.1 200 OK''), k))\<rparr>"

definition small_net :: "(u32, small_kernel) net_os" where
  "small_net =
     \<lparr>sys_getaddrinfo = (\<lambda>h p k. (Some [0x7F000001], k)),
      sys_socket_for = (\<lambda>rp. sys_socket small_os),
      sys_connect_to = (\<lambda>fd rp k. (None, k))\<rparr>"

lemma answering_os_specs:
  "descriptors_spec answering_os (set \<circ> fst)" "send_spec answering_os fd snd"
  "net_spec answering_os small_net (set \<circ> fst)"
  using fresh_fd
  by (auto simp: descriptors_spec_def send_spec_def net_spec_def answering_os_def small_net_def small_os_def)

lemma post_sample_closes_witness:
  "set (fst (snd (post_sample answering_os small_net
     \<lparr>host = ''127.0.0.1'', port_name = ''8000'', path = ''/''\<rparr>
     (sample_of_event sample_event (Finite 12048)) ([3], [])))) = {3}"
  using post_sample_closes [OF answering_os_specs(1,3), where k = "([3], [])"] by simp

lemma post_sample_delivers_witness:
  "\<exists>sock (k2 :: small_kernel) k3. snd k3 = snd k2 @ map byte_of_char (post_request
      \<lparr>host = ''127.0.0.1'', port_name = ''8000'', path = ''/''\<rparr>
      (sample_of_event sample_event (Finite 12048))) \<and>
    fst (sys_recv answering_os sock 511 k3) = Inr (map byte_of_char ''HTTP/1.1 200 OK'')"
proof -
  let ?ep = "\<lparr>host = ''127.0.0.1'', port_name = ''8000'', path = ''/''\<rparr>"
  let ?s = "sample_of_event sample_event (Finite 12048)"
  let ?req = "map byte_of_char (post_request ?ep ?s)"
  have req: "?req \<noteq> []" by (simp add: post_request_def Let_def)
  have 1: "sys_getaddrinfo small_net (c_str (host ?ep)) (c_str (port_name ?ep)) ([3], []) =
      (Some [0x7F000001], ([3], []))" by (simp add: small_net_def)
  have 2: "connect_first answering_os small_net [0x7F000001] ([3], []) = (Some 4, ([4, 3], []))"
    by (simp add: small_net_def small_os_def fresh_fd_def)
  have 3: "send_all answering_os 4 ?req 0 ([4, 3], []) = (True, ([4, 3], ?req))"
    using req by (subst send_all.simps) (simp add: answering_os_def, subst send_all.simps, simp)
  have 4: "sys_recv answering_os 4 511 ([4, 3], ?req) =
      (Inr (map byte_of_char ''HTTP/1.1 200 OK''), ([4, 3], ?req))" by (simp add: answering_os_def)
  have "status_is_success (''HTTP/1.1'' @ '' '' @ std_to_string 200 @ '' OK'') = Inr True"
    by (subst status_of_line) simp_all
  moreover have "std_to_string 200 = ''200''"
    by (simp add: std_to_string.simps [of 200] std_to_string.simps [of 20] std_to_string.simps [of 2]
        digit_char_def char_of_eq_iff)
  ultimately have "accepted (Inr (map byte_of_char ''HTTP/1.1 200 OK''))" by (simp add: accepted_def)
  then have "post_sample answering_os small_net ?ep ?s ([3], []) = (True, sys_close answering_os 4 ([4, 3], ?req))"
    using post_sample_cases [OF 1 2 3 4] by simp
  from post_sample_delivers [OF answering_os_specs(1,3,2) this]
  obtain k2 k3 :: small_kernel where "snd k3 = snd k2 @ ?req" by blast
  moreover have "fst (sys_recv answering_os 4 511 k3) = Inr (map byte_of_char ''HTTP/1.1 200 OK'')"
    by (simp add: answering_os_def)
  ultimately show ?thesis by blast
qed

end
