(* ===== verification/Daemon.thy ===== *)
theory Daemon
  imports Packet Arena Node HttpSim Monitor EventLoop TelemetryClient
begin

text \<open>
  The server daemon \<^verbatim>\<open>src/main/core_engine.cpp\<close>: the globals and the locals of \<open>main\<close> as one state, the two
  callbacks of the event loop, the start-up and the endless loop. The system calls, the epoll instance, name
  resolution, the byte order and the allocator form the parameter \<open>machine\<close>. Exceptions that reach
  the handler of \<open>main\<close> end the daemon; they are the errors of the model. The accepting callback loops
  until there is no pending connection, here at most \<open>fuel\<close> times. Console output is left out, and the monitor's
  thread takes its own steps on the shared queue.
\<close>

section \<open>State\<close>

record client_context =
  ctx_connection :: connection
  ctx_parser :: http_sim

record daemon =
  main_server :: tcp_server
  active_connections :: "int \<rightharpoonup> client_context"
  telemetry_queue :: "metric_event ring"
  telemetry_monitor :: "monitor \<times> int"
  telemetry_client :: "telemetry_http_client option"
  packet_arena :: arena
  secure_node :: node
  steady :: clock

record ('a, 'k) machine =
  sockets :: "'k os"
  epoll :: "'k epoll_os"
  network :: "('a, 'k) net_os"
  little_endian :: bool
  allocator :: "nat \<Rightarrow> bool"

text \<open>What leaves a callback, or \<open>main\<close>'s \<open>try\<close> block, other than by returning.\<close>

datatype fault =
    NetFault net_error
  | ParserFault http_exception
  | EndpointFault endpoint_error
  | AddressFault addr_error
  | LimiterUndefined
  | OutOfFuel

datatype callback = OnAccept | OnClient

type_synonym 'k daemon_world = "(callback, 'k, daemon) world"

definition sizeof_packet :: nat where
  "sizeof_packet = 1506"

definition alignof_packet :: nat where
  "alignof_packet = 1"

text \<open>\<open>std::to_string\<close> of an \<open>int\<close>.\<close>

definition int_to_string :: "int \<Rightarrow> string" where
  "int_to_string i = (if i < 0 then ''-'' @ std_to_string (nat (- i)) else std_to_string (nat i))"

section \<open>Telemetry\<close>

definition publish_metric_event ::
    "('a, 'k) machine \<Rightarrow> telemetry_http_client option \<Rightarrow> metric_event \<Rightarrow> double \<Rightarrow> 'k \<Rightarrow> 'k" where
  "publish_metric_event m client event throughput k =
     (case client of
        None \<Rightarrow> k
      | Some c \<Rightarrow> snd (post_metric_event (sockets m) (network m) (client_endpoint c) event throughput k))"

definition allowed_event :: "u64 \<Rightarrow> int \<Rightarrow> u8 list \<Rightarrow> metric_event" where
  "allowed_event now c_fd body =
     \<lparr>timestamp_us = now, source_node = ''ClientFD_'' @ int_to_string c_fd, dest_node = ''SecureHost'',
      packet_size = of_nat (length body), latency_ns = 120, dropped = False\<rparr>"

definition dropped_event :: "u64 \<Rightarrow> int \<Rightarrow> metric_event" where
  "dropped_event now c_fd =
     \<lparr>timestamp_us = now, source_node = ''ClientFD_'' @ int_to_string c_fd, dest_node = ''SecureHost'',
      packet_size = 0, latency_ns = 0, dropped = True\<rparr>"

section \<open>Callbacks\<close>

text \<open>The \<open>try\<close> block on a complete request; the exceptions of the arena and of \<open>deserialize\<close> are caught.\<close>

definition handle_packet ::
    "('a, 'k) machine \<Rightarrow> int \<Rightarrow> u8 list \<Rightarrow> daemon \<times> 'k \<Rightarrow> daemon \<times> 'k" where
  "handle_packet m c_fd body st =
     (let (d, k) = st in
      case arena_allocate (packet_arena d) sizeof_packet alignof_packet of
        Inl _ \<Rightarrow> (d, k)
      | Inr (_, a) \<Rightarrow>
          (let d = d\<lparr>packet_arena := a\<rparr> in
           case deserialize (little_endian m) body of
             Inl _ \<Rightarrow> (d, k)
           | Inr _ \<Rightarrow>
               (let (allowed, nd) = receive_packet 0 (secure_node d) (of_int (clock_now (steady d)));
                    d = d\<lparr>secure_node := nd, steady := clock_rest (steady d)\<rparr>;
                    now = of_int (clock_now (steady d));
                    d = d\<lparr>steady := clock_rest (steady d)\<rparr>;
                    event = (if allowed then allowed_event now c_fd body else dropped_event now c_fd);
                    throughput = (if allowed then double_of_u64 (of_nat (length body * 8)) else Finite 0);
                    d = d\<lparr>telemetry_queue := snd (ring_push event (telemetry_queue d))\<rparr>
                in (d, publish_metric_event m (telemetry_client d) event throughput k))))"

definition on_client ::
    "('a, 'k) machine \<Rightarrow> int \<Rightarrow> 'k daemon_world \<Rightarrow> (fault + unit) \<times> 'k daemon_world" where
  "on_client m c_fd w =
     (let (loop, k, d) = w in
      case active_connections d c_fd of
        None \<Rightarrow> (Inr (), w)
      | Some ctx \<Rightarrow>
          (case receive_data (sockets m) (ctx_connection ctx) 2048 k of
             (Inl e, _, k) \<Rightarrow> (Inl (NetFault e), loop, k, d)
           | (Inr raw_bytes, conn, k) \<Rightarrow>
               (let ctx = ctx\<lparr>ctx_connection := conn\<rparr> in
                if raw_bytes = [] then
                  (Inr (), loop, close_socket (sockets m) (conn_socket conn) k,
                   d\<lparr>active_connections := (active_connections d)(c_fd := None)\<rparr>)
                else
                  (case parse_chunk (allocator m) raw_bytes (ctx_parser ctx) of
                     Inl e \<Rightarrow> (Inl (ParserFault e), loop, k, d)
                   | Inr (finished, sim) \<Rightarrow>
                       if finished then
                         (let (d, k) = handle_packet m c_fd (req_body (request sim)) (d, k);
                              d = d\<lparr>packet_arena := arena_reset (packet_arena d)\<rparr>;
                              ctx = ctx\<lparr>ctx_parser := http_reset sim\<rparr>
                          in (Inr (), loop, k,
                              d\<lparr>active_connections := (active_connections d)(c_fd \<mapsto> ctx)\<rparr>))
                       else
                         (Inr (), loop, k,
                          d\<lparr>active_connections :=
                              (active_connections d)(c_fd \<mapsto> ctx\<lparr>ctx_parser := sim\<rparr>)\<rparr>)))))"

text \<open>Assigning a context to a descriptor destroys the one that was there, with its socket.\<close>

definition replace_context ::
    "'k os \<Rightarrow> int \<Rightarrow> client_context \<Rightarrow> daemon \<times> 'k \<Rightarrow> daemon \<times> 'k" where
  "replace_context os fd ctx st =
     (let (d, k) = st;
          k = (case active_connections d fd of
                 None \<Rightarrow> k
               | Some old \<Rightarrow> close_socket os (conn_socket (ctx_connection old)) k)
      in (d\<lparr>active_connections := (active_connections d)(fd \<mapsto> ctx)\<rparr>, k))"

fun on_accept ::
    "nat \<Rightarrow> ('a, 'k) machine \<Rightarrow> 'k daemon_world \<Rightarrow> (fault + unit) \<times> 'k daemon_world" where
  "on_accept 0 m w = (Inl OutOfFuel, w)"
| "on_accept (Suc fuel) m (loop, k, d) =
     (case accept_connection (sockets m) (main_server d) k of
        (Inl e, k) \<Rightarrow> (Inl (NetFault e), loop, k, d)
      | (Inr None, k) \<Rightarrow> (Inr (), loop, k, d)
      | (Inr (Some conn), k) \<Rightarrow>
          (let client_fd = conn_socket conn;
               (d, k) = replace_context (sockets m) client_fd
                 \<lparr>ctx_connection = conn, ctx_parser = http_new\<rparr> (d, k)
           in case register_event (epoll m) client_fd (ucast EPOLLIN) (Some OnClient) loop k of
                (Inl e, loop, k) \<Rightarrow> (Inl (NetFault e), loop, k, d)
              | (Inr _, loop, k) \<Rightarrow> on_accept fuel m (loop, k, d)))"

declare on_accept.simps [simp del]

fun run_callback ::
    "nat \<Rightarrow> ('a, 'k) machine \<Rightarrow> callback \<Rightarrow> int \<Rightarrow> u16 \<Rightarrow> 'k daemon_world
      \<Rightarrow> (fault + unit) \<times> 'k daemon_world" where
  "run_callback fuel m OnAccept fd filter_flags w = on_accept fuel m w"
| "run_callback fuel m OnClient fd filter_flags w = on_client m fd w"

section \<open>Start and main loop\<close>

definition std_tolower :: "char \<Rightarrow> char" where
  "std_tolower c =
     (let n = (of_char c :: nat) in if 65 \<le> n \<and> n \<le> 90 then char_of (n + 32) else c)"

definition env_flag_enabled :: "(string \<Rightarrow> string option) \<Rightarrow> string \<Rightarrow> bool \<Rightarrow> bool" where
  "env_flag_enabled env name default_value =
     (case env name of
        None \<Rightarrow> default_value
      | Some value \<Rightarrow>
          (let normalized = map std_tolower value in
           normalized = ''1'' \<or> normalized = ''true'' \<or> normalized = ''yes'' \<or> normalized = ''on''))"

definition daemon_poll ::
    "nat \<Rightarrow> ('a, 'k) machine \<Rightarrow> 'k daemon_world \<Rightarrow> (fault + unit) \<times> 'k daemon_world" where
  "daemon_poll fuel m w = poll_once (epoll m) NetFault (run_callback fuel m) 500 w"

text \<open>The first \<open>n\<close> rounds of the loop of \<open>main\<close>, or fewer when a fault ends the daemon.\<close>

fun daemon_run ::
    "nat \<Rightarrow> ('a, 'k) machine \<Rightarrow> nat \<Rightarrow> 'k daemon_world \<Rightarrow> (fault + unit) \<times> 'k daemon_world" where
  "daemon_run fuel m 0 w = (Inr (), w)"
| "daemon_run fuel m (Suc n) w =
     (case daemon_poll fuel m w of
        (Inl e, w) \<Rightarrow> (Inl e, w)
      | (Inr _, w) \<Rightarrow> daemon_run fuel m n w)"

text \<open>A round of the monitor's thread between two steps of the daemon, at the time \<open>now\<close>.\<close>

definition monitor_tick :: "int \<Rightarrow> daemon \<Rightarrow> daemon" where
  "monitor_tick now d =
     (let (events, q) = drain (Suc (length (buffer (telemetry_queue d)))) (telemetry_queue d)
      in d\<lparr>telemetry_queue := q, telemetry_monitor := monitor_round (events, now) (telemetry_monitor d)\<rparr>)"

text \<open>
  \<open>main\<close> up to the loop: \<open>buf\<close> is the initial content of the queue's array, \<open>start\<close> the address of the arena,
  \<open>t0\<close> the monitor's first reading of the clock, \<open>clk\<close> the readings of the daemon. The boolean tells
  whether the demonstration thread is started. A fault is returned with the kernel after the \<open>try\<close> block has
  been left, which destroys the server and the loop.
\<close>

definition daemon_start ::
    "('a, 'k) machine \<Rightarrow> (string \<Rightarrow> string option) \<Rightarrow> metric_event list \<Rightarrow> nat \<Rightarrow> int \<Rightarrow> clock \<Rightarrow> 'k
      \<Rightarrow> (fault + bool \<times> callback event_loop \<times> daemon) \<times> 'k" where
  "daemon_start m env buf start t0 clk k =
     (case tcp_server_start (sockets m) (tcp_server_new 9090) k of
        (Inl e, srv, k) \<Rightarrow> (Inl (NetFault e), close_socket (sockets m) (server_socket srv) k)
      | (Inr _, srv, k) \<Rightarrow>
          (let leave = (\<lambda>f k. (Inl f, close_socket (sockets m) (server_socket srv) k));
               mon = snd (monitor_start monitor_new);
               url = (case env ''NETSIM_TELEMETRY_ENDPOINT'' of
                        Some u \<Rightarrow> u
                      | None \<Rightarrow> ''http://127.0.0.1:8000/telemetry/stream'')
           in case telemetry_client_new url of
                Inl e \<Rightarrow> leave (EndpointFault e) k
              | Inr client \<Rightarrow>
                  (let demo = env_flag_enabled env ''NETSIM_DEMO_TRAFFIC'' True in
                   case ipv4_of_string ''127.0.0.1'' of
                     Inl e \<Rightarrow> leave (AddressFault e) k
                   | Inr ip \<Rightarrow>
                       (case mask_of_prefix 24 of
                          Inl e \<Rightarrow> leave (AddressFault e) k
                        | Inr subnet \<Rightarrow>
                            (case enable_rate_limiting
                                (node_new 1 ''SecureHost'' ip subnet ''00:BB:00:11:11:11'') (Finite 5) (Finite 3) of
                               None \<Rightarrow> (Inl LimiterUndefined, k)
                             | Some nd \<Rightarrow>
                                 (case event_loop_new (epoll m) k of
                                    (Inl e, k) \<Rightarrow> leave (NetFault e) k
                                  | (Inr loop, k) \<Rightarrow>
                                      (case register_event (epoll m) (server_socket srv) (ucast EPOLLIN)
                                          (Some OnAccept) loop k of
                                         (Inl e, loop, k) \<Rightarrow>
                                           leave (NetFault e) (event_loop_destroy (sockets m) loop k)
                                       | (Inr _, loop, k) \<Rightarrow>
                                           (Inr (demo, loop,
                                              \<lparr>main_server = srv, active_connections = Map.empty,
                                               telemetry_queue = ring_new buf,
                                               telemetry_monitor = (mon, t0),
                                               telemetry_client = Some client,
                                               packet_arena = arena_new start 20480,
                                               secure_node = nd, steady = clk\<rparr>), k))))))))"

text \<open>
  The way out of \<open>main\<close> after a fault in its loop: the handler returns 1 when the \<open>try\<close> block has destroyed the
  loop and the server, and the exit of the process destroys the globals; \<open>order\<close> is the iteration order of
  the map of connections.
\<close>

definition destroy_contexts :: "'k os \<Rightarrow> (int \<rightharpoonup> client_context) \<Rightarrow> int list \<Rightarrow> 'k \<Rightarrow> 'k" where
  "destroy_contexts os contexts order =
     fold (\<lambda>fd k. case contexts fd of
         None \<Rightarrow> k
       | Some ctx \<Rightarrow> close_socket os (conn_socket (ctx_connection ctx)) k) order"

definition daemon_exit :: "('a, 'k) machine \<Rightarrow> int list \<Rightarrow> 'k daemon_world \<Rightarrow> 'k" where
  "daemon_exit m order w =
     (let (loop, k, d) = w;
          k = event_loop_destroy (sockets m) loop k;
          k = close_socket (sockets m) (server_socket (main_server d)) k
      in destroy_contexts (sockets m) (active_connections d) order k)"

end
