(* ===== verification/DaemonInvariant.thy ===== *)
theory DaemonInvariant
  imports Daemon
begin

text \<open>
  The invariant of the daemon's state between two events, in connection with the kernel's table of open
  descriptors: the open descriptors are those that the daemon holds for itself and one for each active connection; every
  active connection has its callback; parsers, queue and arena are well-formed. Both callbacks keep
  it, and so, by the contract of the event loop (locale \<open>reactor\<close>), does the main loop.
\<close>

section \<open>The kernel\<close>

definition epoll_fds_spec :: "'k epoll_os \<Rightarrow> ('k \<Rightarrow> int set) \<Rightarrow> bool" where
  "epoll_fds_spec eos fds \<longleftrightarrow>
     (\<forall>op fd ev k. fds (snd (sys_epoll_ctl eos op fd ev k)) = fds k) \<and>
     (\<forall>n t k. fds (snd (sys_epoll_wait eos n t k)) = fds k) \<and>
     (\<forall>k. case sys_epoll_create eos k of
        (Inl _, k') \<Rightarrow> fds k' = fds k
      | (Inr fd, k') \<Rightarrow> 0 \<le> fd \<and> fd \<notin> fds k \<and> fds k' = insert fd (fds k))"

definition machine_spec :: "('a, 'k) machine \<Rightarrow> ('k \<Rightarrow> int set) \<Rightarrow> bool" where
  "machine_spec m fds \<longleftrightarrow>
     descriptors_spec (sockets m) fds \<and> net_spec (sockets m) (network m) fds \<and> epoll_fds_spec (epoll m) fds"

lemma machine_specD:
  assumes "machine_spec m fds"
  shows "descriptors_spec (sockets m) fds" and "net_spec (sockets m) (network m) fds"
    and "epoll_fds_spec (epoll m) fds"
  using assms by (simp_all add: machine_spec_def)

lemma close_valid_fds:
  "descriptors_spec os fds \<Longrightarrow> is_valid fd \<Longrightarrow> fds (close_socket os fd k) = fds k - {fd}"
  by (simp add: close_socket_def is_valid_def sys_close_fds)

lemma register_event_fds:
  assumes "epoll_fds_spec eos fds" and "register_event eos fd ev cb loop k = (r, loop', k')"
  shows "fds k' = fds k"
proof -
  have *: "fds k'' = fds k" if "sys_epoll_ctl eos op fd e k = (c, k'')" for op e c k''
    using assms(1) that unfolding epoll_fds_spec_def by (metis snd_conv)
  show ?thesis using assms(2) by (auto simp: register_event_def Let_def split: prod.splits option.splits dest!: *)
qed

lemma event_loop_new_fds:
  assumes "epoll_fds_spec eos fds" and "event_loop_new eos k = (r, k')"
  shows "case r of Inl _ \<Rightarrow> fds k' = fds k
    | Inr loop \<Rightarrow> 0 \<le> loop_fd loop \<and> loop_fd loop \<notin> fds k \<and> fds k' = insert (loop_fd loop) (fds k)"
proof -
  obtain c k1 where 1: "sys_epoll_create eos k = (c, k1)" by fastforce
  have "case sys_epoll_create eos k of
        (Inl _, k') \<Rightarrow> fds k' = fds k
      | (Inr fd, k') \<Rightarrow> 0 \<le> fd \<and> fd \<notin> fds k \<and> fds k' = insert fd (fds k)"
    using assms(1) by (simp add: epoll_fds_spec_def)
  then show ?thesis using assms(2) by (cases c) (auto simp: event_loop_new_def 1)
qed

lemma register_loop_fd: "register_event eos fd ev cb loop k = (r, loop', k') \<Longrightarrow> loop_fd loop' = loop_fd loop"
  by (auto simp: register_event_def Let_def split: prod.splits option.splits)

lemma receive_data_fds:
  assumes "descriptors_spec os fds" and "is_valid (conn_socket conn)"
    and "receive_data os conn n k = (r, conn', k')"
  shows "(r = Inr [] \<longrightarrow> fds (close_socket os (conn_socket conn') k') = fds k - {conn_socket conn}) \<and>
    (r \<noteq> Inr [] \<longrightarrow> conn' = conn \<and> fds k' = fds k)"
proof -
  obtain c k1 where 1: "sys_recv os (conn_socket conn) n k = (c, k1)" by fastforce
  have "fds k1 = fds k" using sys_recv_fds [OF assms(1), of "conn_socket conn" n k] by (simp add: 1)
  then show ?thesis
    using assms(2,3) sys_close_fds [OF assms(1)] unfolding receive_data_cases 1
    by (auto simp: is_valid_def close_socket_def split: sum.splits errno.splits list.splits)
qed

section \<open>The invariant\<close>

definition context_ok :: "callback event_loop \<Rightarrow> int \<Rightarrow> client_context \<Rightarrow> bool" where
  "context_ok loop fd ctx \<longleftrightarrow>
     conn_socket (ctx_connection ctx) = fd \<and> is_valid fd \<and> callbacks loop fd = Some OnClient \<and>
     http_inv (ctx_parser ctx) \<and> hstate (ctx_parser ctx) \<noteq> Complete"

definition arena_clear :: "arena \<Rightarrow> bool" where
  "arena_clear a \<longleftrightarrow> current_cursor a = arena_start a \<and> arena_end a = arena_start a + 20480"

definition daemon_inv :: "('k \<Rightarrow> int set) \<Rightarrow> int set \<Rightarrow> 'k daemon_world \<Rightarrow> bool" where
  "daemon_inv fds own w \<longleftrightarrow>
     (case w of (loop, k, d) \<Rightarrow>
        fds k = own \<union> dom (active_connections d) \<and> own \<inter> dom (active_connections d) = {} \<and>
        (\<forall>fd ctx. active_connections d fd = Some ctx \<longrightarrow> context_ok loop fd ctx) \<and>
        ring_ok (telemetry_queue d) \<and> arena_clear (packet_arena d))"

text \<open>The part of it about descriptors, which also holds when a callback is left by an exception.\<close>

definition daemon_held :: "('k \<Rightarrow> int set) \<Rightarrow> int set \<Rightarrow> 'k daemon_world \<Rightarrow> bool" where
  "daemon_held fds own w \<longleftrightarrow>
     (case w of (loop, k, d) \<Rightarrow>
        fds k = own \<union> dom (active_connections d) \<and> own \<inter> dom (active_connections d) = {} \<and>
        (\<forall>fd ctx. active_connections d fd = Some ctx \<longrightarrow>
           conn_socket (ctx_connection ctx) = fd \<and> is_valid fd))"

lemma inv_held: "daemon_inv fds own w \<Longrightarrow> daemon_held fds own w"
  by (auto simp: daemon_inv_def daemon_held_def context_ok_def)

text \<open>What a packet changes.\<close>

lemma ring_push_ok: "ring_ok q \<Longrightarrow> ring_ok (snd (ring_push x q))"
  using ring.enq_law [of q x] by simp

lemma publish_fds:
  assumes "machine_spec m fds"
  shows "fds (publish_metric_event m client event x k) = fds k"
  using post_sample_fds [OF machine_specD(1,2) [OF assms]]
  by (simp add: publish_metric_event_def post_metric_event_def split: option.split)

lemma allocate_clear:
  "arena_clear a \<Longrightarrow>
     arena_allocate a sizeof_packet alignof_packet = Inr (arena_start a, a\<lparr>current_cursor := arena_start a + 1506\<rparr>)"
  using allocate_eq [of a 1 1506]
  by (simp add: arena_clear_def arena_wf_def sizeof_packet_def alignof_packet_def align_up_def)

lemma handle_packet_frame:
  assumes "machine_spec m fds" and "handle_packet m fd body (d, k) = (d', k')"
  shows "fds k' = fds k \<and> active_connections d' = active_connections d \<and> main_server d' = main_server d \<and>
    (ring_ok (telemetry_queue d) \<longrightarrow> ring_ok (telemetry_queue d')) \<and>
    (arena_clear (packet_arena d) \<longrightarrow> arena_clear (arena_reset (packet_arena d')))"
proof (cases "arena_allocate (packet_arena d) sizeof_packet alignof_packet")
  case (Inl e)
  then show ?thesis using assms(2) by (auto simp: handle_packet_def arena_clear_def arena_reset_def)
next
  case (Inr pa)
  obtain p a where pa: "pa = (p, a)" by fastforce
  have a: "arena_clear (packet_arena d) \<Longrightarrow> arena_clear (arena_reset a)"
    using Inr allocate_clear [of "packet_arena d"] by (auto simp: pa arena_clear_def arena_reset_def)
  show ?thesis
    using assms(2) publish_fds [OF assms(1)] ring_push_ok a
    unfolding handle_packet_def prod.case Let_def Inr pa sum.case
    by (auto split: sum.splits prod.splits)
qed

text \<open>The callback of a client.\<close>

lemma parser_kept:
  assumes "http_inv sim" and "parse_chunk alloc bytes sim = Inr (finished, sim')"
  shows "http_inv sim' \<and> (finished \<longleftrightarrow> hstate sim' = Complete)"
  using assms http_inv_feed by (auto simp: parse_chunk_def split: sum.splits)

lemma on_client_inv:
  assumes spec: "machine_spec m fds" and inv: "daemon_inv fds own w"
    and run: "on_client m c_fd w = (Inr u, w')"
  shows "daemon_inv fds own w'"
proof -
  obtain loop k d where w: "w = (loop, k, d)" by (cases w)
  show ?thesis
  proof (cases "active_connections d c_fd")
    case None
    then show ?thesis using run inv by (simp add: on_client_def w)
  next
    case (Some ctx)
    have ok: "context_ok loop c_fd ctx" using inv Some by (simp add: daemon_inv_def w)
    obtain r conn k1 where 1: "receive_data (sockets m) (ctx_connection ctx) 2048 k = (r, conn, k1)"
      by (cases "receive_data (sockets m) (ctx_connection ctx) 2048 k")
    note recv = receive_data_fds [OF machine_specD(1) [OF spec] _ 1]
    obtain bytes where r: "r = Inr bytes" using run by (cases r) (simp_all add: on_client_def w Some 1)
    show ?thesis
    proof (cases "bytes = []")
      case True
      then have "w' = (loop, close_socket (sockets m) (conn_socket conn) k1,
          d\<lparr>active_connections := (active_connections d)(c_fd := None)\<rparr>)"
        using run by (simp add: on_client_def w Some 1 r)
      moreover have "fds (close_socket (sockets m) (conn_socket conn) k1) = fds k - {c_fd}"
        using recv ok True r by (simp add: context_ok_def)
      ultimately show ?thesis using inv Some unfolding daemon_inv_def w by auto
    next
      case False
      then have same: "conn = ctx_connection ctx" "fds k1 = fds k"
        using recv ok r by (simp_all add: context_ok_def)
      obtain fin sim where p: "parse_chunk (allocator m) bytes (ctx_parser ctx) = Inr (fin, sim)"
        using run False by (cases "parse_chunk (allocator m) bytes (ctx_parser ctx)")
          (auto simp: on_client_def w Some 1 r)
      have sim: "http_inv sim" "fin \<longleftrightarrow> hstate sim = Complete"
        using parser_kept [OF _ p] ok by (simp_all add: context_ok_def)
      show ?thesis
      proof (cases fin)
        case fin: False
        then have "w' = (loop, k1, d\<lparr>active_connections := (active_connections d)(c_fd \<mapsto> ctx\<lparr>ctx_parser := sim\<rparr>)\<rparr>)"
          using run False same(1) by (simp add: on_client_def w Some 1 r p)
        then show ?thesis
          using inv ok sim fin same(2) Some unfolding daemon_inv_def w context_ok_def by auto
      next
        case True
        obtain d2 k2 where h: "handle_packet m c_fd (req_body (request sim)) (d, k1) = (d2, k2)" by fastforce
        have w': "w' = (loop, k2, d2\<lparr>packet_arena := arena_reset (packet_arena d2),
            active_connections := (active_connections d2)(c_fd \<mapsto> ctx\<lparr>ctx_parser := http_reset sim\<rparr>)\<rparr>)"
          using run False same(1) True by (simp add: on_client_def w Some 1 r p h)
        have "http_reset sim = http_new" by (simp add: http_reset_def http_new_def)
        then have "http_inv (http_reset sim)" "hstate (http_reset sim) \<noteq> Complete"
          using http_inv_new by (simp_all add: http_new_def)
        then show ?thesis
          using handle_packet_frame [OF spec h] inv ok same(2) Some
          unfolding daemon_inv_def w w' context_ok_def by auto
      qed
    qed
  qed
qed

text \<open>The callback of the listening socket.\<close>

lemma accept_connection_valid:
  assumes "descriptors_spec os fds" and "accept_connection os srv k = (Inr (Some conn), k')"
  shows "is_valid (conn_socket conn)"
proof -
  obtain fd k1 where 1: "sys_accept os (server_socket srv) k = (Inr fd, k1)"
    using assms(2) by (auto simp: accept_connection_def split: prod.splits sum.splits if_splits)
  then have fd: "0 \<le> fd" using accept_fds [OF assms(1), where k = k and s = "server_socket srv"] by simp
  have "connection_new os fd k1 = (Inr conn, k')"
    using assms(2) by (auto simp: accept_connection_def 1 split: prod.splits sum.splits)
  then have "conn_socket conn = fd" using connection_new_fds [OF assms(1) fd, of k1] by simp
  then show ?thesis using fd by (simp add: is_valid_def)
qed

lemma register_event_callbacks:
  "register_event eos fd ev cb loop k = (Inr u, loop', k') \<Longrightarrow> callbacks loop' = (callbacks loop)(fd := cb)"
  by (auto simp: register_event_def Let_def split: prod.splits option.splits)

lemma on_accept_outcome:
  assumes spec: "machine_spec m fds"
  shows "daemon_inv fds own (loop, k, d) \<Longrightarrow> on_accept fuel m (loop, k, d) = (r, w') \<Longrightarrow>
    daemon_held fds own w' \<and> (\<forall>u. r = Inr u \<longrightarrow> daemon_inv fds own w')"
proof (induction fuel arbitrary: loop k d)
  case 0
  then show ?case by (auto simp: on_accept.simps intro: inv_held)
next
  case (Suc fuel)
  note inv = Suc.prems(1) and run = Suc.prems(2)
  obtain a k1 where 1: "accept_connection (sockets m) (main_server d) k = (a, k1)" by fastforce
  note acc = accept_connection_fds [OF machine_specD(1) [OF spec], where srv = "main_server d" and k = k]
  show ?case
  proof (cases "\<exists>conn. a = Inr (Some conn)")
    case False
    then have "w' = (loop, k1, d)" "fds k1 = fds k"
      using run acc by (auto simp: on_accept.simps 1 split: sum.splits option.splits)
    then show ?thesis using inv inv_held [OF inv] by (simp add: daemon_inv_def daemon_held_def)
  next
    case True
    then obtain conn where a: "a = Inr (Some conn)" by blast
    let ?fd = "conn_socket conn"
    let ?ctx = "\<lparr>ctx_connection = conn, ctx_parser = http_new\<rparr>"
    let ?d = "d\<lparr>active_connections := (active_connections d)(?fd \<mapsto> ?ctx)\<rparr>"
    have fd: "?fd \<notin> fds k" "fds k1 = insert ?fd (fds k)" "is_valid ?fd"
      using acc accept_connection_valid [OF machine_specD(1) [OF spec] 1 [unfolded a]] by (simp_all add: 1 a)
    then have none: "active_connections d ?fd = None" using inv by (auto simp: daemon_inv_def)
    obtain q loop2 k2 where 2: "register_event (epoll m) ?fd (ucast EPOLLIN) (Some OnClient) loop k1 = (q, loop2, k2)"
      by (cases "register_event (epoll m) ?fd (ucast EPOLLIN) (Some OnClient) loop k1")
    have step: "on_accept (Suc fuel) m (loop, k, d) =
        (case q of Inl e \<Rightarrow> (Inl (NetFault e), loop2, k2, ?d) | Inr _ \<Rightarrow> on_accept fuel m (loop2, k2, ?d))"
      by (simp add: on_accept.simps 1 a replace_context_def none 2 Let_def split: sum.split)
    have fds: "fds k2 = fds k1" by (rule register_event_fds [OF machine_specD(3) [OF spec] 2])
    show ?thesis
    proof (cases q)
      case (Inl e)
      then show ?thesis
        using run inv_held [OF inv] fd fds unfolding step by (auto simp: daemon_held_def split: if_splits)
    next
      case (Inr v)
      have "callbacks loop2 = (callbacks loop)(?fd \<mapsto> OnClient)"
        by (rule register_event_callbacks [OF 2 [unfolded Inr]])
      then have "daemon_inv fds own (loop2, k2, ?d)"
        using inv fd fds http_inv_new unfolding daemon_inv_def context_ok_def
        by (auto simp: http_new_def)
      then show ?thesis using Suc.IH run unfolding step Inr by simp
    qed
  qed
qed

text \<open>A client's callback that throws has changed nothing.\<close>

lemma on_client_throws:
  assumes spec: "machine_spec m fds" and held: "daemon_held fds own w"
    and run: "on_client m c_fd w = (Inl f, w')"
  shows "daemon_held fds own w'"
proof -
  obtain loop k d where w: "w = (loop, k, d)" by (cases w)
  obtain ctx where ctx: "active_connections d c_fd = Some ctx"
    using run by (cases "active_connections d c_fd") (simp_all add: on_client_def w)
  obtain r conn k1 where 1: "receive_data (sockets m) (ctx_connection ctx) 2048 k = (r, conn, k1)"
    by (cases "receive_data (sockets m) (ctx_connection ctx) 2048 k")
  have "is_valid (conn_socket (ctx_connection ctx))" using held ctx by (auto simp: daemon_held_def w)
  note recv = receive_data_fds [OF machine_specD(1) [OF spec] this 1]
  have "w' = (loop, k1, d) \<and> r \<noteq> Inr []"
    using run by (auto simp: on_client_def w ctx 1 Let_def split: sum.splits if_splits prod.splits)
  then show ?thesis using recv held by (simp add: daemon_held_def w)
qed

section \<open>The main loop\<close>

lemma run_callback_outcome:
  assumes "machine_spec m fds" and "daemon_inv fds own w" and "run_callback fuel m cb fd ev w = (r, w')"
  shows "daemon_held fds own w' \<and> (\<forall>u. r = Inr u \<longrightarrow> daemon_inv fds own w')"
proof (cases cb)
  case OnAccept
  obtain loop k d where "w = (loop, k, d)" by (cases w)
  then show ?thesis using on_accept_outcome [OF assms(1), of own loop k d fuel r w'] assms(2,3) OnAccept by simp
next
  case OnClient
  then show ?thesis
    using on_client_inv [OF assms(1,2), of fd _ w'] on_client_throws [OF assms(1) inv_held [OF assms(2)], of fd _ w']
      inv_held [of fds own w'] assms(3) by (cases r) auto
qed

lemma wait_fds: "machine_spec m fds \<Longrightarrow> fds (snd (sys_epoll_wait (epoll m) n t k)) = fds k"
  by (simp add: machine_spec_def epoll_fds_spec_def)

interpretation daemon: throwing_reactor "epoll m" "run_callback fuel m" NetFault
    "\<lambda>w. machine_spec m fds \<longrightarrow> daemon_inv fds own w" "\<lambda>w. machine_spec m fds \<longrightarrow> daemon_held fds own w"
  for m :: "('a, 'k) machine" and fuel fds own
proof unfold_locales
  fix w :: "'k daemon_world" and fd cb ev u w'
  assume "machine_spec m fds \<longrightarrow> daemon_inv fds own w" "run_callback fuel m cb fd ev w = (Inr u, w')"
  then show "machine_spec m fds \<longrightarrow> daemon_inv fds own w'"
    using run_callback_outcome by blast
next
  fix loop :: "callback event_loop" and k :: 'k and s n t
  assume "machine_spec m fds \<longrightarrow> daemon_inv fds own (loop, k, s)"
  then show "machine_spec m fds \<longrightarrow> daemon_inv fds own (loop, snd (sys_epoll_wait (epoll m) n t k), s)"
    by (simp add: daemon_inv_def wait_fds)
next
  fix w :: "'k daemon_world"
  assume "machine_spec m fds \<longrightarrow> daemon_inv fds own w"
  then show "machine_spec m fds \<longrightarrow> daemon_held fds own w" using inv_held by blast
next
  fix w :: "'k daemon_world" and fd cb ev e w'
  assume "machine_spec m fds \<longrightarrow> daemon_inv fds own w" "run_callback fuel m cb fd ev w = (Inl e, w')"
  then show "machine_spec m fds \<longrightarrow> daemon_held fds own w'"
    using run_callback_outcome by blast
qed

lemma daemon_poll_inv:
  assumes "machine_spec m fds" and "daemon_inv fds own w" and "daemon_poll fuel m w = (Inr u, w')"
  shows "daemon_inv fds own w'"
  using daemon.poll_inv [of m fds own w fuel 500 u w'] assms by (simp add: daemon_poll_def)

lemma daemon_poll_held:
  assumes "machine_spec m fds" and "daemon_inv fds own w" and "daemon_poll fuel m w = (r, w')"
  shows "daemon_held fds own w'"
  using daemon.poll_held [of m fds own w fuel 500 r w'] assms by (simp add: daemon_poll_def)

lemma daemon_run_inv:
  assumes "machine_spec m fds"
  shows "daemon_inv fds own w \<Longrightarrow> daemon_run fuel m n w = (Inr u, w') \<Longrightarrow> daemon_inv fds own w'"
proof (induction n arbitrary: w)
  case (Suc n)
  obtain r w1 where 1: "daemon_poll fuel m w = (r, w1)" by (meson surj_pair)
  then obtain v where r: "r = Inr v" using Suc.prems(2) by (cases r) simp_all
  have "daemon_inv fds own w1" by (rule daemon_poll_inv [OF assms Suc.prems(1) 1 [unfolded r]])
  then show ?case using Suc by (simp add: 1 r)
qed simp

lemma monitor_tick_inv: "daemon_inv fds own (loop, k, d) \<Longrightarrow> daemon_inv fds own (loop, k, monitor_tick now d)"
  by (simp add: daemon_inv_def monitor_tick_def case_prod_beta drain_ok del: drain.simps)

text \<open>The life of the daemon, in steps of the two threads: the event thread waits for events and runs callbacks, and
  rounds of the monitor's thread come between them, also between the callbacks of one poll. Polls that return are
  sequences of such steps.\<close>

inductive daemon_reach ::
    "nat \<Rightarrow> ('a, 'k) machine \<Rightarrow> 'k daemon_world \<Rightarrow> 'k daemon_world \<Rightarrow> bool"
  for fuel m w0 where
  start: "daemon_reach fuel m w0 w0"
| wait: "daemon_reach fuel m w0 (loop, k, d) \<Longrightarrow>
    daemon_reach fuel m w0 (loop, snd (sys_epoll_wait (epoll m) n t k), d)"
| callback: "daemon_reach fuel m w0 w \<Longrightarrow> callbacks (fst w) fd = Some cb \<Longrightarrow>
    run_callback fuel m cb fd ev w = (Inr u, w') \<Longrightarrow> daemon_reach fuel m w0 w'"
| tick: "daemon_reach fuel m w0 (loop, k, d) \<Longrightarrow> daemon_reach fuel m w0 (loop, k, monitor_tick now d)"

interpretation life: reactor "epoll m" "run_callback fuel m" NetFault "daemon_reach fuel m w0"
  for m :: "('a, 'k) machine" and fuel w0
  by unfold_locales (rule daemon_reach.callback daemon_reach.wait; assumption)+

lemma daemon_reach_poll:
  assumes "daemon_reach fuel m w0 w" and "daemon_poll fuel m w = (Inr u, w')"
  shows "daemon_reach fuel m w0 w'"
  using life.poll_inv [OF assms(1)] assms(2) unfolding daemon_poll_def by blast

lemma daemon_reach_inv:
  assumes "machine_spec m fds"
  shows "daemon_reach fuel m w0 w \<Longrightarrow> daemon_inv fds own w0 \<Longrightarrow> daemon_inv fds own w"
proof (induction rule: daemon_reach.induct)
  case (wait loop k d n t)
  then show ?case by (simp add: daemon_inv_def wait_fds [OF assms])
next
  case (callback w fd cb ev u w')
  then show ?case using run_callback_outcome [OF assms] by blast
next
  case (tick loop k d now)
  show ?case by (intro monitor_tick_inv tick.IH tick.prems)
qed

section \<open>Start\<close>

lemma host_address: "ipv4_of_string ''127.0.0.1'' = Inr (IPv4Address 0x7F000001)"
proof -
  have "quad_text ''127.0.0.1'' ''127'' ''0'' ''0'' ''1''"
    by (simp add: quad_text_def octet_text_def is_digit_def digit_val_def dec_value_def)
  from ipv4_of_quad [OF this] show ?thesis by (simp add: quad_value_def dec_value_def digit_val_def)
qed

lemma host_limiter:
  "\<exists>l. gcra_new (Finite 5) (Finite 3) = Some l \<and> unat (emission_interval_ns l) = 200000000 \<and>
     unat (tolerance_ns l) = 400000000 \<and> tat_ns l = 0"
  using gcra_new_exact [of 5 3] by (auto simp: dvd_def)

lemma limiter_on_host:
  "enable_rate_limiting nd (Finite 5) (Finite 3) = Some nd' \<longleftrightarrow>
     (\<exists>l. gcra_new (Finite 5) (Finite 3) = Some l \<and> nd' = nd\<lparr>node_limiter := Some l\<rparr>)"
  by (auto simp: enable_rate_limiting_def split: option.split)

lemma client_new_error: "telemetry_client_new url = Inl e \<Longrightarrow> e = UnsupportedScheme"
  by (cases e)

text \<open>The state in which \<open>main\<close> enters its loop.\<close>

definition started :: "('k \<Rightarrow> int set) \<Rightarrow> callback event_loop \<Rightarrow> 'k \<Rightarrow> daemon \<Rightarrow> bool" where
  "started fds loop k d \<longleftrightarrow>
     daemon_inv fds (fds k) (loop, k, d) \<and> active_connections d = Map.empty \<and>
     callbacks loop = [server_socket (main_server d) \<mapsto> OnAccept] \<and>
     (\<exists>l. node_limiter (secure_node d) = Some l \<and> unat (emission_interval_ns l) = 200000000 \<and>
        unat (tolerance_ns l) = 400000000 \<and> tat_ns l = 0)"

lemma daemon_start_outcome:
  assumes "length buf = 1024" and run: "daemon_start m env buf start t0 clk k = (r, k')"
  shows "case r of
      Inl f \<Rightarrow> (\<exists>e. f = NetFault e) \<or> f = EndpointFault UnsupportedScheme
    | Inr (demo, loop, d) \<Rightarrow> started fds loop k' d \<and>
        demo = env_flag_enabled env ''NETSIM_DEMO_TRAFFIC'' True"
proof -
  obtain l where l: "gcra_new (Finite 5) (Finite 3) = Some l" "unat (emission_interval_ns l) = 200000000"
      "unat (tolerance_ns l) = 400000000" "tat_ns l = 0"
    using host_limiter by blast
  have mask: "mask_of_prefix 24 = Inr (SubnetMask (prefix_mask 24))"
    using mask_of_prefix_nat [of 24] by simp
  have queue: "ring_ok (ring_new buf)"
    using assms(1) by (auto simp: ring_ok_def ring_new_def intro!: exI [of _ 10])
  have arena: "arena_clear (arena_new start 20480)" by (simp add: arena_clear_def arena_new_def)
  show ?thesis
    using run l queue arena
    by (auto simp: daemon_start_def Let_def host_address mask enable_rate_limiting_def started_def daemon_inv_def
        event_loop_new_def dest: client_new_error dest!: register_event_callbacks
        split: prod.splits sum.splits option.splits)
qed

text \<open>The system calls of the start, in their order: those that make the listening socket, and those that make the loop. The
  value is the error of the first that fails; \<open>calls\<close> runs calls on one descriptor.\<close>

fun calls :: "('k \<Rightarrow> errno option \<times> 'k) list \<Rightarrow> 'k \<Rightarrow> errno option \<times> 'k" where
  "calls [] k = (None, k)"
| "calls (c # cs) k = (case c k of (Some e, k) \<Rightarrow> (Some e, k) | (None, k) \<Rightarrow> calls cs k)"

definition nonblock_call :: "'k os \<Rightarrow> int \<Rightarrow> 'k \<Rightarrow> errno option \<times> 'k" where
  "nonblock_call os fd k =
     (case sys_getfl os fd k of
        (Inl e, k) \<Rightarrow> (Some e, k)
      | (Inr flags, k) \<Rightarrow> sys_setfl os fd (flags OR O_NONBLOCK) k)"

definition listen_calls :: "'k os \<Rightarrow> 'k \<Rightarrow> (errno + int) \<times> 'k" where
  "listen_calls os k =
     (case sys_socket os k of
        (Inl e, k) \<Rightarrow> (Inl e, k)
      | (Inr fd, k) \<Rightarrow>
          (case calls [sys_reuseaddr os fd, nonblock_call os fd, sys_bind os fd 9090, sys_listen os fd 10] k of
             (Some e, k) \<Rightarrow> (Inl e, k)
           | (None, k) \<Rightarrow> (Inr fd, k)))"

definition loop_calls :: "'k epoll_os \<Rightarrow> int \<Rightarrow> 'k \<Rightarrow> errno option" where
  "loop_calls eos fd k =
     (case sys_epoll_create eos k of
        (Inl e, _) \<Rightarrow> Some e
      | (Inr _, k) \<Rightarrow> fst (sys_epoll_ctl eos EPOLL_CTL_ADD fd (ucast (ucast EPOLLIN :: u16) OR EPOLLRDHUP) k))"

definition endpoint_url_of :: "(string \<Rightarrow> string option) \<Rightarrow> string" where
  "endpoint_url_of env =
     (case env ''NETSIM_TELEMETRY_ENDPOINT'' of
        None \<Rightarrow> ''http://127.0.0.1:8000/telemetry/stream''
      | Some url \<Rightarrow> url)"

lemma server_start_calls:
  "case listen_calls os k of
     (Inl e, k1) \<Rightarrow> \<exists>what srv. tcp_server_start os (tcp_server_new 9090) k = (Inl (SystemError e what), srv, k1)
   | (Inr fd, k1) \<Rightarrow>
       tcp_server_start os (tcp_server_new 9090) k = (Inr (), \<lparr>port = 9090, server_socket = fd\<rparr>, k1)"
  by (auto simp: tcp_server_start_def tcp_server_new_def listen_calls_def nonblock_call_def set_nonblocking_def
      move_assign_def close_socket_def Let_def split: prod.splits sum.splits option.splits)

lemma daemon_start_calls:
  assumes "daemon_start m env buf start t0 clk k = (r, k')"
  shows "case listen_calls (sockets m) k of
      (Inl e, _) \<Rightarrow> \<exists>what. r = Inl (NetFault (SystemError e what))
    | (Inr fd, k1) \<Rightarrow>
        if take 7 (endpoint_url_of env) \<noteq> ''http://'' then r = Inl (EndpointFault UnsupportedScheme)
        else (case loop_calls (epoll m) fd k1 of
                Some e \<Rightarrow> \<exists>what. r = Inl (NetFault (SystemError e what))
              | None \<Rightarrow> \<exists>demo loop d. r = Inr (demo, loop, d) \<and> main_server d = \<lparr>port = 9090, server_socket = fd\<rparr>)"
proof -
  obtain l where l: "gcra_new (Finite 5) (Finite 3) = Some l" using host_limiter by blast
  have mask: "mask_of_prefix 24 = Inr (SubnetMask (prefix_mask 24))" using mask_of_prefix_nat [of 24] by simp
  have url: "(case env ''NETSIM_TELEMETRY_ENDPOINT'' of Some u \<Rightarrow> u
      | None \<Rightarrow> ''http://127.0.0.1:8000/telemetry/stream'') = endpoint_url_of env"
    by (simp add: endpoint_url_of_def)
  obtain q k1 where q: "listen_calls (sockets m) k = (q, k1)" by fastforce
  note server = server_start_calls [of "sockets m" k, unfolded q prod.case]
  show ?thesis
  proof (cases q)
    case (Inl e)
    then show ?thesis using assms server by (auto simp: daemon_start_def q)
  next
    case (Inr fd)
    then have srv: "tcp_server_start (sockets m) (tcp_server_new 9090) k =
        (Inr (), \<lparr>port = 9090, server_socket = fd\<rparr>, k1)" using server by simp
    show ?thesis
    proof (cases "take 7 (endpoint_url_of env) = ''http://''")
      case False
      then show ?thesis
        using assms by (auto simp: daemon_start_def srv url telemetry_client_new_def parse_endpoint_def q Inr Let_def)
    next
      case True
      then obtain client where "telemetry_client_new (endpoint_url_of env) = Inr client"
        by (cases "telemetry_client_new (endpoint_url_of env)")
          (auto simp: telemetry_client_new_def parse_endpoint_def Let_def split: option.splits)
      then show ?thesis
        using assms True l
        by (auto simp: daemon_start_def srv url q Inr Let_def host_address mask enable_rate_limiting_def
            event_loop_new_def loop_calls_def register_event_def split: prod.splits sum.splits option.splits)
    qed
  qed
qed

text \<open>C31 Start-up: \<open>main\<close> reaches its loop exactly when the calls that make the listening socket succeed, the endpoint
  URL, from the environment or the default one, begins with \<open>http://\<close>, and the calls that make the loop succeed;
  otherwise the fault is the error of the first failing call, or the unsupported scheme. The configured
  address, mask and limiter are always accepted, and the limiter has an interval of 200 milliseconds
  and a tolerance of 400. The loop starts with the listening socket as its only callback, and the demonstration runs
  unless the environment turns it off.\<close>

theorem daemon_start_cases:
  assumes "length buf = 1024" and "daemon_start m env buf start t0 clk k = (r, k')"
  shows "case listen_calls (sockets m) k of
      (Inl e, _) \<Rightarrow> \<exists>what. r = Inl (NetFault (SystemError e what))
    | (Inr fd, k1) \<Rightarrow>
        if take 7 (endpoint_url_of env) \<noteq> ''http://'' then r = Inl (EndpointFault UnsupportedScheme)
        else (case loop_calls (epoll m) fd k1 of
                Some e \<Rightarrow> \<exists>what. r = Inl (NetFault (SystemError e what))
              | None \<Rightarrow> \<exists>demo loop d. r = Inr (demo, loop, d) \<and> server_socket (main_server d) = fd \<and>
                  started fds loop k' d \<and>
                  demo = (case env ''NETSIM_DEMO_TRAFFIC'' of
                      None \<Rightarrow> True
                    | Some v \<Rightarrow> map std_tolower v \<in> {''1'', ''true'', ''yes'', ''on''}))"
proof -
  have *: "env_flag_enabled env ''NETSIM_DEMO_TRAFFIC'' True =
      (case env ''NETSIM_DEMO_TRAFFIC'' of None \<Rightarrow> True | Some v \<Rightarrow> map std_tolower v \<in> {''1'', ''true'', ''yes'', ''on''})"
    by (simp add: env_flag_enabled_def Let_def split: option.split)
  have "started fds loop k' d \<and> demo = env_flag_enabled env ''NETSIM_DEMO_TRAFFIC'' True"
    if "r = Inr (demo, loop, d)" for demo loop d
    using daemon_start_outcome [OF assms, of fds] that by simp
  then show ?thesis
    using daemon_start_calls [OF assms(2)] unfolding * by (fastforce split: prod.splits sum.splits option.splits if_splits)
qed

text \<open>C5 The daemon's life, in whatever order events, clients and the monitor's thread come: at every moment
  between two events the open descriptors are those that were open at its start and one for each active
  connection, none is lost or closed twice; every active connection owns its descriptor, has its callback
  and a well-formed parser that is not left at a complete request; queue and arena are well-formed, and the arena
  is empty.\<close>

theorem daemon_invariant:
  assumes "machine_spec m fds" and "length buf = 1024"
    and "daemon_start m env buf start t0 clk boot = (Inr (demo, loop0, d0), k0)"
    and "daemon_reach fuel m (loop0, k0, d0) (loop, k, d)"
  shows "fds k = fds k0 \<union> dom (active_connections d) \<and> fds k0 \<inter> dom (active_connections d) = {} \<and>
    (\<forall>fd ctx. active_connections d fd = Some ctx \<longrightarrow>
       conn_socket (ctx_connection ctx) = fd \<and> is_valid fd \<and> callbacks loop fd = Some OnClient \<and>
       http_inv (ctx_parser ctx) \<and> hstate (ctx_parser ctx) \<noteq> Complete) \<and>
    ring_ok (telemetry_queue d) \<and> current_cursor (packet_arena d) = arena_start (packet_arena d)"
proof -
  have "daemon_inv fds (fds k0) (loop0, k0, d0)"
    using daemon_start_outcome [OF assms(2,3), of fds] by (simp add: started_def)
  then have "daemon_inv fds (fds k0) (loop, k, d)" by (rule daemon_reach_inv [OF assms(1,4)])
  then show ?thesis by (simp add: daemon_inv_def context_ok_def arena_clear_def)
qed

end
