(* ===== verification/DaemonService.thy ===== *)
theory DaemonService
  imports DaemonInvariant
begin

text \<open>
  What the daemon does for its clients, and what ends it: the effect of a complete request on the queue, the
  limiter, the arena and the connection; a request cut into any chunks; malformed packets and malformed
  requests; the exact conditions under which a client's callback throws; and the accepting callback
  on a descriptor number that a former client has used.
\<close>

section \<open>One event of a client\<close>

lemma on_client_data:
  assumes "active_connections d fd = Some ctx" and "context_ok loop fd ctx"
    and "sys_recv (sockets m) fd 2048 k = (Inr bytes, k1)" and "bytes \<noteq> []"
  shows "on_client m fd (loop, k, d) =
    (case parse_chunk (allocator m) bytes (ctx_parser ctx) of
       Inl e \<Rightarrow> (Inl (ParserFault e), loop, k1, d)
     | Inr (False, sim) \<Rightarrow>
         (Inr (), loop, k1,
          d\<lparr>active_connections := (active_connections d)(fd \<mapsto> ctx\<lparr>ctx_parser := sim\<rparr>)\<rparr>)
     | Inr (True, sim) \<Rightarrow>
         (let (d', k') = handle_packet m fd (req_body (request sim)) (d, k1)
          in (Inr (), loop, k',
              d'\<lparr>packet_arena := arena_reset (packet_arena d'),
                 active_connections := (active_connections d')(fd \<mapsto> ctx\<lparr>ctx_parser := http_new\<rparr>)\<rparr>)))"
proof -
  have "http_reset sim = http_new" for sim by (simp add: http_reset_def http_new_def)
  then show ?thesis
    using assms
    by (simp add: on_client_def receive_data_cases context_ok_def Let_def case_prod_beta
        split: list.split sum.split bool.split)
qed

text \<open>What a packet is to leave behind: the event that the statistics see, with the decision \<open>ok\<close> of the limiter and
  the time stamp \<open>now\<close>.\<close>

definition expected_event :: "bool \<Rightarrow> u64 \<Rightarrow> int \<Rightarrow> u8 list \<Rightarrow> metric_event" where
  "expected_event ok now fd body =
     \<lparr>timestamp_us = now, source_node = ''ClientFD_'' @ int_to_string fd, dest_node = ''SecureHost'',
      packet_size = (if ok then of_nat (length body) else 0), latency_ns = (if ok then 120 else 0),
      dropped = (\<not> ok)\<rparr>"

text \<open>The contract of the service: the packet is judged at the daemon's next reading of the clock and stamped with the one
  after it; the limiter is charged; the event is the last one in the queue, if there was room; the connection
  starts afresh; and nothing else in the daemon changes.\<close>

definition packet_effect ::
    "rate_limiter \<Rightarrow> int \<Rightarrow> u8 list \<Rightarrow> client_context \<Rightarrow> daemon \<Rightarrow> daemon \<Rightarrow> bool" where
  "packet_effect l fd body ctx d d' \<longleftrightarrow>
     (let t = of_int (steady d 0);
          event = expected_event (admits l t) (of_int (steady d 1)) fd body;
          q = telemetry_queue d; q' = telemetry_queue d'
      in d' = d\<lparr>secure_node := (secure_node d)\<lparr>node_limiter := Some (charged l t)\<rparr>,
              steady := (\<lambda>n. steady d (n + 2)),
              telemetry_queue := q',
              active_connections := (active_connections d)(fd \<mapsto> ctx\<lparr>ctx_parser := http_new\<rparr>)\<rparr> \<and>
         ring_ok q' \<and> length (buffer q') = length (buffer q) \<and>
         ring_items q' =
           (if length (ring_items q) < length (buffer q) then ring_items q @ [event] else ring_items q))"

text \<open>The same in terms of the code's queue operation.\<close>

definition verdict :: "rate_limiter \<Rightarrow> daemon \<Rightarrow> bool" where
  "verdict l d = admits l (of_int (steady d 0))"

definition packet_event :: "rate_limiter \<Rightarrow> daemon \<Rightarrow> int \<Rightarrow> u8 list \<Rightarrow> metric_event" where
  "packet_event l d fd body = expected_event (verdict l d) (of_int (steady d 1)) fd body"

text \<open>The daemon's state after a packet, with the arena cleared again.\<close>

definition after_packet :: "rate_limiter \<Rightarrow> int \<Rightarrow> u8 list \<Rightarrow> daemon \<Rightarrow> daemon" where
  "after_packet l fd body d =
     d\<lparr>secure_node := (secure_node d)\<lparr>node_limiter := Some (charged l (of_int (steady d 0)))\<rparr>,
       steady := (\<lambda>n. steady d (n + 2)),
       telemetry_queue := snd (ring_push (packet_event l d fd body) (telemetry_queue d))\<rparr>"

lemma event_cases:
  "allowed_event now fd body = expected_event True now fd body"
  "dropped_event now fd = expected_event False now fd body"
  by (simp_all add: allowed_event_def dropped_event_def expected_event_def)

lemma after_packet_effect:
  assumes "ring_ok (telemetry_queue d)"
  shows "packet_effect l fd body ctx d
    ((after_packet l fd body d)\<lparr>active_connections := (active_connections d)(fd \<mapsto> ctx\<lparr>ctx_parser := http_new\<rparr>)\<rparr>)"
proof -
  let ?q = "telemetry_queue d" and ?e = "packet_event l d fd body"
  have e: "expected_event (admits l (of_int (steady d 0))) (of_int (steady d 1)) fd body = ?e"
    by (simp add: packet_event_def verdict_def)
  have "ring_ok (snd (ring_push ?e ?q)) \<and> length (buffer (snd (ring_push ?e ?q))) = length (buffer ?q) \<and>
    ring_items (snd (ring_push ?e ?q)) =
      (if length (ring_items ?q) < length (buffer ?q) then ring_items ?q @ [?e] else ring_items ?q)"
    using ring.enq_law [OF assms, of ?e] by auto
  then show ?thesis unfolding packet_effect_def Let_def e by (simp add: after_packet_def)
qed

text \<open>What is published to the telemetry service about it.\<close>

definition packet_published ::
    "('a, 'k) machine \<Rightarrow> rate_limiter \<Rightarrow> int \<Rightarrow> u8 list \<Rightarrow> daemon \<Rightarrow> 'k \<Rightarrow> 'k" where
  "packet_published m l fd body d k =
     publish_metric_event m (telemetry_client d) (packet_event l d fd body)
       (if verdict l d then double_of_u64 (of_nat (length body * 8)) else Finite 0) k"

lemma handle_wellformed:
  assumes "arena_clear (packet_arena d)" and "node_limiter (secure_node d) = Some l"
    and "deserialize (little_endian m) body = Inr pkt"
  shows "handle_packet m fd body (d, k) = ((after_packet l fd body d)\<lparr>packet_arena :=
      (packet_arena d)\<lparr>current_cursor := arena_start (packet_arena d) + 1506\<rparr>\<rparr>, packet_published m l fd body d k)"
proof -
  have clk: "clock_rest (clock_rest (steady d)) = (\<lambda>n. steady d (n + 2))"
    by (simp add: clock_rest_def)
  show ?thesis
    using allocate_clear [OF assms(1)] assms(2,3) clk event_cases(2) [of _ _ body]
    by (auto simp: handle_packet_def Let_def receive_packet_def gcra_allow_atomic gcra_atomic_spec after_packet_def
        packet_event_def packet_published_def verdict_def clock_now_def case_prod_beta event_cases(1))
      (auto simp: clock_rest_def)
qed

lemma handle_malformed:
  assumes "arena_clear (packet_arena d)" and "deserialize (little_endian m) body = Inl e"
  shows "handle_packet m fd body (d, k) =
    (d\<lparr>packet_arena := (packet_arena d)\<lparr>current_cursor := arena_start (packet_arena d) + 1506\<rparr>\<rparr>, k)"
  using allocate_clear [OF assms(1)] assms(2) by (simp add: handle_packet_def)

lemma arena_cleared: "arena_clear a \<Longrightarrow> arena_reset (a\<lparr>current_cursor := n\<rparr>) = a"
  by (simp add: arena_clear_def arena_reset_def)

lemma served:
  assumes "active_connections d fd = Some ctx" and "context_ok loop fd ctx"
    and "arena_clear (packet_arena d)" and "node_limiter (secure_node d) = Some l"
    and "sys_recv (sockets m) fd 2048 k = (Inr bytes, k1)" and "bytes \<noteq> []"
    and "parse_chunk (allocator m) bytes (ctx_parser ctx) = Inr (True, sim)"
  shows "on_client m fd (loop, k, d) =
    (case deserialize (little_endian m) (req_body (request sim)) of
      Inl _ \<Rightarrow> (Inr (), loop, k1,
        d\<lparr>active_connections := (active_connections d)(fd \<mapsto> ctx\<lparr>ctx_parser := http_new\<rparr>)\<rparr>)
    | Inr _ \<Rightarrow> (Inr (), loop, packet_published m l fd (req_body (request sim)) d k1,
        (after_packet l fd (req_body (request sim)) d)
          \<lparr>active_connections := (active_connections d)(fd \<mapsto> ctx\<lparr>ctx_parser := http_new\<rparr>)\<rparr>))"
proof (cases "deserialize (little_endian m) (req_body (request sim))")
  case (Inl e)
  then show ?thesis
    using on_client_data [OF assms(1,2,5,6)] handle_malformed [OF assms(3) Inl] arena_cleared [OF assms(3)]
    by (simp add: assms(7))
next
  case (Inr pkt)
  have "active_connections (after_packet l fd b d) = active_connections d"
    "packet_arena (after_packet l fd b d) = packet_arena d" for b
    by (simp_all add: after_packet_def)
  moreover have "(after_packet l fd b d)\<lparr>packet_arena := packet_arena d\<rparr> = after_packet l fd b d" for b
    by (simp add: after_packet_def)
  ultimately show ?thesis
    using on_client_data [OF assms(1,2,5,6)] handle_wellformed [OF assms(3,4) Inr] arena_cleared [OF assms(3)]
    by (simp add: assms(7) Inr)
qed


section \<open>Fragmented requests\<close>

text \<open>A kernel from which the chunks \<open>cs\<close> are received one after the other.\<close>

fun recv_chain :: "'k os \<Rightarrow> int \<Rightarrow> u8 list list \<Rightarrow> 'k \<Rightarrow> bool" where
  "recv_chain os fd [] k = True"
| "recv_chain os fd (c # cs) k =
     (c \<noteq> [] \<and> fst (sys_recv os fd 2048 k) = Inr c \<and> recv_chain os fd cs (snd (sys_recv os fd 2048 k)))"

text \<open>The callback for \<open>n\<close> events on one descriptor.\<close>

fun on_client_times ::
    "nat \<Rightarrow> ('a, 'k) machine \<Rightarrow> int \<Rightarrow> 'k daemon_world \<Rightarrow> (fault + unit) \<times> 'k daemon_world" where
  "on_client_times 0 m fd w = (Inr (), w)"
| "on_client_times (Suc n) m fd w =
     (case on_client m fd w of
        (Inl e, w) \<Rightarrow> (Inl e, w)
      | (Inr _, w) \<Rightarrow> on_client_times n m fd w)"

lemma chunks_served:
  assumes "arena_clear (packet_arena d)" and "node_limiter (secure_node d) = Some l"
    and "http_feed (allocator m) (concat cs) (ctx_parser ctx) = Inr sim" and "hstate sim = Complete"
    and "deserialize (little_endian m) (req_body (request sim)) = Inr pkt"
    and "active_connections d fd = Some ctx" and "context_ok loop fd ctx" and "cs \<noteq> []"
    and "recv_chain (sockets m) fd cs k"
    and "\<And>p r. concat cs = p @ r \<Longrightarrow> r \<noteq> [] \<Longrightarrow>
      \<exists>s. http_feed (allocator m) p (ctx_parser ctx) = Inr s \<and> hstate s \<noteq> Complete"
  shows "\<exists>k'. on_client_times (length cs) m fd (loop, k, d) = (Inr (), loop, k',
    (after_packet l fd (req_body (request sim)) d)
      \<lparr>active_connections := (active_connections d)(fd \<mapsto> ctx\<lparr>ctx_parser := http_new\<rparr>)\<rparr>)"
  using assms
proof (induction cs arbitrary: k d ctx)
  case (Cons c cs)
  let ?alloc = "allocator m"
  obtain k1 where recv: "sys_recv (sockets m) fd 2048 k = (Inr c, k1)" and c: "c \<noteq> []"
    using Cons.prems(9) by (metis prod.collapse recv_chain.simps(2))
  show ?case
  proof (cases "cs = []")
    case True
    then have "parse_chunk ?alloc c (ctx_parser ctx) = Inr (True, sim)"
      using Cons.prems(3,4) by (simp add: parse_chunk_def)
    from served [OF Cons.prems(6,7,1,2) recv c this]
    obtain k' where "on_client m fd (loop, k, d) = (Inr (), loop, k',
        (after_packet l fd (req_body (request sim)) d)
          \<lparr>active_connections := (active_connections d)(fd \<mapsto> ctx\<lparr>ctx_parser := http_new\<rparr>)\<rparr>)"
      using Cons.prems(5) by (simp add: fun_upd_def)
    then show ?thesis using True by (simp add: fun_upd_def)
  next
    case False
    have chain: "recv_chain (sockets m) fd cs k1" using Cons.prems(9) recv by simp
    have "concat cs \<noteq> []" using False chain by (cases cs) auto
    then obtain s where s: "http_feed ?alloc c (ctx_parser ctx) = Inr s" "hstate s \<noteq> Complete"
      using Cons.prems(10) [of c "concat cs"] by auto
    let ?ctx = "ctx\<lparr>ctx_parser := s\<rparr>"
    let ?d = "d\<lparr>active_connections := (active_connections d)(fd \<mapsto> ?ctx)\<rparr>"
    have 1: "on_client m fd (loop, k, d) = (Inr (), loop, k1, ?d)"
      using on_client_data [OF Cons.prems(6,7) recv c] s by (simp add: parse_chunk_def)
    have ok: "context_ok loop fd ?ctx"
      using Cons.prems(7) s http_inv_feed [OF _ s(1)] by (simp add: context_ok_def)
    have feed: "http_feed ?alloc (concat cs) s = Inr sim"
      using Cons.prems(3) s(1) by (simp add: http_feed_append)
    have open_end: "\<exists>s'. http_feed ?alloc p s = Inr s' \<and> hstate s' \<noteq> Complete"
      if "concat cs = p @ r" "r \<noteq> []" for p r
      using Cons.prems(10) [of "c @ p" r] that s(1) by (simp add: http_feed_append)
    have "\<exists>k'. on_client_times (length cs) m fd (loop, k1, ?d) = (Inr (), loop, k',
        (after_packet l fd (req_body (request sim)) ?d)
          \<lparr>active_connections := (active_connections ?d)(fd \<mapsto> ?ctx\<lparr>ctx_parser := http_new\<rparr>)\<rparr>)"
      using Cons.prems(1,2,4,5) feed ok False chain open_end by (intro Cons.IH) simp_all
    moreover have "(after_packet l fd (req_body (request sim)) ?d)
          \<lparr>active_connections := (active_connections ?d)(fd \<mapsto> ?ctx\<lparr>ctx_parser := http_new\<rparr>)\<rparr> =
        (after_packet l fd (req_body (request sim)) d)
          \<lparr>active_connections := (active_connections d)(fd \<mapsto> ctx\<lparr>ctx_parser := http_new\<rparr>)\<rparr>"
      by (simp add: after_packet_def packet_event_def verdict_def)
    moreover have "on_client_times (length (c # cs)) m fd (loop, k, d) = on_client_times (length cs) m fd (loop, k1, ?d)"
      by (simp add: 1)
    ultimately show ?thesis by (simp only:)
  qed
qed simp

text \<open>C2 End to end: a client on a fresh connection that sends a packet, serialised on a host of either byte order
  and wrapped into a request, in any chunks that the kernel delivers, causes exactly one event: after as many
  callbacks as there are chunks the limiter has taken one decision, by its theoretical arrival time at the next reading
  of the clock, and is charged if it admitted the packet; the queue, unless it was full, has one event more, with the
  packet's size on the wire, or size 0 and marked dropped when the limiter refused it; the parser is fresh
  again, and the rest of the daemon is as before.\<close>

theorem fragmented_packet_served:
  assumes "arena_clear (packet_arena d)" and "node_limiter (secure_node d) = Some l"
    and "active_connections d fd = Some ctx" and "context_ok loop fd ctx" and "ctx_parser ctx = http_new"
    and "canonical p" and "serialize le p = Inr wire" and "allocator m (length wire)"
    and "CHR '' '' \<notin> set meth" and "CHR '' '' \<notin> set u" and "CHR 0x0D \<notin> set v" and "CHR 0x0A \<notin> set v"
    and "list_all header_ok hs" and "list_all header_ok hs'"
    and "concat cs = map byte_of_char (request_head meth u v hs (length wire) hs') @ wire"
    and "recv_chain (sockets m) fd cs k" and "ring_ok (telemetry_queue d)"
  shows "\<exists>k' d'. on_client_times (length cs) m fd (loop, k, d) = (Inr (), loop, k', d') \<and>
    packet_effect l fd wire ctx d d'"
proof -
  obtain bytes where "serialize le p = Inr bytes" "deserialize (little_endian m) bytes = Inr p"
    using serialize_deserialize [OF assms(6)] by blast
  then have de: "deserialize (little_endian m) wire = Inr p" using assms(7) by simp
  have ne: "wire \<noteq> []" using de by (auto simp: deserialize_def sizeof_header_def)
  have len: "length wire < 2 ^ 63"
  proof -
    have "unat (plength (header p)) \<le> length (payload p)" "length (packet_data p) \<le> MTU"
      using assms(6) by (simp_all add: canonical_def packet_data_def)
    then have "length wire \<le> 1506" using assms(7) serialize_wire by (auto simp: MTU_def)
    then show ?thesis by (rule le_less_trans) simp
  qed
  have hs: "\<forall>h \<in> set hs. header_ok h" "\<forall>h \<in> set hs'. header_ok h"
    using assms(13,14) by (simp_all add: list_all_iff)
  let ?bytes = "map byte_of_char (request_head meth u v hs (length wire) hs') @ wire"
  obtain sim where "parse_chunk (allocator m) ?bytes http_new = Inr (True, sim)" "req_body (request sim) = wire"
    using parse_request [where body = wire and alloc = "allocator m", OF assms(9-12) hs len assms(8)] by auto
  then have sim: "http_feed (allocator m) (concat cs) (ctx_parser ctx) = Inr sim" "hstate sim = Complete"
    "req_body (request sim) = wire"
    unfolding assms(5,15) parse_chunk_def by (auto split: sum.splits)
  have open_end: "\<exists>s. http_feed (allocator m) q (ctx_parser ctx) = Inr s \<and> hstate s \<noteq> Complete"
    if "concat cs = q @ r" "r \<noteq> []" for q r
    using request_incomplete [where body = wire and alloc = "allocator m", OF assms(9-12) hs len assms(8) _ that(2) ne]
      that(1) unfolding assms(5,15) by blast
  have "cs \<noteq> []" using assms(15) ne by auto
  then have "\<exists>k'. on_client_times (length cs) m fd (loop, k, d) = (Inr (), loop, k',
      (after_packet l fd (req_body (request sim)) d)
        \<lparr>active_connections := (active_connections d)(fd \<mapsto> ctx\<lparr>ctx_parser := http_new\<rparr>)\<rparr>)"
    by (intro chunks_served [where pkt = p])
      (use assms(1-4,16) sim(1,2) open_end de in \<open>simp_all add: sim(3)\<close>)
  then show ?thesis using after_packet_effect [OF assms(17)] unfolding sim(3) by blast
qed

section \<open>What ends the daemon\<close>

lemma on_client_fault:
  assumes "active_connections d fd = Some ctx" and "context_ok loop fd ctx"
  shows "(\<exists>w'. on_client m fd (loop, k, d) = (Inl f, w')) \<longleftrightarrow>
    (\<exists>e k1. sys_recv (sockets m) fd 2048 k = (Inl e, k1) \<and> e \<noteq> EAGAIN \<and>
       f = NetFault (SystemError e ''Receive failed'')) \<or>
    (\<exists>bytes k1 e. sys_recv (sockets m) fd 2048 k = (Inr bytes, k1) \<and> bytes \<noteq> [] \<and>
       parse_chunk (allocator m) bytes (ctx_parser ctx) = Inl e \<and> f = ParserFault e)"
proof -
  obtain r k1 where 1: "sys_recv (sockets m) fd 2048 k = (r, k1)" by fastforce
  show ?thesis
  proof (cases r)
    case (Inl e)
    then show ?thesis
      using assms 1
      by (cases e) (auto simp: on_client_def receive_data_cases context_ok_def Let_def)
  next
    case (Inr bytes)
    show ?thesis
    proof (cases "bytes = []")
      case True
      then show ?thesis using assms 1 Inr
        by (simp add: on_client_def receive_data_cases context_ok_def Let_def)
    next
      case False
      show ?thesis
        using on_client_data [OF assms 1 [unfolded Inr] False] False
        by (cases "parse_chunk (allocator m) bytes (ctx_parser ctx)")
          (auto simp: 1 Inr Let_def case_prod_beta split: bool.splits)
    qed
  qed
qed

text \<open>C21 What a client can do to the whole daemon: its callback throws, which ends the daemon with all
  connections, exactly when \<open>recv\<close> fails with an error other than \<open>EAGAIN\<close>, such as a reset by the client, or
  when an exception leaves the parser. Malformed packets and requests, and disconnects, do not.\<close>

theorem client_fault_iff:
  assumes "active_connections d fd = Some ctx" and "context_ok loop fd ctx"
  shows "(\<exists>w'. on_client m fd (loop, k, d) = (Inl f, w')) \<longleftrightarrow>
    (\<exists>e k1. sys_recv (sockets m) fd 2048 k = (Inl e, k1) \<and> e \<noteq> EAGAIN \<and>
       f = NetFault (SystemError e ''Receive failed'')) \<or>
    (\<exists>bytes k1 e. sys_recv (sockets m) fd 2048 k = (Inr bytes, k1) \<and> bytes \<noteq> [] \<and>
       parse_chunk (allocator m) bytes (ctx_parser ctx) = Inl e \<and> f = ParserFault e)"
  by (rule on_client_fault [OF assms])

text \<open>One request with the header \<open>Content-Length: -1\<close> on a fresh connection ends the daemon, whatever its
  method, path and other headers are.\<close>

theorem one_request_ends_daemon:
  assumes "active_connections d fd = Some ctx" and "context_ok loop fd ctx" and "ctx_parser ctx = http_new"
    and "CHR '' '' \<notin> set meth" and "CHR '' '' \<notin> set u" and "CHR 0x0D \<notin> set v" and "CHR 0x0A \<notin> set v"
    and "list_all header_ok hs"
    and "sys_recv (sockets m) fd 2048 k = (Inr (map byte_of_char (meth @ '' '' @ u @ '' '' @ v @ CRLF @
      concat (map render_header hs) @ ''Content-Length: -1'' @ CRLF @ CRLF)), k1)"
  shows "on_client m fd (loop, k, d) = (Inl (ParserFault LengthError), loop, k1, d)"
proof -
  have hs: "\<forall>h \<in> set hs. header_ok h" using assms(8) by (simp add: list_all_iff)
  show ?thesis
    by (subst on_client_data [OF assms(1,2,9)])
      (simp_all only: assms(3) parse_negative_length [OF assms(4-7) hs] sum.case, simp)
qed

text \<open>After a malformed request a connection is dead: no parser state but \<open>Error\<close> follows, the daemon never resets it,
  so everything that the client sends later, correct requests included, is received and dropped without
  an event, until the client disconnects.\<close>

theorem malformed_connection_ignored:
  assumes "active_connections d fd = Some ctx" and "context_ok loop fd ctx" and "hstate (ctx_parser ctx) = Error"
    and "recv_chain (sockets m) fd cs k"
  shows "\<exists>k'. on_client_times (length cs) m fd (loop, k, d) = (Inr (), loop, k', d)"
  using assms
proof (induction cs arbitrary: k)
  case (Cons c cs)
  obtain k1 where recv: "sys_recv (sockets m) fd 2048 k = (Inr c, k1)" "c \<noteq> []"
    using Cons.prems(4) by (metis prod.collapse recv_chain.simps(2))
  have "parse_chunk (allocator m) c (ctx_parser ctx) = Inr (False, ctx_parser ctx)"
    using Cons.prems(3) by (simp add: parse_chunk_def feed_absorbed)
  moreover have "d\<lparr>active_connections := (active_connections d)(fd \<mapsto> ctx)\<rparr> = d"
    using Cons.prems(1) by (simp add: fun_upd_idem)
  ultimately have "on_client m fd (loop, k, d) = (Inr (), loop, k1, d)"
    using on_client_data [OF Cons.prems(1,2) recv] by simp
  then show ?case using Cons.IH [OF Cons.prems(1-3)] Cons.prems(4) recv by simp
qed simp

text \<open>The kernel's interest set under the calls of the sockets: closing a descriptor removes it.\<close>

definition interest_spec :: "'k os \<Rightarrow> ('k \<Rightarrow> int set) \<Rightarrow> bool" where
  "interest_spec os interest \<longleftrightarrow>
     (\<forall>s k. interest (snd (sys_accept os s k)) = interest k) \<and>
     (\<forall>fd k. interest (snd (sys_getfl os fd k)) = interest k) \<and>
     (\<forall>fd f k. interest (snd (sys_setfl os fd f k)) = interest k) \<and>
     (\<forall>fd n k. interest (snd (sys_recv os fd n k)) = interest k) \<and>
     (\<forall>fd k. interest (sys_close os fd k) = interest k - {fd})"

lemma accept_interest:
  assumes "interest_spec os interest" and "accept_connection os srv k = (Inr (Some conn), k')"
  shows "interest k' = interest k"
proof -
  have *: "sys_accept os s k = (r, k1) \<Longrightarrow> interest k1 = interest k"
    "sys_getfl os fd k = (f, k2) \<Longrightarrow> interest k2 = interest k"
    "sys_setfl os fd g k = (e, k3) \<Longrightarrow> interest k3 = interest k" for s r k k1 fd f k2 g e k3
    using assms(1) unfolding interest_spec_def by (metis snd_conv)+
  show ?thesis
    using assms(2)
    by (auto simp: accept_connection_def connection_new_def set_nonblocking_def Let_def
        split: prod.splits sum.splits option.splits if_splits dest!: *)
qed

text \<open>C38 The daemon does not survive its second client: when a client disconnects, its entry stays in the table of
  callbacks while the kernel drops the closed descriptor from its interest set; as soon as a
  later client is accepted under the same number, the accepting callback throws, because the loop tries to modify
  a registration that does not exist.\<close>

theorem reconnect_ends_daemon:
  assumes "epoll_spec (epoll m) interest" and "interest_spec (sockets m) interest"
    and "active_connections d fd = Some ctx" and "context_ok loop fd ctx"
    and "sys_recv (sockets m) fd 2048 k = (Inr [], k1)"
    and "on_client m fd (loop, k, d) = (r, loop', k', d')"
    and "interest k2 \<subseteq> interest k'"
    and "accept_connection (sockets m) (main_server d') k2 = (Inr (Some conn), k3)" and "conn_socket conn = fd"
  shows "r = Inr () \<and> active_connections d' fd = None \<and>
    fst (on_accept (Suc fuel) m (loop', k2, d')) =
      Inl (NetFault (SystemError ENOENT ''Failed to execute epoll_ctl''))"
proof -
  have sock: "conn_socket (ctx_connection ctx) = fd" "is_valid fd" "callbacks loop fd = Some OnClient"
    using assms(4) by (simp_all add: context_ok_def)
  then have "on_client m fd (loop, k, d) = (Inr (), loop, sys_close (sockets m) fd k1,
      d\<lparr>active_connections := (active_connections d)(fd := None)\<rparr>)"
    using assms(3,5) by (simp add: on_client_def receive_data_cases close_socket_def is_valid_def)
  then have r: "r = Inr ()" "loop' = loop" "k' = sys_close (sockets m) fd k1" "active_connections d' fd = None"
    using assms(6) by auto
  have "fd \<notin> interest k'" using assms(2) unfolding r(3) interest_spec_def by blast
  then have "fd \<notin> interest k3"
    using accept_interest [OF assms(2,8)] assms(7) by blast
  moreover have "fd \<in> dom (callbacks loop')" using sock(3) r(2) by blast
  ultimately have "fst (register_event (epoll m) fd (ucast EPOLLIN) (Some OnClient) loop' k3) =
      Inl (SystemError ENOENT ''Failed to execute epoll_ctl'')"
    by (intro register_stale [OF assms(1)])
  then obtain l k4 where "register_event (epoll m) fd (ucast EPOLLIN) (Some OnClient) loop' k3 =
      (Inl (SystemError ENOENT ''Failed to execute epoll_ctl''), l, k4)"
    by (metis fst_conv surj_pair)
  then have "fst (on_accept (Suc fuel) m (loop', k2, d')) =
      Inl (NetFault (SystemError ENOENT ''Failed to execute epoll_ctl''))"
    using assms(8,9) r(4) by (simp add: on_accept.simps replace_context_def Let_def)
  with r show ?thesis by blast
qed

section \<open>Accepting\<close>

text \<open>A kernel whose backlog of connections is finite: every successful \<open>accept\<close> takes one, and the calls of the
  callback add none.\<close>

definition backlog_spec :: "('a, 'k) machine \<Rightarrow> ('k \<Rightarrow> nat) \<Rightarrow> bool" where
  "backlog_spec m backlog \<longleftrightarrow>
     (\<forall>s k. case sys_accept (sockets m) s k of
        (Inl _, k') \<Rightarrow> backlog k' \<le> backlog k
      | (Inr _, k') \<Rightarrow> backlog k' < backlog k) \<and>
     (\<forall>fd k. backlog (snd (sys_getfl (sockets m) fd k)) \<le> backlog k) \<and>
     (\<forall>fd f k. backlog (snd (sys_setfl (sockets m) fd f k)) \<le> backlog k) \<and>
     (\<forall>fd k. backlog (sys_close (sockets m) fd k) \<le> backlog k) \<and>
     (\<forall>op fd ev k. backlog (snd (sys_epoll_ctl (epoll m) op fd ev k)) \<le> backlog k)"

lemma backlog_steps:
  assumes "backlog_spec m backlog"
  shows "sys_accept (sockets m) s k = (Inr x, k') \<Longrightarrow> backlog k' < backlog k"
    and "sys_getfl (sockets m) fd k = (f, k') \<Longrightarrow> backlog k' \<le> backlog k"
    and "sys_setfl (sockets m) fd g k = (e, k') \<Longrightarrow> backlog k' \<le> backlog k"
    and "backlog (sys_close (sockets m) fd k) \<le> backlog k"
    and "sys_epoll_ctl (epoll m) op fd ev k = (e, k') \<Longrightarrow> backlog k' \<le> backlog k"
proof -
  have "case sys_accept (sockets m) s k of
        (Inl _, k') \<Rightarrow> backlog k' \<le> backlog k
      | (Inr _, k') \<Rightarrow> backlog k' < backlog k"
    using assms by (simp only: backlog_spec_def)
  then show "sys_accept (sockets m) s k = (Inr x, k') \<Longrightarrow> backlog k' < backlog k" by simp
qed (use assms in \<open>unfold backlog_spec_def, metis snd_conv\<close>)+

lemma accept_backlog:
  assumes "backlog_spec m backlog" and "accept_connection (sockets m) srv k = (Inr (Some conn), k')"
  shows "backlog k' < backlog k"
proof -
  obtain fd k1 where 1: "sys_accept (sockets m) (server_socket srv) k = (Inr fd, k1)"
    using assms(2) by (auto simp: accept_connection_def split: prod.splits sum.splits if_splits)
  have new: "connection_new (sockets m) fd k1 = (Inr conn, k')"
    using assms(2) by (auto simp: accept_connection_def 1 split: prod.splits sum.splits)
  have "backlog k' \<le> backlog k1"
  proof (cases "is_valid fd")
    case True
    obtain f k2 where 2: "sys_getfl (sockets m) fd k1 = (f, k2)" by fastforce
    obtain flags where f: "f = Inr flags"
      using new True by (cases f) (auto simp: connection_new_def set_nonblocking_def 2)
    obtain e k3 where 3: "sys_setfl (sockets m) fd (flags OR O_NONBLOCK) k2 = (e, k3)" by fastforce
    have "k' = k3"
      using new True by (cases e) (auto simp: connection_new_def set_nonblocking_def 2 f 3)
    with backlog_steps(2) [OF assms(1) 2] backlog_steps(3) [OF assms(1) 3] show ?thesis by simp
  next
    case False
    then show ?thesis using new by (simp add: connection_new_def)
  qed
  with backlog_steps(1) [OF assms(1) 1] show ?thesis by simp
qed

text \<open>C29 The accepting callback returns: with more fuel than there are pending connections the loop ends, in all
  states of the daemon, by the empty backlog or by a fault.\<close>

theorem on_accept_terminates:
  assumes "backlog_spec m backlog" and "backlog k < fuel"
  shows "fst (on_accept fuel m (loop, k, d)) \<noteq> Inl OutOfFuel"
  using assms(2)
proof (induction fuel arbitrary: loop k d)
  case (Suc fuel)
  obtain r k1 where 1: "accept_connection (sockets m) (main_server d) k = (r, k1)" by fastforce
  show ?case
  proof (cases "\<exists>conn. r = Inr (Some conn)")
    case False
    then show ?thesis by (auto simp: on_accept.simps 1 split: sum.splits option.splits)
  next
    case True
    then obtain conn where r: "r = Inr (Some conn)" by blast
    let ?fd = "conn_socket conn"
    obtain d2 k2 where 2: "replace_context (sockets m) ?fd \<lparr>ctx_connection = conn, ctx_parser = http_new\<rparr> (d, k1) = (d2, k2)"
      by fastforce
    have "backlog k2 \<le> backlog k1"
      using 2 backlog_steps(4) [OF assms(1)]
      by (auto simp: replace_context_def Let_def close_socket_def split: option.splits)
    obtain q loop3 k3 where 3: "register_event (epoll m) ?fd (ucast EPOLLIN) (Some OnClient) loop k2 = (q, loop3, k3)"
      by (cases "register_event (epoll m) ?fd (ucast EPOLLIN) (Some OnClient) loop k2")
    have "backlog k3 \<le> backlog k2"
      using 3 by (auto simp: register_event_def Let_def split: prod.splits option.splits
          dest!: backlog_steps(5) [OF assms(1)])
    then have "backlog k3 < fuel"
      using \<open>backlog k2 \<le> backlog k1\<close> accept_backlog [OF assms(1) 1 [unfolded r]] Suc.prems by linarith
    then show ?thesis using Suc.IH by (cases q) (simp_all add: on_accept.simps 1 r 2 3 Let_def)
  qed
qed simp

end
