(* ===== verification/DaemonRuns.thy ===== *)
theory DaemonRuns
  imports DaemonService "HOL-Library.AList"
begin

text \<open>
  A simulated kernel on which the daemon runs: descriptors, the interest set, pending connections, the chunks
  that clients still send, and clients that arrive with later polls. It meets all specifications of the system
  calls, so that the theorems about the daemon apply to its runs; the service for telemetry is down.
\<close>

section \<open>The kernel\<close>

record sim_kernel =
  open_fds :: "int list"
  watched :: "int list"
  pending :: "u8 list list list"
  inbox :: "(int \<times> u8 list list) list"
  arrivals :: "u8 list list list list"

definition new_fd :: "sim_kernel \<Rightarrow> (errno + int) \<times> sim_kernel" where
  "new_fd k = (let fd = fresh_fd (open_fds k) in (Inr fd, k\<lparr>open_fds := fd # open_fds k\<rparr>))"

definition sim_os :: "sim_kernel os" where
  "sim_os =
     \<lparr>sys_socket = new_fd,
      sys_close = (\<lambda>fd k. k\<lparr>open_fds := removeAll fd (open_fds k), watched := removeAll fd (watched k),
        inbox := filter (\<lambda>(f, _). f \<noteq> fd) (inbox k)\<rparr>),
      sys_getfl = (\<lambda>fd k. (Inr 2, k)),
      sys_setfl = (\<lambda>fd flags k. (None, k)),
      sys_reuseaddr = (\<lambda>fd k. (None, k)),
      sys_connect = (\<lambda>fd a p k. (Some (Errno 111), k)),
      sys_bind = (\<lambda>fd p k. (None, k)),
      sys_listen = (\<lambda>fd n k. (None, k)),
      sys_accept = (\<lambda>s k.
        case pending k of
          [] \<Rightarrow> (Inl EAGAIN, k)
        | c # cs \<Rightarrow>
            (let fd = fresh_fd (open_fds k)
             in (Inr fd, k\<lparr>open_fds := fd # open_fds k, pending := cs, inbox := (fd, c) # inbox k\<rparr>))),
      sys_send = (\<lambda>fd bytes k. (Inr (length bytes), k)),
      sys_recv = (\<lambda>fd n k.
        case map_of (inbox k) fd of
          None \<Rightarrow> (Inl EAGAIN, k)
        | Some [] \<Rightarrow> (Inr [], k)
        | Some (c # cs) \<Rightarrow> (Inr (take n c), k\<lparr>inbox := AList.update fd cs (inbox k)\<rparr>)),
      inet_pton = (\<lambda>s. None)\<rparr>"

definition sim_epoll :: "sim_kernel epoll_os" where
  "sim_epoll =
     \<lparr>sys_epoll_create = new_fd,
      sys_epoll_ctl = (\<lambda>op fd ev k.
        case op of
          EPOLL_CTL_ADD \<Rightarrow> if fd \<in> set (watched k) then (Some EEXIST, k) else (None, k\<lparr>watched := fd # watched k\<rparr>)
        | EPOLL_CTL_MOD \<Rightarrow> if fd \<in> set (watched k) then (None, k) else (Some ENOENT, k)
        | EPOLL_CTL_DEL \<Rightarrow>
            if fd \<in> set (watched k) then (None, k\<lparr>watched := removeAll fd (watched k)\<rparr>) else (Some ENOENT, k)),
      sys_epoll_wait = (\<lambda>n t k.
        let k = (case arrivals k of [] \<Rightarrow> k | a # as \<Rightarrow> k\<lparr>pending := pending k @ a, arrivals := as\<rparr>);
            ready = filter (\<lambda>fd. (fd = 3 \<and> pending k \<noteq> []) \<or> map_of (inbox k) fd \<noteq> None) (watched k)
        in (Inr (map (\<lambda>fd. (fd, EPOLLIN)) (take n ready)), k))\<rparr>"

definition sim_net :: "(unit, sim_kernel) net_os" where
  "sim_net =
     \<lparr>sys_getaddrinfo = (\<lambda>h p k. (None, k)),
      sys_socket_for = (\<lambda>rp. new_fd),
      sys_connect_to = (\<lambda>fd rp k. (Some (Errno 111), k))\<rparr>"

definition sim_machine :: "(unit, sim_kernel) machine" where
  "sim_machine =
     \<lparr>sockets = sim_os, epoll = sim_epoll, network = sim_net, little_endian = True, allocator = (\<lambda>_. True)\<rparr>"

lemma sim_descriptors: "descriptors_spec sim_os (set \<circ> open_fds)"
  using fresh_fd
  by (auto simp: descriptors_spec_def sim_os_def new_fd_def Let_def split: list.split option.split)

lemma sim_machine_spec: "machine_spec sim_machine (set \<circ> open_fds)"
  using fresh_fd sim_descriptors
  by (auto simp: machine_spec_def net_spec_def epoll_fds_spec_def sim_machine_def sim_epoll_def sim_net_def
      sim_os_def new_fd_def Let_def split: epoll_op.split list.split)

lemma sim_epoll_spec: "epoll_spec sim_epoll (set \<circ> watched)"
  by (auto simp: epoll_spec_def sim_epoll_def split: epoll_op.split)

lemma sim_interest: "interest_spec sim_os (set \<circ> watched)"
  by (auto simp: interest_spec_def sim_os_def Let_def split: list.split option.split)

lemma sim_backlog: "backlog_spec sim_machine (length \<circ> pending)"
  by (auto simp: backlog_spec_def sim_machine_def sim_os_def sim_epoll_def Let_def split: list.split epoll_op.split)

section \<open>A running daemon\<close>

definition blank_event :: metric_event where
  "blank_event =
     \<lparr>timestamp_us = 0, source_node = [], dest_node = [], packet_size = 0, latency_ns = 0, dropped = False\<rparr>"

definition sim_kernel_at :: "int list \<Rightarrow> int list \<Rightarrow> (int \<times> u8 list list) list \<Rightarrow> u8 list list list list \<Rightarrow> sim_kernel" where
  "sim_kernel_at fds ws ib ar = \<lparr>open_fds = fds, watched = ws, pending = [], inbox = ib, arrivals = ar\<rparr>"

definition sim_daemon :: daemon where
  "sim_daemon =
     \<lparr>main_server = \<lparr>port = 9090, server_socket = 3\<rparr>, active_connections = Map.empty,
      telemetry_queue = ring_new (replicate 1024 blank_event), telemetry_monitor = (monitor_new\<lparr>running := True\<rparr>, 0),
      telemetry_client = Some \<lparr>endpoint_url = ''http://127.0.0.1:8000/telemetry/stream'',
        client_endpoint = \<lparr>host = ''127.0.0.1'', port_name = ''8000'', path = ''/telemetry/stream''\<rparr>\<rparr>,
      packet_arena = arena_new 64 20480,
      secure_node = (node_new 1 ''SecureHost'' (IPv4Address 0x7F000001) (SubnetMask (prefix_mask 24))
        ''00:BB:00:11:11:11'')\<lparr>node_limiter :=
          Some \<lparr>emission_interval_ns = 200000000, tolerance_ns = 400000000, tat_ns = 0\<rparr>\<rparr>,
      steady = (\<lambda>n. 1000 + int n)\<rparr>"

definition sim_loop :: "callback event_loop" where
  "sim_loop = \<lparr>loop_fd = 4, callbacks = [3 \<mapsto> OnAccept]\<rparr>"

lemma sim_limiter:
  "gcra_new (Finite 5) (Finite 3) = Some \<lparr>emission_interval_ns = 200000000, tolerance_ns = 400000000, tat_ns = 0\<rparr>"
proof -
  obtain l where l: "gcra_new (Finite 5) (Finite 3) = Some l" "unat (emission_interval_ns l) = 200000000"
      "unat (tolerance_ns l) = 400000000" "tat_ns l = 0"
    using host_limiter by blast
  have "emission_interval_ns l = 200000000" "tolerance_ns l = 400000000"
    using l(2,3) by (simp_all add: word_unat_eq_iff)
  then show ?thesis using l(1,4) by simp
qed

lemma default_endpoint: "telemetry_client_new ''http://127.0.0.1:8000/telemetry/stream'' =
    Inr \<lparr>endpoint_url = ''http://127.0.0.1:8000/telemetry/stream'',
      client_endpoint = \<lparr>host = ''127.0.0.1'', port_name = ''8000'', path = ''/telemetry/stream''\<rparr>\<rparr>"
  by (simp add: telemetry_client_new_def parse_endpoint_def find_char_def rfind_char_def)

lemma sim_start:
  "daemon_start sim_machine (\<lambda>_. None) (replicate 1024 blank_event) 64 0 (\<lambda>n. 1000 + int n) (sim_kernel_at [] [] [] ar) =
    (Inr (True, sim_loop, sim_daemon), sim_kernel_at [4, 3] [3] [] ar)"
proof -
  have server: "tcp_server_start sim_os (tcp_server_new 9090) (sim_kernel_at [] [] [] ar) =
      (Inr (), \<lparr>port = 9090, server_socket = 3\<rparr>, sim_kernel_at [3] [] [] ar)"
    by (simp add: tcp_server_start_def tcp_server_new_def sim_os_def new_fd_def fresh_fd_def move_assign_def
        close_socket_def set_nonblocking_def sim_kernel_at_def)
  have loop: "event_loop_new sim_epoll (sim_kernel_at [3] [] [] ar) =
      (Inr \<lparr>loop_fd = 4, callbacks = Map.empty\<rparr>, sim_kernel_at [4, 3] [] [] ar)"
    by (simp add: event_loop_new_def sim_epoll_def new_fd_def fresh_fd_def sim_kernel_at_def)
  have reg: "register_event sim_epoll 3 (ucast EPOLLIN) (Some OnAccept)
      \<lparr>loop_fd = 4, callbacks = Map.empty\<rparr> (sim_kernel_at [4, 3] [] [] ar) = (Inr (), sim_loop, sim_kernel_at [4, 3] [3] [] ar)"
    by (simp add: register_event_def sim_epoll_def sim_loop_def sim_kernel_at_def)
  have mask: "mask_of_prefix 24 = Inr (SubnetMask (prefix_mask 24))"
    using mask_of_prefix_nat [of 24] by simp
  have mon: "snd (monitor_start monitor_new) = monitor_new\<lparr>running := True\<rparr>"
    by (simp add: monitor_start_def monitor_new_def)
  show ?thesis
    by (simp add: daemon_start_def sim_machine_def server loop reg mask mon host_address default_endpoint
        enable_rate_limiting_def sim_limiter sim_daemon_def env_flag_enabled_def Let_def)
qed

lemma daemon_start_cases_witness:
  "started (set \<circ> open_fds) sim_loop (sim_kernel_at [4, 3] [3] [] []) sim_daemon"
proof -
  have len: "length (replicate 1024 blank_event) = 1024" by simp
  have "listen_calls (sockets sim_machine) (sim_kernel_at [] [] [] []) = (Inr 3, sim_kernel_at [3] [] [] [])"
    by (simp add: listen_calls_def sim_machine_def sim_os_def new_fd_def fresh_fd_def nonblock_call_def sim_kernel_at_def)
  moreover have "loop_calls (epoll sim_machine) 3 (sim_kernel_at [3] [] [] []) = None"
    by (simp add: loop_calls_def sim_machine_def sim_epoll_def new_fd_def fresh_fd_def sim_kernel_at_def)
  moreover have "take 7 (endpoint_url_of (\<lambda>_. None)) = ''http://''" by (simp add: endpoint_url_of_def)
  ultimately show ?thesis
    using daemon_start_cases [OF len sim_start [of "[]"], where fds = "set \<circ> open_fds"] by simp blast
qed

text \<open>The daemon with one client, whose chunks are \<open>cs\<close>.\<close>

definition sim_context :: client_context where
  "sim_context =
     \<lparr>ctx_connection = \<lparr>conn_socket = 5, remote_ip = [], remote_port = None\<rparr>, ctx_parser = http_new\<rparr>"

definition sim_served :: daemon where
  "sim_served = sim_daemon\<lparr>active_connections := [5 \<mapsto> sim_context]\<rparr>"

definition sim_serving :: "callback event_loop" where
  "sim_serving = \<lparr>loop_fd = 4, callbacks = [3 \<mapsto> OnAccept, 5 \<mapsto> OnClient]\<rparr>"

lemma sim_context_ok: "context_ok sim_serving 5 sim_context"
  by (simp add: context_ok_def sim_context_def sim_serving_def is_valid_def http_inv_new) (simp add: http_new_def)

lemma sim_served_ok:
  "active_connections sim_served 5 = Some sim_context" "arena_clear (packet_arena sim_served)"
  "node_limiter (secure_node sim_served) =
    Some \<lparr>emission_interval_ns = 200000000, tolerance_ns = 400000000, tat_ns = 0\<rparr>"
  by (simp_all add: sim_served_def sim_daemon_def arena_clear_def arena_new_def)

lemma sim_accept:
  "on_accept 2 sim_machine (sim_loop, \<lparr>open_fds = [4, 3], watched = [3], pending = [cs], inbox = [], arrivals = ar\<rparr>, sim_daemon) =
    (Inr (), sim_serving, sim_kernel_at [5, 4, 3] [5, 3] [(5, cs)] ar, sim_served)"
proof -
  have acc: "accept_connection sim_os (main_server sim_daemon)
      \<lparr>open_fds = [4, 3], watched = [3], pending = [cs], inbox = [], arrivals = ar\<rparr> =
      (Inr (Some (ctx_connection sim_context)), \<lparr>open_fds = [5, 4, 3], watched = [3], pending = [], inbox = [(5, cs)], arrivals = ar\<rparr>)"
    by (simp add: accept_connection_def sim_os_def fresh_fd_def connection_new_def set_nonblocking_def is_valid_def
        sim_context_def Let_def)
  have reg: "register_event sim_epoll 5 (ucast EPOLLIN) (Some OnClient) sim_loop
      \<lparr>open_fds = [5, 4, 3], watched = [3], pending = [], inbox = [(5, cs)], arrivals = ar\<rparr> =
      (Inr (), sim_serving, sim_kernel_at [5, 4, 3] [5, 3] [(5, cs)] ar)"
    by (simp add: register_event_def sim_epoll_def sim_loop_def sim_serving_def sim_kernel_at_def)
  have last: "accept_connection sim_os srv (sim_kernel_at [5, 4, 3] [5, 3] [(5, cs)] ar) =
      (Inr None, sim_kernel_at [5, 4, 3] [5, 3] [(5, cs)] ar)" for srv
    by (simp add: accept_connection_def sim_os_def sim_kernel_at_def)
  have repl: "replace_context sim_os 5 sim_context (sim_daemon, k) = (sim_served, k)" for k
    by (simp add: replace_context_def sim_daemon_def sim_served_def)
  have ctx: "conn_socket (ctx_connection sim_context) = 5"
    "\<lparr>ctx_connection = ctx_connection sim_context, ctx_parser = http_new\<rparr> = sim_context"
    by (simp_all add: sim_context_def)
  have "on_accept (Suc (Suc 0)) sim_machine
      (sim_loop, \<lparr>open_fds = [4, 3], watched = [3], pending = [cs], inbox = [], arrivals = ar\<rparr>, sim_daemon) =
    (Inr (), sim_serving, sim_kernel_at [5, 4, 3] [5, 3] [(5, cs)] ar, sim_served)"
    by (simp add: on_accept.simps sim_machine_def acc reg last repl ctx)
  then show ?thesis by (simp only: numeral_2_eq_2)
qed

lemma sim_first_poll:
  "daemon_poll 2 sim_machine (sim_loop, sim_kernel_at [4, 3] [3] [] ([cs] # ar), sim_daemon) =
    (Inr (), sim_serving, sim_kernel_at [5, 4, 3] [5, 3] [(5, cs)] ar, sim_served)"
proof -
  have wait: "sys_epoll_wait sim_epoll 10 500 (sim_kernel_at [4, 3] [3] [] ([cs] # ar)) =
      (Inr [(3, EPOLLIN)], \<lparr>open_fds = [4, 3], watched = [3], pending = [cs], inbox = [], arrivals = ar\<rparr>)"
    by (simp add: sim_epoll_def sim_kernel_at_def)
  have ep: "epoll sim_machine = sim_epoll" by (simp add: sim_machine_def)
  have cb: "callbacks sim_loop 3 = Some OnAccept" by (simp add: sim_loop_def)
  show ?thesis by (simp add: daemon_poll_def poll_once_def ep wait cb sim_accept)
qed

lemma daemon_invariant_witness:
  "(set \<circ> open_fds) (sim_kernel_at [5, 4, 3] [5, 3] [(5, [])] []) =
     (set \<circ> open_fds) (sim_kernel_at [4, 3] [3] [] [[[]]]) \<union> dom (active_connections sim_served)"
proof -
  have len: "length (replicate 1024 blank_event) = 1024" by (simp)
  note reach = daemon_reach_poll [OF daemon_reach.start sim_first_poll]
  show ?thesis using daemon_invariant [OF sim_machine_spec len sim_start reach] by (rule conjunct1)
qed

section \<open>Clients\<close>

definition sim_wire :: "u8 list" where
  "sim_wire = [1, 2, 0, 0, 0, 2, 7, 8]"

definition sim_request :: "u8 list" where
  "sim_request = map byte_of_char (request_head ''POST'' ''/packet'' ''HTTP/1.1'' [] (length sim_wire) []) @ sim_wire"

lemma sim_wire: "serialize True sample_packet = Inr sim_wire"
  using serialize_wire [of sample_packet True] canonical_sample
  by (simp add: sim_wire_def sample_packet_def canonical_def MTU_def packet_data_def be_bytes_def byte_of_def)

lemma sim_request_length: "16 < length sim_request \<and> length sim_request < 2048"
proof -
  have "length (std_to_string 8) = 1" by (subst std_to_string.simps) simp
  moreover have "length sim_wire = 8" by (simp add: sim_wire_def)
  ultimately show ?thesis by (simp add: sim_request_def request_head_def render_header_def)
qed

lemma sim_recv_chain:
  "sys_recv sim_os 5 2048 (sim_kernel_at fds ws [(5, c # cs)] ar) =
    (Inr (take 2048 c), sim_kernel_at fds ws [(5, cs)] ar)"
  "sys_recv sim_os 5 2048 (sim_kernel_at fds ws [(5, [])] ar) = (Inr [], sim_kernel_at fds ws [(5, [])] ar)"
  by (simp_all add: sim_os_def sim_kernel_at_def)

lemma sim_sockets [simp]: "sockets sim_machine = sim_os" "epoll sim_machine = sim_epoll"
  "allocator sim_machine = (\<lambda>_. True)" "little_endian sim_machine = True"
  by (simp_all add: sim_machine_def)

lemma sim_queue: "ring_ok (telemetry_queue sim_served)" "ring_items (telemetry_queue sim_served) = []"
  "length (buffer (telemetry_queue sim_served)) = 1024"
proof -
  have "length (replicate 1024 blank_event) = 1024" by (rule length_replicate)
  then show "length (buffer (telemetry_queue sim_served)) = 1024" "ring_ok (telemetry_queue sim_served)"
    "ring_items (telemetry_queue sim_served) = []"
    by (simp_all add: sim_served_def sim_daemon_def ring_new_def ring_ok_def ring_items_def exI [of _ 10])
qed

text \<open>The event that the first packet of the simulated client leaves.\<close>

definition sim_limiter_new :: rate_limiter where
  "sim_limiter_new = \<lparr>emission_interval_ns = 200000000, tolerance_ns = 400000000, tat_ns = 0\<rparr>"

definition sim_event :: metric_event where
  "sim_event = \<lparr>timestamp_us = 1001, source_node = ''ClientFD_5'', dest_node = ''SecureHost'',
     packet_size = 8, latency_ns = 120, dropped = False\<rparr>"

lemma sim_event: "expected_event (admits sim_limiter_new 1000) 1001 5 sim_wire = sim_event"
  by (simp add: expected_event_def admits_def sim_limiter_new_def sim_event_def sim_wire_def int_to_string_def
      std_to_string.simps digit_char_def char_of_eq_iff)

lemma sim_effect:
  assumes "packet_effect sim_limiter_new 5 sim_wire sim_context sim_served d'"
  shows "ring_items (telemetry_queue d') = [sim_event] \<and>
    node_limiter (secure_node d') = Some (sim_limiter_new\<lparr>tat_ns := 200001000\<rparr>)"
proof -
  have "steady sim_served 0 = 1000" "steady sim_served 1 = 1001"
    by (simp_all add: sim_served_def sim_daemon_def)
  moreover have "(length (ring_items (telemetry_queue sim_served)) < length (buffer (telemetry_queue sim_served))) = True"
    by (simp only: sim_queue list.size) simp
  ultimately have "ring_items (telemetry_queue d') = [sim_event]"
    and d: "d' = sim_served\<lparr>secure_node := (secure_node sim_served)\<lparr>node_limiter := Some (charged sim_limiter_new 1000)\<rparr>,
      steady := (\<lambda>n. steady sim_served (n + 2)), telemetry_queue := telemetry_queue d',
      active_connections := (active_connections sim_served)(5 \<mapsto> sim_context\<lparr>ctx_parser := http_new\<rparr>)\<rparr>"
    using assms sim_event by (simp_all only: packet_effect_def sim_queue(2) Let_def if_True append_Nil of_int_numeral)
  moreover have "charged sim_limiter_new 1000 = sim_limiter_new\<lparr>tat_ns := 200001000\<rparr>"
    by (simp add: charged_def admits_def sim_limiter_new_def)
  then have "node_limiter (secure_node d') = Some (sim_limiter_new\<lparr>tat_ns := 200001000\<rparr>)"
    by (subst d) simp
  ultimately show ?thesis by blast
qed

text \<open>The request arrives in two chunks.\<close>

lemma fragmented_packet_served_witness:
  "\<exists>k' d'. on_client_times (length [take 10 sim_request, drop 10 sim_request]) sim_machine 5
      (sim_serving, sim_kernel_at [5, 4, 3] [5, 3] [(5, [take 10 sim_request, drop 10 sim_request])] [], sim_served) =
        (Inr (), sim_serving, k', d') \<and>
    ring_items (telemetry_queue d') = [sim_event]"
proof -
  let ?cs = "[take 10 sim_request, drop 10 sim_request]"
  let ?k = "sim_kernel_at [5, 4, 3] [5, 3] [(5, ?cs)] []"
  have ne: "take 10 sim_request \<noteq> []" "drop 10 sim_request \<noteq> []"
    using sim_request_length by auto
  have "length sim_request - 10 \<le> 2048" using sim_request_length by linarith
  then have chain: "recv_chain (sockets sim_machine) 5 ?cs ?k"
    using ne by (simp add: sim_recv_chain)
  have cat: "concat ?cs = map byte_of_char (request_head ''POST'' ''/packet'' ''HTTP/1.1'' [] (length sim_wire) []) @ sim_wire"
  proof -
    have "concat ?cs = sim_request" by simp
    also note sim_request_def
    finally show ?thesis .
  qed
  have fresh: "ctx_parser sim_context = http_new" by (simp add: sim_context_def)
  have "list_all header_ok []" by simp
  from fragmented_packet_served [OF sim_served_ok(2,3,1) sim_context_ok fresh canonical_sample sim_wire
      _ _ _ _ _ this this cat chain sim_queue(1)]
  obtain k' d' where "on_client_times (length ?cs) sim_machine 5 (sim_serving, ?k, sim_served) = (Inr (), sim_serving, k', d')"
    "packet_effect sim_limiter_new 5 sim_wire sim_context sim_served d'"
    by (auto simp: sim_limiter_new_def)
  then show ?thesis using sim_effect by blast
qed

lemma sim_request_received:
  "sys_recv (sockets sim_machine) 5 2048 (sim_kernel_at [5, 4, 3] [5, 3] [(5, [sim_request])] []) =
    (Inr sim_request, sim_kernel_at [5, 4, 3] [5, 3] [(5, [])] [])" "sim_request \<noteq> []"
  using sim_request_length by (auto simp: sim_recv_chain)

lemma sim_request_parsed:
  obtains sim where "parse_chunk (allocator sim_machine) sim_request (ctx_parser sim_context) = Inr (True, sim)"
    "req_body (request sim) = sim_wire"
    "deserialize (little_endian sim_machine) (req_body (request sim)) = Inr sample_packet"
proof -
  have fresh: "ctx_parser sim_context = http_new" by (simp add: sim_context_def)
  have len: "length sim_wire < 2 ^ 63" by (simp add: sim_wire_def)
  obtain sim where sim: "parse_chunk (allocator sim_machine) sim_request (ctx_parser sim_context) = Inr (True, sim)"
    "req_body (request sim) = sim_wire"
    using parse_request [of "''POST''" "''/packet''" "''HTTP/1.1''" "[]" "[]" sim_wire "\<lambda>_. True"] len
    by (auto simp: sim_request_def fresh)
  moreover have "deserialize (little_endian sim_machine) (req_body (request sim)) = Inr sample_packet"
    using serialize_deserialize [OF canonical_sample, of True True] sim_wire sim(2) by simp
  ultimately show thesis by (rule that)
qed


lemma client_fault_iff_witness:
  "\<not> (\<exists>w'. on_client sim_machine 5
      (sim_serving, sim_kernel_at [5, 4, 3] [5, 3] [(5, [])] [], sim_served) = (Inl OutOfFuel, w'))"
  using client_fault_iff [OF sim_served_ok(1) sim_context_ok, where m = sim_machine and f = OutOfFuel]
  by simp

lemma one_request_ends_daemon_witness:
  "fst (on_client sim_machine 5 (sim_serving, sim_kernel_at [5, 4, 3] [5, 3] [(5, [map byte_of_char
      (''GET'' @ '' '' @ ''/'' @ '' '' @ ''HTTP/1.1'' @ CRLF @ concat (map render_header []) @
       ''Content-Length: -1'' @ CRLF @ CRLF)])] [], sim_served)) = Inl (ParserFault LengthError)"
  by (subst one_request_ends_daemon [OF sim_served_ok(1) sim_context_ok, of "''GET''" "''/''" "''HTTP/1.1''" "[]"])
    (simp_all add: sim_context_def sim_recv_chain)

lemma malformed_connection_ignored_witness:
  "\<exists>k'. on_client_times 1 sim_machine 5
      (sim_serving, sim_kernel_at [5, 4, 3] [5, 3] [(5, [sim_request])] [],
       sim_served\<lparr>active_connections := [5 \<mapsto> sim_context\<lparr>ctx_parser := http_new\<lparr>hstate := Error\<rparr>\<rparr>]\<rparr>) =
     (Inr (), sim_serving, k',
       sim_served\<lparr>active_connections := [5 \<mapsto> sim_context\<lparr>ctx_parser := http_new\<lparr>hstate := Error\<rparr>\<rparr>]\<rparr>)"
proof -
  let ?ctx = "sim_context\<lparr>ctx_parser := http_new\<lparr>hstate := Error\<rparr>\<rparr>"
  have "context_ok sim_serving 5 ?ctx"
    using sim_context_ok by (simp add: context_ok_def http_inv_def http_new_def request_empty_def)
  moreover have "recv_chain (sockets sim_machine) 5 [sim_request] (sim_kernel_at [5, 4, 3] [5, 3] [(5, [sim_request])] [])"
    using sim_request_length by (auto simp: sim_recv_chain)
  ultimately show ?thesis
    using malformed_connection_ignored [of "sim_served\<lparr>active_connections := [5 \<mapsto> ?ctx]\<rparr>" 5 ?ctx sim_serving sim_machine "[sim_request]"]
    by simp
qed

text \<open>The first client disconnects, the second one gets its descriptor.\<close>

lemma reconnect_ends_daemon_witness:
  "fst (on_accept 1 sim_machine (sim_serving,
      \<lparr>open_fds = [4, 3], watched = [3], pending = [[]], inbox = [], arrivals = []\<rparr>,
      sim_served\<lparr>active_connections := Map.empty\<rparr>)) =
    Inl (NetFault (SystemError ENOENT ''Failed to execute epoll_ctl''))"
proof -
  let ?k = "sim_kernel_at [5, 4, 3] [5, 3] [(5, [])] []"
  let ?k2 = "\<lparr>open_fds = [4, 3], watched = [3], pending = [[]], inbox = [], arrivals = []\<rparr>"
  have recv: "sys_recv (sockets sim_machine) 5 2048 ?k = (Inr [], ?k)" by (simp add: sim_recv_chain)
  have drop: "on_client sim_machine 5 (sim_serving, ?k, sim_served) =
      (Inr (), sim_serving, sim_kernel_at [4, 3] [3] [] [], sim_served\<lparr>active_connections := Map.empty\<rparr>)"
    by (simp add: on_client_def sim_served_ok receive_data_cases sim_context_def is_valid_def sim_recv_chain
        close_socket_def) (simp add: sim_served_def sim_os_def sim_kernel_at_def)
  have accept: "accept_connection (sockets sim_machine) (main_server (sim_served\<lparr>active_connections := Map.empty\<rparr>)) ?k2 =
      (Inr (Some \<lparr>conn_socket = 5, remote_ip = [], remote_port = None\<rparr>),
       \<lparr>open_fds = [5, 4, 3], watched = [3], pending = [], inbox = [(5, [])], arrivals = []\<rparr>)"
    by (simp add: accept_connection_def sim_os_def fresh_fd_def connection_new_def set_nonblocking_def is_valid_def Let_def)
  have sub: "(set \<circ> watched) ?k2 \<subseteq> (set \<circ> watched) (sim_kernel_at [4, 3] [3] [] [])"
    by (simp add: sim_kernel_at_def)
  have "epoll_spec (epoll sim_machine) (set \<circ> watched)" "interest_spec (sockets sim_machine) (set \<circ> watched)"
    using sim_epoll_spec sim_interest by simp_all
  from reconnect_ends_daemon [OF this sim_served_ok(1) sim_context_ok recv drop sub accept, of 0]
  show ?thesis by simp
qed

lemma on_accept_terminates_witness:
  "fst (on_accept 2 sim_machine (sim_loop,
      \<lparr>open_fds = [4, 3], watched = [3], pending = [[]], inbox = [], arrivals = []\<rparr>, sim_daemon)) \<noteq> Inl OutOfFuel"
  by (rule on_accept_terminates [OF sim_backlog]) simp

end
