(* ===== verification/DaemonExit.thy ===== *)
theory DaemonExit
  imports DaemonRuns
begin

text \<open>
  How the daemon ends: a fault in a callback leaves the loop, \<open>main\<close>'s \<open>try\<close> block and the process, and the
  destructors on this way (\<open>daemon_exit\<close>, and the leaving branches of \<open>daemon_start\<close>) close every
  descriptor that the daemon has opened. The proof rests on the contract of a loop whose callbacks
  throw (locale \<open>throwing_reactor\<close>).
\<close>

section \<open>What no callback changes\<close>

lemma handle_packet_server: "main_server (fst (handle_packet m fd body st)) = main_server (fst st)"
  by (simp add: handle_packet_def Let_def split: prod.splits sum.splits)

definition keeps_frame :: "int \<Rightarrow> tcp_server \<Rightarrow> 'k daemon_world \<Rightarrow> bool" where
  "keeps_frame l srv w \<longleftrightarrow> loop_fd (fst w) = l \<and> main_server (snd (snd w)) = srv"

lemma on_client_frame:
  assumes "keeps_frame l srv w" and "on_client m fd w = (r, w')"
  shows "keeps_frame l srv w'"
proof -
  have h: "main_server d' = main_server d" if "handle_packet m fd body (d, k) = (d', k')" for body d k d' k'
    using handle_packet_server [of m fd body "(d, k)"] that by simp
  show ?thesis
    using assms unfolding keeps_frame_def on_client_def Let_def
    by (auto split: prod.splits sum.splits option.splits if_splits dest!: h)
qed

lemma on_accept_frame:
  "keeps_frame l srv (loop, k, d) \<Longrightarrow> on_accept fuel m (loop, k, d) = (r, w') \<Longrightarrow> keeps_frame l srv w'"
proof (induction fuel arbitrary: loop k d)
  case 0
  then show ?case by (simp add: on_accept.simps)
next
  case (Suc fuel)
  have rep: "main_server d' = main_server d"
    if "replace_context os fd ctx (d, k) = (d', k')" for os fd ctx d d' and k k' :: 'a
    using that by (auto simp: replace_context_def Let_def)
  show ?case
    using Suc unfolding keeps_frame_def on_accept.simps(2) Let_def
    by (auto split: prod.splits sum.splits option.splits dest!: register_loop_fd rep)
qed

interpretation frame: invariant_reactor "epoll m" "run_callback fuel m" NetFault "keeps_frame l srv"
  for m :: "('a, 'k) machine" and fuel l srv
proof unfold_locales
  fix w w' :: "'k daemon_world" and cb fd ev r
  obtain loop k d where "w = (loop, k, d)" by (cases w)
  then show "keeps_frame l srv w \<Longrightarrow> run_callback fuel m cb fd ev w = (r, w') \<Longrightarrow> keeps_frame l srv w'"
    using on_accept_frame [of l srv loop k d fuel m r w'] on_client_frame [of l srv w m fd r w'] by (cases cb) simp_all
qed (simp add: keeps_frame_def)

lemma daemon_poll_frame: "keeps_frame l srv w \<Longrightarrow> daemon_poll fuel m w = (r, w') \<Longrightarrow> keeps_frame l srv w'"
  unfolding daemon_poll_def by (rule frame.poll_held)

lemma daemon_reach_frame: "daemon_reach fuel m w0 w \<Longrightarrow> keeps_frame l srv w0 \<Longrightarrow> keeps_frame l srv w"
proof (induction rule: daemon_reach.induct)
  case (callback w fd cb ev u w')
  then show ?case using frame.every_law by blast
qed (simp_all add: keeps_frame_def monitor_tick_def case_prod_beta)

section \<open>Start\<close>

text \<open>What \<open>main\<close> holds for itself when it enters its loop: the listening socket and the epoll instance. A
  start that fails holds nothing.\<close>

definition holds_own :: "('k \<Rightarrow> int set) \<Rightarrow> 'k \<Rightarrow> 'k \<Rightarrow> int \<Rightarrow> tcp_server \<Rightarrow> bool" where
  "holds_own fds boot k l srv \<longleftrightarrow>
     0 \<le> l \<and> 0 \<le> server_socket srv \<and> l \<noteq> server_socket srv \<and> l \<notin> fds boot \<and> server_socket srv \<notin> fds boot \<and>
     fds k = insert l (insert (server_socket srv) (fds boot))"

lemma loop_destroy_fds:
  assumes "machine_spec m fds" and "0 \<le> loop_fd loop"
  shows "fds (event_loop_destroy (sockets m) loop k) = fds k - {loop_fd loop}"
  using sys_close_fds [OF machine_specD(1) [OF assms(1)]] assms(2) by (simp add: event_loop_destroy_def)

lemma server_close_fds:
  assumes "machine_spec m fds" and "0 \<le> server_socket srv"
  shows "fds (close_socket (sockets m) (server_socket srv) k) = fds k - {server_socket srv}"
  by (rule close_fds [OF machine_specD(1) [OF assms(1)] assms(2)])

lemma daemon_start_fds:
  assumes spec: "machine_spec m fds" and run: "daemon_start m env buf start t0 clk boot = (r, k')"
  shows "case r of Inl f \<Rightarrow> fds k' = fds boot
    | Inr (demo, loop, d) \<Rightarrow> holds_own fds boot k' (loop_fd loop) (main_server d)"
proof -
  obtain r1 srv k1 where 1: "tcp_server_start (sockets m) (tcp_server_new 9090) boot = (r1, srv, k1)"
    by (cases "tcp_server_start (sockets m) (tcp_server_new 9090) boot")
  note srv = tcp_server_start_fds [OF machine_specD(1) [OF spec] 1]
  show ?thesis
  proof (cases r1)
    case (Inl e)
    then have "r = Inl (NetFault e)" "k' = close_socket (sockets m) (server_socket srv) k1"
      using run by (simp_all add: daemon_start_def 1)
    then show ?thesis
      using srv server_close_fds [OF spec, of srv k1] by (auto simp: close_socket_def)
  next
    case (Inr u)
    then have own: "0 \<le> server_socket srv" "server_socket srv \<notin> fds boot"
        "fds k1 = insert (server_socket srv) (fds boot)"
      using srv by auto
    have leave: "fds (close_socket (sockets m) (server_socket srv) k1) = fds boot"
      using server_close_fds [OF spec own(1)] own by auto
    obtain r2 :: "net_error + callback event_loop" and k2 where 2: "event_loop_new (epoll m) k1 = (r2, k2)" by fastforce
    note loop = event_loop_new_fds [OF machine_specD(3) [OF spec] 2]
    obtain l where l: "gcra_new (Finite 5) (Finite 3) = Some l" using host_limiter by blast
    have mask: "mask_of_prefix 24 = Inr (SubnetMask (prefix_mask 24))"
      using mask_of_prefix_nat [of 24] by simp
    show ?thesis
    proof (cases r2)
      case (Inl e)
      then have "fds (close_socket (sockets m) (server_socket srv) k2) = fds boot"
        using loop server_close_fds [OF spec own(1)] own by auto
      then show ?thesis
        using run leave
        by (auto simp: daemon_start_def 1 Inr 2 Inl Let_def host_address mask enable_rate_limiting_def l
            split: sum.splits)
    next
      case (Inr lp)
      obtain r3 lp3 k3 where
        3: "register_event (epoll m) (server_socket srv) (ucast EPOLLIN) (Some OnAccept) lp k2 = (r3, lp3, k3)"
        by (cases "register_event (epoll m) (server_socket srv) (ucast EPOLLIN) (Some OnAccept) lp k2")
      have "fds k3 = fds k2" by (rule register_event_fds [OF machine_specD(3) [OF spec] 3])
      moreover have "loop_fd lp3 = loop_fd lp" by (rule register_loop_fd [OF 3])
      ultimately have held: "holds_own fds boot k3 (loop_fd lp3) srv"
        using loop own by (auto simp: holds_own_def Inr)
      then have "fds (close_socket (sockets m) (server_socket srv) (event_loop_destroy (sockets m) lp3 k3)) = fds boot"
        using loop_destroy_fds [OF spec, of lp3] server_close_fds [OF spec own(1)] by (auto simp: holds_own_def)
      then show ?thesis
        using run leave held \<open>r1 = Inr u\<close>
        by (auto simp: daemon_start_def 1 2 Inr 3 Let_def host_address mask enable_rate_limiting_def l
            split: sum.splits)
    qed
  qed
qed

section \<open>Exit\<close>

lemma destroy_contexts_fds:
  assumes "machine_spec m fds"
    and "\<And>fd ctx. contexts fd = Some ctx \<Longrightarrow> conn_socket (ctx_connection ctx) = fd \<and> is_valid fd"
  shows "fds (destroy_contexts (sockets m) contexts order k) = fds k - (set order \<inter> dom contexts)"
  unfolding destroy_contexts_def
proof (induction order arbitrary: k)
  case (Cons fd order)
  have "fds (case contexts fd of None \<Rightarrow> k | Some ctx \<Rightarrow> close_socket (sockets m) (conn_socket (ctx_connection ctx)) k) =
      fds k - ({fd} \<inter> dom contexts)"
    using close_valid_fds [OF machine_specD(1) [OF assms(1)], of fd k] assms(2) [of fd]
    by (cases "contexts fd") auto
  then show ?case using Cons.IH by auto
qed simp

lemma daemon_exit_fds:
  assumes spec: "machine_spec m fds" and own: "holds_own fds boot k0 (loop_fd loop) (main_server d)"
    and held: "daemon_held fds (fds k0) (loop, k, d)" and order: "set order = dom (active_connections d)"
  shows "fds (daemon_exit m order (loop, k, d)) = fds boot"
proof -
  have ctx: "conn_socket (ctx_connection c) = fd \<and> is_valid fd" if "active_connections d fd = Some c" for fd c
    using held that by (simp add: daemon_held_def)
  have destroy: "fds (destroy_contexts (sockets m) (active_connections d) order k') =
      fds k' - (set order \<inter> dom (active_connections d))" for k'
    by (rule destroy_contexts_fds [OF spec]) (rule ctx)
  have valid: "0 \<le> loop_fd loop" "0 \<le> server_socket (main_server d)" using own by (simp_all add: holds_own_def)
  have "fds (daemon_exit m order (loop, k, d)) =
      fds k - {loop_fd loop} - {server_socket (main_server d)} - dom (active_connections d)"
    unfolding daemon_exit_def Let_def prod.case destroy order Int_absorb
      server_close_fds [OF spec valid(2)] loop_destroy_fds [OF spec valid(1)] ..
  also have "\<dots> = fds boot" using own held unfolding holds_own_def daemon_held_def by auto
  finally show ?thesis .
qed

text \<open>C9 The end of the daemon, from the first system call on: if the start fails, or if after any number of rounds a
  system call or a client's bytes end the loop by an exception, then every descriptor that the daemon has opened is closed
  when the process exits, and none of those that were open before is touched.\<close>

theorem daemon_exit_closes:
  assumes "machine_spec m fds" and "length buf = 1024"
    and "daemon_start m env buf start t0 clk boot = (r, k0)"
  shows "case r of
      Inl f \<Rightarrow> fds k0 = fds boot
    | Inr (demo, loop0, d0) \<Rightarrow>
        \<forall>w f loop k d order. daemon_reach fuel m (loop0, k0, d0) w \<and>
          daemon_poll fuel m w = (Inl f, loop, k, d) \<and> set order = dom (active_connections d) \<longrightarrow>
          fds (daemon_exit m order (loop, k, d)) = fds boot"
proof (cases r)
  case (Inl f)
  then show ?thesis using daemon_start_fds [OF assms(1,3)] by simp
next
  case (Inr s)
  obtain demo loop0 d0 where s: "s = (demo, loop0, d0)" by (cases s)
  have own: "holds_own fds boot k0 (loop_fd loop0) (main_server d0)"
    using daemon_start_fds [OF assms(1,3)] by (simp add: Inr s)
  have inv0: "daemon_inv fds (fds k0) (loop0, k0, d0)"
    using daemon_start_outcome [OF assms(2,3), of fds] by (simp add: Inr s started_def)
  have "fds (daemon_exit m order (loop, k, d)) = fds boot"
    if reach: "daemon_reach fuel m (loop0, k0, d0) w" and poll: "daemon_poll fuel m w = (Inl f, loop, k, d)"
      and order: "set order = dom (active_connections d)" for w f loop k d order
  proof (rule daemon_exit_fds [OF assms(1) _ _ order])
    show "daemon_held fds (fds k0) (loop, k, d)"
      by (rule daemon_poll_held [OF assms(1) daemon_reach_inv [OF assms(1) reach inv0] poll])
    have "keeps_frame (loop_fd loop0) (main_server d0) w"
      by (rule daemon_reach_frame [OF reach]) (simp add: keeps_frame_def)
    from daemon_poll_frame [OF this poll] show "holds_own fds boot k0 (loop_fd loop) (main_server d)"
      using own by (simp add: keeps_frame_def)
  qed
  then show ?thesis by (auto simp: Inr s)
qed

text \<open>A client whose request announces a negative length: the daemon ends, and its three descriptors are closed.\<close>

definition bad_request :: "u8 list" where
  "bad_request = map byte_of_char (''GET'' @ '' '' @ ''/'' @ '' '' @ ''HTTP/1.1'' @ CRLF @ concat (map render_header []) @
     ''Content-Length: -1'' @ CRLF @ CRLF)"

lemma bad_request_throws: "parse_chunk alloc bad_request http_new = Inl LengthError"
  unfolding bad_request_def by (rule parse_negative_length) simp_all

lemma bad_request_short: "take 2048 bad_request = bad_request" "bad_request \<noteq> []"
  by (simp_all add: bad_request_def)

lemma sim_fault:
  "daemon_poll 2 sim_machine (sim_serving, sim_kernel_at [5, 4, 3] [5, 3] [(5, [bad_request])] [], sim_served) =
    (Inl (ParserFault LengthError), sim_serving, sim_kernel_at [5, 4, 3] [5, 3] [(5, [])] [], sim_served)"
proof -
  let ?k = "sim_kernel_at [5, 4, 3] [5, 3] [(5, [bad_request])] []"
  have wait: "sys_epoll_wait sim_epoll 10 500 ?k = (Inr [(5, EPOLLIN)], ?k)"
    by (simp add: sim_epoll_def sim_kernel_at_def)
  have recv: "receive_data sim_os (ctx_connection sim_context) 2048 ?k =
      (Inr bad_request, ctx_connection sim_context, sim_kernel_at [5, 4, 3] [5, 3] [(5, [])] [])"
    using bad_request_short
    by (simp add: receive_data_cases sim_context_def is_valid_def sim_recv_chain split: list.split)
  have fresh: "ctx_parser sim_context = http_new" by (simp add: sim_context_def)
  have "on_client sim_machine 5 (sim_serving, ?k, sim_served) =
      (Inl (ParserFault LengthError), sim_serving, sim_kernel_at [5, 4, 3] [5, 3] [(5, [])] [], sim_served)"
    by (simp add: on_client_def sim_served_ok recv bad_request_short fresh bad_request_throws)
  then show ?thesis
    by (simp add: daemon_poll_def poll_once_def wait) (simp add: sim_serving_def)
qed

lemma daemon_exit_closes_witness:
  "(set \<circ> open_fds) (daemon_exit sim_machine [5]
      (sim_serving, sim_kernel_at [5, 4, 3] [5, 3] [(5, [])] [], sim_served)) = {}"
proof -
  have len: "length (replicate 1024 blank_event) = 1024" by simp
  have act: "set [5] = dom (active_connections sim_served)" by (simp add: sim_served_def)
  note reach = daemon_reach_poll [OF daemon_reach.start sim_first_poll]
  from daemon_exit_closes [OF sim_machine_spec len sim_start, where fuel = 2]
  have "(set \<circ> open_fds) (daemon_exit sim_machine [5]
      (sim_serving, sim_kernel_at [5, 4, 3] [5, 3] [(5, [])] [], sim_served)) =
      (set \<circ> open_fds) (sim_kernel_at [] [] [] [[[bad_request]]])"
    unfolding sum.case prod.case using reach sim_fault act by blast
  then show ?thesis by (simp add: sim_kernel_at_def)
qed

end
