(* ===== verification/DaemonHistory.thy ===== *)
theory DaemonHistory
  imports DaemonExit
begin

text \<open>
  The way of every packet through the daemon, from the limiter over the queue to the monitor's totals, in
  whatever order clients, events and the monitor's thread come. \<open>daemon_log\<close> is the life of the daemon with a log of
  the well-formed packets that the clients' sockets have delivered, which is kept by looking at the arguments of the
  callbacks and not at what they do; \<open>limiter_at\<close> and \<open>logged_event\<close> say what is to become of the packets of a log, and
  \<open>explains\<close> that limiter, queue, monitor and clock of a daemon are as a log requires. Every reachable state has a
  log, and every log of it explains it; in particular the limiter's bound holds for the packets that the totals report
  as delivered.
\<close>

section \<open>Logs\<close>

record packet_record =
  sent_by :: int
  sent_body :: "u8 list"
  had_room :: bool

text \<open>The body of the well-formed packet that completes a request when the callback of \<open>fd\<close> is called in this state.\<close>

definition packet_arrival :: "('a, 'k) machine \<Rightarrow> callback \<Rightarrow> int \<Rightarrow> 'k daemon_world \<Rightarrow> u8 list option" where
  "packet_arrival m cb fd w =
     (case (cb, active_connections (snd (snd w)) fd) of
        (OnClient, Some ctx) \<Rightarrow>
          (case fst (sys_recv (sockets m) (conn_socket (ctx_connection ctx)) 2048 (fst (snd w))) of
             Inr bytes \<Rightarrow>
               if bytes = [] \<or> \<not> is_valid (conn_socket (ctx_connection ctx)) then None
               else (case parse_chunk (allocator m) bytes (ctx_parser ctx) of
                  Inr (True, sim) \<Rightarrow>
                    (case deserialize (little_endian m) (req_body (request sim)) of
                       Inr _ \<Rightarrow> Some (req_body (request sim))
                     | Inl _ \<Rightarrow> None)
                | _ \<Rightarrow> None)
           | Inl _ \<Rightarrow> None)
      | _ \<Rightarrow> None)"

definition logged :: "('a, 'k) machine \<Rightarrow> callback \<Rightarrow> int \<Rightarrow> 'k daemon_world \<Rightarrow> packet_record list" where
  "logged m cb fd w =
     (case packet_arrival m cb fd w of
        None \<Rightarrow> []
      | Some b \<Rightarrow> [\<lparr>sent_by = fd, sent_body = b,
          had_room = length (ring_items (telemetry_queue (snd (snd w)))) < 1024\<rparr>])"

text \<open>The steps of \<open>daemon_reach\<close>, with the log.\<close>

inductive daemon_log ::
    "nat \<Rightarrow> ('a, 'k) machine \<Rightarrow> 'k daemon_world \<Rightarrow> packet_record list \<Rightarrow> 'k daemon_world \<Rightarrow> bool"
  for fuel m w0 where
  log_start: "daemon_log fuel m w0 [] w0"
| log_wait: "daemon_log fuel m w0 hist (loop, k, d) \<Longrightarrow>
    daemon_log fuel m w0 hist (loop, snd (sys_epoll_wait (epoll m) n t k), d)"
| log_callback: "daemon_log fuel m w0 hist w \<Longrightarrow> callbacks (fst w) fd = Some cb \<Longrightarrow>
    run_callback fuel m cb fd ev w = (Inr u, w') \<Longrightarrow> daemon_log fuel m w0 (hist @ logged m cb fd w) w'"
| log_tick: "daemon_log fuel m w0 hist (loop, k, d) \<Longrightarrow> daemon_log fuel m w0 hist (loop, k, monitor_tick now d)"

lemma log_reach: "daemon_log fuel m w0 hist w \<Longrightarrow> daemon_reach fuel m w0 w"
  by (induction rule: daemon_log.induct) (auto intro: daemon_reach.intros)

lemma reach_log: "daemon_reach fuel m w0 w \<Longrightarrow> \<exists>hist. daemon_log fuel m w0 hist w"
proof (induction rule: daemon_reach.induct)
  case (callback w fd cb ev u w')
  then show ?case using daemon_log.log_callback by blast
qed (blast intro: daemon_log.intros)+

text \<open>What is to become of a log. The \<open>i\<close>-th packet is judged at the reading \<open>2 i\<close> of the clock by a limiter that has
  been charged for its predecessors, and stamped with the next reading; the events of those that find room are
  stored, in their order.\<close>

fun limiter_at :: "rate_limiter \<Rightarrow> clock \<Rightarrow> nat \<Rightarrow> rate_limiter" where
  "limiter_at l0 clk 0 = l0"
| "limiter_at l0 clk (Suc i) = charged (limiter_at l0 clk i) (of_int (clk (2 * i)))"

definition logged_event :: "rate_limiter \<Rightarrow> clock \<Rightarrow> packet_record list \<Rightarrow> nat \<Rightarrow> metric_event" where
  "logged_event l0 clk hist i =
     expected_event (admits (limiter_at l0 clk i) (of_int (clk (2 * i)))) (of_int (clk (2 * i + 1)))
       (sent_by (hist ! i)) (sent_body (hist ! i))"

definition stored_events :: "rate_limiter \<Rightarrow> clock \<Rightarrow> packet_record list \<Rightarrow> metric_event list" where
  "stored_events l0 clk hist =
     map (logged_event l0 clk hist) (filter (\<lambda>i. had_room (hist ! i)) [0..<length hist])"

definition explains :: "rate_limiter \<Rightarrow> clock \<Rightarrow> packet_record list \<Rightarrow> daemon \<Rightarrow> bool" where
  "explains l0 clk hist d \<longleftrightarrow>
     node_limiter (secure_node d) = Some (limiter_at l0 clk (length hist)) \<and>
     (\<exists>popped. stored_events l0 clk hist = popped @ ring_items (telemetry_queue d) \<and>
        accounts popped (fst (telemetry_monitor d))) \<and>
     (\<forall>i<length hist. i < 1024 \<longrightarrow> had_room (hist ! i)) \<and>
     steady d = (\<lambda>n. clk (n + 2 * length hist)) \<and>
     ring_ok (telemetry_queue d) \<and> length (buffer (telemetry_queue d)) = 1024 \<and> arena_clear (packet_arena d)"

lemma explains_frame [simp]:
  "explains l0 clk hist (d\<lparr>active_connections := ac\<rparr>) = explains l0 clk hist d"
  by (simp add: explains_def)

text \<open>A packet extends the log.\<close>

lemma stored_events_snoc:
  "stored_events l0 clk (hist @ [p]) =
     stored_events l0 clk hist @ (if had_room p then [logged_event l0 clk (hist @ [p]) (length hist)] else [])"
proof -
  have "filter (\<lambda>i. had_room ((hist @ [p]) ! i)) [0..<length hist] = filter (\<lambda>i. had_room (hist ! i)) [0..<length hist]"
    by (rule filter_cong) (simp_all add: nth_append)
  then show ?thesis by (auto simp: stored_events_def logged_event_def nth_append)
qed

lemma stored_events_length: "length (stored_events l0 clk hist) \<le> length hist"
proof -
  have "length (stored_events l0 clk hist) \<le> length [0..<length hist]"
    unfolding stored_events_def length_map by (rule length_filter_le)
  then show ?thesis by simp
qed

lemma explains_packet:
  fixes fd b
  assumes ex: "explains l0 clk hist d" and lim: "node_limiter (secure_node d) = Some l"
  defines "p \<equiv> \<lparr>sent_by = fd, sent_body = b, had_room = length (ring_items (telemetry_queue d)) < 1024\<rparr>"
  shows "explains l0 clk (hist @ [p]) (after_packet l fd b d)"
proof -
  let ?e = "packet_event l d fd b" and ?q = "telemetry_queue d" and ?n = "length hist"
  have l: "l = limiter_at l0 clk ?n" using ex lim by (simp add: explains_def)
  have ok: "ring_ok ?q" "length (buffer ?q) = 1024" using ex by (simp_all add: explains_def)
  obtain popped where popped: "stored_events l0 clk hist = popped @ ring_items ?q"
      "accounts popped (fst (telemetry_monitor d))"
    using ex by (auto simp: explains_def)
  have steady: "steady d = (\<lambda>n. clk (n + 2 * ?n))" using ex by (simp add: explains_def)
  have event: "logged_event l0 clk (hist @ [p]) ?n = ?e"
    by (simp add: logged_event_def packet_event_def verdict_def steady l p_def)
  have room: "had_room p \<longleftrightarrow> length (ring_items ?q) < 1024" by (simp only: p_def packet_record.simps)
  have push: "ring_ok (snd (ring_push ?e ?q))" "length (buffer (snd (ring_push ?e ?q))) = 1024"
    "ring_items (snd (ring_push ?e ?q)) = ring_items ?q @ (if had_room p then [?e] else [])"
    using ring.enq_law [OF ok(1), of ?e] unfolding room by (auto simp: ok(2))
  have stored: "stored_events l0 clk (hist @ [p]) = popped @ ring_items (snd (ring_push ?e ?q))"
    unfolding stored_events_snoc event popped(1) push(3) by simp
  have "had_room p" if "?n < 1024"
  proof -
    have "length (popped @ ring_items ?q) \<le> ?n"
      using stored_events_length [of l0 clk hist] by (simp only: popped(1))
    then show ?thesis using that unfolding room length_append by linarith
  qed
  then have lost: "\<forall>i<length (hist @ [p]). i < 1024 \<longrightarrow> had_room ((hist @ [p]) ! i)"
    using ex by (auto simp: explains_def nth_append less_Suc_eq)
  show ?thesis
    unfolding explains_def
  proof (intro conjI)
    show "node_limiter (secure_node (after_packet l fd b d)) = Some (limiter_at l0 clk (length (hist @ [p])))"
      by (simp add: after_packet_def l steady)
    show "\<exists>popped. stored_events l0 clk (hist @ [p]) = popped @ ring_items (telemetry_queue (after_packet l fd b d)) \<and>
        accounts popped (fst (telemetry_monitor (after_packet l fd b d)))"
      using stored popped(2) by (auto simp: after_packet_def)
    show "steady (after_packet l fd b d) = (\<lambda>n. clk (n + 2 * length (hist @ [p])))"
      by (simp add: after_packet_def steady)
  qed (use lost push ex in \<open>simp_all add: after_packet_def explains_def\<close>)
qed

text \<open>A round of the monitor moves the queue's content into its totals.\<close>

lemma explains_tick:
  assumes "explains l0 clk hist d"
  shows "explains l0 clk hist (monitor_tick now d)"
proof -
  let ?q = "telemetry_queue d"
  have ok: "ring_ok ?q" using assms by (simp add: explains_def)
  obtain es q where d: "drain (Suc (length (buffer ?q))) ?q = (es, q)" by fastforce
  have "length (ring_items ?q) < Suc (length (buffer ?q))" using ring.bounded [OF ok] by simp
  then have es: "es = ring_items ?q" "ring_items q = []" using drain_items [OF ok] d by fastforce+
  have q: "ring_ok q" "length (buffer q) = length (buffer ?q)"
    using drain_ok [OF ok, of "Suc (length (buffer ?q))"] drain_buffer [OF ok, of "Suc (length (buffer ?q))"]
    by (simp_all add: d del: drain.simps)
  have acc: "accounts (popped @ es) (fst (monitor_round (es, now) (telemetry_monitor d)))"
    if "accounts popped (fst (telemetry_monitor d))" for popped
    using accounts_round [OF that, of "(es, now)"] by simp
  have tick: "monitor_tick now d = d\<lparr>telemetry_queue := q,
      telemetry_monitor := monitor_round (es, now) (telemetry_monitor d)\<rparr>"
    by (simp add: monitor_tick_def d del: drain.simps)
  show ?thesis
    using assms acc q unfolding explains_def tick es(1) by (auto simp: es(2))
qed

section \<open>The running daemon\<close>

lemma on_client_logged:
  assumes ex: "explains l0 clk hist d" and run: "on_client m fd (loop, k, d) = (r, loop', k', d')"
  shows "explains l0 clk (hist @ logged m OnClient fd (loop, k, d)) d'"
proof (cases "active_connections d fd")
  case None
  then show ?thesis using ex run by (simp add: on_client_def logged_def packet_arrival_def)
next
  case (Some ctx)
  let ?fd = "conn_socket (ctx_connection ctx)"
  obtain c k1 where 1: "sys_recv (sockets m) ?fd 2048 k = (c, k1)" by fastforce
  show ?thesis
  proof (cases "is_valid ?fd \<and> (\<exists>x xs. c = Inr (x # xs))")
    case False
    then have "\<exists>ac. d' = d\<lparr>active_connections := ac\<rparr>"
      using run Some 1
      by (auto simp: on_client_def receive_data_cases intro: exI [of _ "active_connections d"]
          split: if_splits sum.splits errno.splits list.splits)
    moreover have "logged m OnClient fd (loop, k, d) = []"
      using False by (cases c) (auto simp: logged_def packet_arrival_def Some 1 neq_Nil_conv)
    ultimately show ?thesis using ex by auto
  next
    case True
    then obtain x xs where c: "c = Inr (x # xs)" by blast
    have recv: "receive_data (sockets m) (ctx_connection ctx) 2048 k = (Inr (x # xs), ctx_connection ctx, k1)"
      using True by (simp add: receive_data_cases 1 c)
    show ?thesis
    proof (cases "\<exists>sim. parse_chunk (allocator m) (x # xs) (ctx_parser ctx) = Inr (True, sim)")
      case False
      then have "\<exists>ac. d' = d\<lparr>active_connections := ac\<rparr>"
        using run Some recv
        by (auto simp: on_client_def intro: exI [of _ "active_connections d"] split: sum.splits prod.splits if_splits)
      moreover have "logged m OnClient fd (loop, k, d) = []"
        using False by (auto simp: logged_def packet_arrival_def Some 1 c split: sum.splits prod.splits bool.splits)
      ultimately show ?thesis using ex by auto
    next
      case parsed: True
      then obtain sim where sim: "parse_chunk (allocator m) (x # xs) (ctx_parser ctx) = Inr (True, sim)" by blast
      let ?b = "req_body (request sim)"
      have clear: "arena_clear (packet_arena d)" using ex by (simp add: explains_def)
      obtain l where l: "node_limiter (secure_node d) = Some l" using ex by (simp add: explains_def)
      obtain d1 k2 where h: "handle_packet m fd ?b (d, k1) = (d1, k2)" by fastforce
      have d': "\<exists>ac. d' = (d1\<lparr>packet_arena := arena_reset (packet_arena d1)\<rparr>)\<lparr>active_connections := ac\<rparr>"
        using run by (auto simp: on_client_def Some recv sim h)
      show ?thesis
      proof (cases "deserialize (little_endian m) ?b")
        case (Inl e)
        have "d1\<lparr>packet_arena := arena_reset (packet_arena d1)\<rparr> = d"
          using handle_malformed [OF clear Inl, of fd k1] arena_cleared [OF clear] h by auto
        moreover have "logged m OnClient fd (loop, k, d) = []"
          by (simp add: logged_def packet_arrival_def Some 1 c True sim Inl)
        ultimately show ?thesis using ex d' by auto
      next
        case (Inr pkt)
        have "packet_arena (after_packet l fd ?b d) = packet_arena d"
          "(after_packet l fd ?b d)\<lparr>packet_arena := packet_arena d\<rparr> = after_packet l fd ?b d"
          by (simp_all add: after_packet_def)
        then have "d1\<lparr>packet_arena := arena_reset (packet_arena d1)\<rparr> = after_packet l fd ?b d"
          using handle_wellformed [OF clear l Inr, of fd k1] arena_cleared [OF clear] h by auto
        moreover have "logged m OnClient fd (loop, k, d) = [\<lparr>sent_by = fd, sent_body = ?b,
            had_room = length (ring_items (telemetry_queue d)) < 1024\<rparr>]"
          using True by (simp add: logged_def packet_arrival_def Some 1 c sim Inr)
        ultimately show ?thesis using explains_packet [OF ex l] d' by auto
      qed
    qed
  qed
qed

lemma on_accept_explains:
  "explains l0 clk hist d \<Longrightarrow> on_accept fuel m (loop, k, d) = (r, loop', k', d') \<Longrightarrow> explains l0 clk hist d'"
proof (induction fuel arbitrary: loop k d)
  case 0
  then show ?case by (simp add: on_accept.simps)
next
  case (Suc fuel)
  have rep: "\<exists>ac. d' = d\<lparr>active_connections := ac\<rparr>"
    if "replace_context os fd ctx (d, k) = (d', k')" for os fd ctx d d' and k k' :: 'a
    using that by (auto simp: replace_context_def Let_def)
  obtain a k1 where 1: "accept_connection (sockets m) (main_server d) k = (a, k1)" by fastforce
  show ?case
  proof (cases "\<exists>conn. a = Inr (Some conn)")
    case False
    then show ?thesis using Suc.prems by (auto simp: on_accept.simps 1 split: sum.splits option.splits)
  next
    case True
    then obtain conn where a: "a = Inr (Some conn)" by blast
    obtain d1 k2 where 2: "replace_context (sockets m) (conn_socket conn)
        \<lparr>ctx_connection = conn, ctx_parser = http_new\<rparr> (d, k1) = (d1, k2)" by fastforce
    then have d1: "explains l0 clk hist d1" using rep Suc.prems(1) by fastforce
    obtain q loop2 k3 where
      3: "register_event (epoll m) (conn_socket conn) (ucast EPOLLIN) (Some OnClient) loop k2 = (q, loop2, k3)"
      by (cases "register_event (epoll m) (conn_socket conn) (ucast EPOLLIN) (Some OnClient) loop k2")
    show ?thesis using Suc.IH [OF d1] Suc.prems(2) d1 by (cases q) (auto simp: on_accept.simps 1 a 2 3 Let_def)
  qed
qed

lemma callback_logged:
  assumes "explains l0 clk hist (snd (snd w))" and "run_callback fuel m cb fd ev w = (r, w')"
  shows "explains l0 clk (hist @ logged m cb fd w) (snd (snd w'))"
proof -
  obtain loop k d loop' k' d' where w: "w = (loop, k, d)" "w' = (loop', k', d')" by (metis prod_cases3)
  show ?thesis
  proof (cases cb)
    case OnAccept
    then show ?thesis
      using on_accept_explains [of l0 clk hist d fuel m loop k r loop' k' d'] assms
      by (simp add: w logged_def packet_arrival_def)
  next
    case OnClient
    then show ?thesis using on_client_logged [of l0 clk hist d m fd loop k r loop' k' d'] assms by (simp add: w)
  qed
qed

lemma log_explains:
  "daemon_log fuel m w0 hist w \<Longrightarrow> explains l0 clk [] (snd (snd w0)) \<Longrightarrow> explains l0 clk hist (snd (snd w))"
proof (induction rule: daemon_log.induct)
  case (log_callback hist w fd cb ev u w')
  then show ?case using callback_logged by blast
next
  case (log_tick hist loop k d now)
  then show ?case using explains_tick by (simp only: snd_conv)
qed (simp_all only: snd_conv)

lemma start_explained:
  assumes len: "length buf = 1024" and run: "daemon_start m env buf start t0 clk boot = (Inr (demo, loop, d), k)"
  shows "\<exists>l0. unat (emission_interval_ns l0) = 200000000 \<and> unat (tolerance_ns l0) = 400000000 \<and> tat_ns l0 = 0 \<and>
    explains l0 clk [] d"
proof -
  obtain l0 where l0: "node_limiter (secure_node d) = Some l0" "unat (emission_interval_ns l0) = 200000000"
      "unat (tolerance_ns l0) = 400000000" "tat_ns l0 = 0"
    using daemon_start_outcome [OF len run] by (auto simp: started_def)
  have "telemetry_queue d = ring_new buf \<and> telemetry_monitor d = (snd (monitor_start monitor_new), t0) \<and> steady d = clk"
    using run by (auto simp: daemon_start_def Let_def split: prod.splits sum.splits option.splits)
  moreover have "ring_ok (ring_new buf)" using len by (auto simp: ring_ok_def ring_new_def intro!: exI [of _ 10])
  moreover have "accounts [] (snd (monitor_start monitor_new))"
    by (simp add: monitor_start_def accounts_def monitor_new_def)
  moreover have "packet_arena d = arena_new start 20480"
    using run by (auto simp: daemon_start_def Let_def split: prod.splits sum.splits option.splits)
  then have "arena_clear (packet_arena d)" by (simp add: arena_clear_def arena_new_def)
  ultimately have "explains l0 clk [] d"
    using l0(1) len by (simp add: explains_def ring_items_def ring_new_def stored_events_def)
  then show ?thesis using l0 by blast
qed

lemma logged_history:
  assumes "length buf = 1024" and "daemon_start m env buf start t0 clk boot = (Inr (demo, loop0, d0), k0)"
  obtains l0 where "node_limiter (secure_node d0) = Some l0"
    "unat (emission_interval_ns l0) = 200000000" "unat (tolerance_ns l0) = 400000000" "tat_ns l0 = 0"
    "\<And>hist loop k d. daemon_log fuel m (loop0, k0, d0) hist (loop, k, d) \<Longrightarrow> explains l0 clk hist d"
proof -
  obtain l0 where l0: "unat (emission_interval_ns l0) = 200000000" "unat (tolerance_ns l0) = 400000000"
      "tat_ns l0 = 0" "explains l0 clk [] d0"
    using start_explained [OF assms] by blast
  moreover have "explains l0 clk hist d" if "daemon_log fuel m (loop0, k0, d0) hist (loop, k, d)" for hist loop k d
    using log_explains [OF that, of l0 clk] l0(4) by simp
  moreover have "node_limiter (secure_node d0) = Some l0" using l0(4) by (simp add: explains_def)
  ultimately show thesis using that by blast
qed

text \<open>C3 The history of the daemon: every reachable state has a log of the well-formed packets that the sockets of its clients
  have delivered, and is what any such log requires: the limiter is the initial one charged for the packets in their order,
  the \<open>i\<close>-th at the reading \<open>2 i\<close> of the clock; the events of the packets that found room in the queue, each with its
  sender, its size, the limiter's decision and the reading \<open>2 i + 1\<close> as its time, are in this order the ones that
  the monitor's totals account for followed by the content of the queue; and the first 1024 packets find room.\<close>

theorem daemon_history:
  assumes "length buf = 1024" and "daemon_start m env buf start t0 clk boot = (Inr (demo, loop0, d0), k0)"
    and "daemon_reach fuel m (loop0, k0, d0) (loop, k, d)"
  shows "\<exists>l0. node_limiter (secure_node d0) = Some l0 \<and> unat (emission_interval_ns l0) = 200000000 \<and>
    unat (tolerance_ns l0) = 400000000 \<and> tat_ns l0 = 0 \<and>
    (\<exists>hist. daemon_log fuel m (loop0, k0, d0) hist (loop, k, d)) \<and>
    (\<forall>hist. daemon_log fuel m (loop0, k0, d0) hist (loop, k, d) \<longrightarrow>
       node_limiter (secure_node d) = Some (limiter_at l0 clk (length hist)) \<and>
       (\<exists>popped. stored_events l0 clk hist = popped @ ring_items (telemetry_queue d) \<and>
          accounts popped (fst (telemetry_monitor d))) \<and>
       (\<forall>i<length hist. i < 1024 \<longrightarrow> had_room (hist ! i)))"
proof -
  obtain l0 where l0: "node_limiter (secure_node d0) = Some l0" "unat (emission_interval_ns l0) = 200000000"
      "unat (tolerance_ns l0) = 400000000" "tat_ns l0 = 0"
    and ex: "\<And>hist loop k d. daemon_log fuel m (loop0, k0, d0) hist (loop, k, d) \<Longrightarrow> explains l0 clk hist d"
    using logged_history [OF assms(1,2), of fuel] by blast
  have "node_limiter (secure_node d) = Some (limiter_at l0 clk (length hist)) \<and>
       (\<exists>popped. stored_events l0 clk hist = popped @ ring_items (telemetry_queue d) \<and>
          accounts popped (fst (telemetry_monitor d))) \<and>
       (\<forall>i<length hist. i < 1024 \<longrightarrow> had_room (hist ! i))"
    if "daemon_log fuel m (loop0, k0, d0) hist (loop, k, d)" for hist
    using ex [OF that] unfolding explains_def by blast
  then show ?thesis using l0 reach_log [OF assms(3)] by blast
qed

section \<open>The limit in the totals\<close>

lemma gcra_run_snoc:
  "gcra_run l (ts @ [t]) =
     (fst (gcra_run l ts) @ [fst (gcra_atomic (snd (gcra_run l ts)) t)], snd (gcra_atomic (snd (gcra_run l ts)) t))"
  by (simp add: gcra_run_append gcra_run_Cons case_prod_beta)

lemma run_limiter:
  "gcra_run l0 (map (\<lambda>i. of_int (clk (2 * i))) [0..<n]) =
     (map (\<lambda>i. admits (limiter_at l0 clk i) (of_int (clk (2 * i)))) [0..<n], limiter_at l0 clk n)"
  by (induction n) (simp_all add: gcra_run_snoc gcra_atomic_spec)

lemma admitted_length: "length (admitted (map f xs) (map g xs)) = length (filter g xs)"
  by (induction xs) simp_all

lemma admitted_subset: "set (admitted ts oks) \<subseteq> set ts"
  by (auto simp: admitted_def dest: set_zip_leftD)

lemma delivered_stored:
  "length (delivered (stored_events l0 clk hist)) \<le>
     length (filter (\<lambda>i. admits (limiter_at l0 clk i) (of_int (clk (2 * i)))) [0..<length hist])"
proof -
  have "length (delivered (map (logged_event l0 clk hist) (filter P xs))) \<le>
      length (filter (\<lambda>i. admits (limiter_at l0 clk i) (of_int (clk (2 * i)))) xs)" for P xs
    by (induction xs) (simp_all add: logged_event_def expected_event_def)
  then show ?thesis by (simp add: stored_events_def)
qed

lemma explains_rate:
  assumes ex: "explains l0 clk hist d" and l0: "unat (emission_interval_ns l0) = 200000000"
      "unat (tolerance_ns l0) = 400000000"
    and clk: "mono clk" "0 \<le> clk 0" "steady d 0 < 2 ^ 63"
  shows "length (filter (\<lambda>i. admits (limiter_at l0 clk i) (of_int (clk (2 * i)))) [0..<length hist]) \<le>
    3 + nat (steady d 0 - clk 0) div 200000000"
proof -
  define ts :: "u64 list" where "ts = map (\<lambda>i. of_int (clk (2 * i))) [0..<length hist]"
  let ?ts = ts
  have steady: "steady d 0 = clk (2 * length hist)" using ex by (simp add: explains_def)
  have bound: "nat (clk 0) \<le> unat t \<and> unat t \<le> nat (steady d 0)" if "t \<in> set ?ts" for t
  proof -
    have "t \<in> (\<lambda>i. of_int (clk (2 * i))) ` {..<length hist}"
      using that unfolding ts_def by (simp add: atLeast0LessThan image_comp)
    then obtain i where i: "i < length hist" "t = of_int (clk (2 * i))" by auto
    have "clk 0 \<le> clk (2 * i)" "clk (2 * i) \<le> steady d 0"
      using clk(1) i(1) by (auto simp: steady intro: monoD)
    moreover from this have "unat t = nat (clk (2 * i))"
      using clk(2,3) unfolding i(2) by (simp add: unsigned_of_int take_bit_int_eq_self)
    ultimately show ?thesis by (simp add: nat_mono)
  qed
  have "clk 0 \<le> steady d 0" using clk(1) by (simp add: steady monoD)
  then have le: "nat (clk 0) \<le> nat (steady d 0)" by simp
  have "nat (steady d 0) < 2 ^ 63" using clk(3) by simp
  then have wrap: "no_wrap l0 (nat (steady d 0))" using l0 by (simp add: no_wrap_def)
  let ?adm = "admitted ?ts (fst (gcra_run l0 ?ts))"
  have "length ?adm * unat (emission_interval_ns l0) \<le>
      unat (emission_interval_ns l0) + (nat (steady d 0) - nat (clk 0)) + unat (tolerance_ns l0)"
  proof (rule gcra_window [OF wrap _ _ le])
    show "\<forall>t \<in> set ?ts. unat t \<le> nat (steady d 0)" using bound by blast
    show "\<forall>t \<in> set ?adm. nat (clk 0) \<le> unat t \<and> unat t \<le> nat (steady d 0)"
      using bound admitted_subset by blast
  qed
  then have "length ?adm * 200000000 \<le> 3 * 200000000 + (nat (steady d 0) - nat (clk 0))" by (simp add: l0)
  then have "length ?adm \<le> (3 * 200000000 + (nat (steady d 0) - nat (clk 0))) div 200000000"
    by (simp add: less_eq_div_iff_mult_less_eq)
  also have "\<dots> = 3 + (nat (steady d 0) - nat (clk 0)) div 200000000" by simp
  finally have "length ?adm \<le> 3 + (nat (steady d 0) - nat (clk 0)) div 200000000" .
  moreover have "nat (steady d 0 - clk 0) = nat (steady d 0) - nat (clk 0)" using clk(2) by (simp add: nat_diff_distrib')
  moreover have "length ?adm =
      length (filter (\<lambda>i. admits (limiter_at l0 clk i) (of_int (clk (2 * i)))) [0..<length hist])"
    unfolding ts_def run_limiter fst_conv by (rule admitted_length)
  ultimately show ?thesis by simp
qed

text \<open>C11 The limit holds for the daemon as a whole: however many clients send however many packets, those that the
  monitor's totals, or the events that still wait in the queue, report as delivered are at most three
  and one for every 200 milliseconds since the first reading of the clock.\<close>

theorem daemon_rate_limit:
  assumes "length buf = 1024" and "daemon_start m env buf start t0 clk boot = (Inr (demo, loop0, d0), k0)"
    and "daemon_reach fuel m (loop0, k0, d0) (loop, k, d)"
    and "mono clk" and "0 \<le> clk 0" and "steady d 0 < 2 ^ 63"
  shows "unat (cumulative_packets (fst (telemetry_monitor d)) - cumulative_dropped (fst (telemetry_monitor d))) +
      length (filter (\<lambda>e. \<not> dropped e) (ring_items (telemetry_queue d))) \<le>
    3 + nat (steady d 0 - clk 0) div 200000000"
proof -
  obtain l0 hist where l0: "unat (emission_interval_ns l0) = 200000000" "unat (tolerance_ns l0) = 400000000"
      and ex: "explains l0 clk hist d"
    using logged_history [OF assms(1,2), of fuel] reach_log [OF assms(3)] by metis
  obtain popped where popped: "stored_events l0 clk hist = popped @ ring_items (telemetry_queue d)"
    and acc: "accounts popped (fst (telemetry_monitor d))"
    using ex unfolding explains_def by blast
  have "length (delivered popped) \<le> length popped" by simp
  then have "cumulative_packets (fst (telemetry_monitor d)) - cumulative_dropped (fst (telemetry_monitor d)) =
      of_nat (length (delivered popped))"
    using acc by (simp add: accounts_def of_nat_diff)
  then have "unat (cumulative_packets (fst (telemetry_monitor d)) - cumulative_dropped (fst (telemetry_monitor d))) \<le>
      length (delivered popped)"
    by (simp add: unat_of_nat)
  moreover have "length (delivered popped) + length (delivered (ring_items (telemetry_queue d))) =
      length (delivered (stored_events l0 clk hist))"
    by (simp add: popped)
  ultimately show ?thesis
    using delivered_stored [of l0 clk hist] explains_rate [OF ex l0 assms(4-6)] by linarith
qed

text \<open>The first client is accepted and sends one packet.\<close>

lemma sim_logged:
  "logged sim_machine OnClient 5 (sim_serving, sim_kernel_at [5, 4, 3] [5, 3] [(5, [sim_request])] [], sim_served) =
     [\<lparr>sent_by = 5, sent_body = sim_wire, had_room = True\<rparr>]"
proof -
  obtain sim where "parse_chunk (allocator sim_machine) sim_request (ctx_parser sim_context) = Inr (True, sim)"
    "req_body (request sim) = sim_wire"
    "deserialize (little_endian sim_machine) (req_body (request sim)) = Inr sample_packet"
    using sim_request_parsed .
  moreover have "length (ring_items (telemetry_queue sim_served)) < 1024" by (simp only: sim_queue list.size)
  moreover have "conn_socket (ctx_connection sim_context) = 5" "is_valid 5"
    by (simp_all add: sim_context_def is_valid_def)
  ultimately show ?thesis
    using sim_request_received by (simp add: logged_def packet_arrival_def sim_served_ok(1) del: length_ring_items)
qed

lemma sim_log:
  "\<exists>k d. daemon_log 2 sim_machine (sim_loop, sim_kernel_at [4, 3] [3] [] [[[sim_request]]], sim_daemon)
     [\<lparr>sent_by = 5, sent_body = sim_wire, had_room = True\<rparr>] (sim_serving, k, d)"
proof -
  let ?w0 = "(sim_loop, sim_kernel_at [4, 3] [3] [] [[[sim_request]]], sim_daemon)"
  let ?k1 = "\<lparr>open_fds = [4, 3], watched = [3], pending = [[sim_request]], inbox = [], arrivals = []\<rparr>"
  let ?w2 = "(sim_serving, sim_kernel_at [5, 4, 3] [5, 3] [(5, [sim_request])] [], sim_served)"
  have "snd (sys_epoll_wait (epoll sim_machine) 10 500 (sim_kernel_at [4, 3] [3] [] [[[sim_request]]])) = ?k1"
    by (simp add: sim_epoll_def sim_kernel_at_def)
  with daemon_log.log_wait [OF daemon_log.log_start, of 2 sim_machine "fst ?w0" "fst (snd ?w0)" "snd (snd ?w0)" 10 500]
  have 1: "daemon_log 2 sim_machine ?w0 [] (sim_loop, ?k1, sim_daemon)" by simp
  have "callbacks (fst (sim_loop, ?k1, sim_daemon)) 3 = Some OnAccept" by (simp add: sim_loop_def)
  from daemon_log.log_callback [OF 1 this, of 0 "()" ?w2]
  have 2: "daemon_log 2 sim_machine ?w0 [] ?w2"
    by (simp add: sim_accept logged_def packet_arrival_def)
  obtain sim where sim: "parse_chunk (allocator sim_machine) sim_request (ctx_parser sim_context) = Inr (True, sim)"
    and de: "deserialize (little_endian sim_machine) (req_body (request sim)) = Inr sample_packet"
    using sim_request_parsed .
  obtain k d where run: "on_client sim_machine 5 ?w2 = (Inr (), sim_serving, k, d)"
    using served [OF sim_served_ok(1) sim_context_ok sim_served_ok(2,3) sim_request_received sim]
    unfolding de sum.case by blast
  have "callbacks (fst ?w2) 5 = Some OnClient" by (simp add: sim_serving_def)
  from daemon_log.log_callback [OF 2 this, of 0 "()" "(sim_serving, k, d)"] run
  show ?thesis unfolding sim_logged by auto
qed

lemma daemon_history_witness:
  "\<exists>(d :: daemon) popped. popped @ ring_items (telemetry_queue d) = [sim_event] \<and> accounts popped (fst (telemetry_monitor d))"
proof -
  have len: "length (replicate 1024 blank_event) = 1024" by simp
  let ?log = "[\<lparr>sent_by = 5, sent_body = sim_wire, had_room = True\<rparr>]"
  obtain k d where log: "daemon_log 2 sim_machine (sim_loop, sim_kernel_at [4, 3] [3] [] [[[sim_request]]], sim_daemon)
      ?log (sim_serving, k, d)"
    using sim_log by blast
  have first: "node_limiter (secure_node sim_daemon) = Some sim_limiter_new"
    by (simp add: sim_daemon_def sim_limiter_new_def)
  from daemon_history [OF len sim_start log_reach [OF log]] log
  obtain popped where popped: "stored_events sim_limiter_new (\<lambda>n. 1000 + int n) ?log = popped @ ring_items (telemetry_queue d)"
      "accounts popped (fst (telemetry_monitor d))"
    unfolding first option.inject by metis
  have "stored_events sim_limiter_new (\<lambda>n. 1000 + int n) ?log = [sim_event]"
  proof -
    have "logged_event sim_limiter_new (\<lambda>n. 1000 + int n) ?log 0 = sim_event"
      unfolding sim_event [symmetric] by (simp add: logged_event_def)
    moreover have "[0..<length ?log] = [0]" by simp
    ultimately show ?thesis by (simp only: stored_events_def) simp
  qed
  then have "popped @ ring_items (telemetry_queue d) = [sim_event]" unfolding popped(1) .
  with popped(2) show ?thesis by blast
qed

lemma daemon_rate_limit_witness:
  "length (filter (\<lambda>e. \<not> dropped e) (ring_items (telemetry_queue sim_served))) \<le> 3"
proof -
  have len: "length (replicate 1024 blank_event) = 1024" by simp
  have clk: "mono (\<lambda>n. 1000 + int n)" by (simp add: mono_def)
  have first: "steady sim_served 0 = 1000" by (simp add: sim_served_def sim_daemon_def)
  note reach = daemon_reach_poll [OF daemon_reach.start sim_first_poll]
  from daemon_rate_limit [OF len sim_start reach clk] show ?thesis by (simp add: first)
qed

section \<open>From a request to the totals\<close>

lemma count_events:
  "cumulative_packets (fold count_event es m) = cumulative_packets m + of_nat (length es) \<and>
   cumulative_dropped (fold count_event es m) = cumulative_dropped m + of_nat (length (filter dropped es)) \<and>
   total_bytes (stats (fold count_event es m)) = total_bytes (stats m) \<and>
   cumulative_bytes (fold count_event es m) = cumulative_bytes m + sum_bytes es"
  by (induction es arbitrary: m) (simp_all add: count_event_def Let_def)

lemma tick_publishes:
  assumes "ring_ok (telemetry_queue d)" and "100 \<le> to_milliseconds (now - snd (telemetry_monitor d))"
  shows "let m = fst (telemetry_monitor d); es = ring_items (telemetry_queue d);
             published = get_latest_metrics (fst (telemetry_monitor (monitor_tick now d)))
    in total_packets published = cumulative_packets m + of_nat (length es) \<and>
       dropped_packets published = cumulative_dropped m + of_nat (length (filter dropped es)) \<and>
       total_bytes published = total_bytes (stats m) + cumulative_bytes m + sum_bytes es"
proof -
  let ?q = "telemetry_queue d"
  obtain es q where d: "drain (Suc (length (buffer ?q))) ?q = (es, q)" by fastforce
  have "length (ring_items ?q) < Suc (length (buffer ?q))" using ring.bounded [OF assms(1)] by simp
  then have es: "es = ring_items ?q" using drain_items [OF assms(1)] d by fastforce
  have "get_latest_metrics (fst (telemetry_monitor (monitor_tick now d))) =
      stats (publish_stats (to_milliseconds (now - snd (telemetry_monitor d)))
        (fold count_event es (fst (telemetry_monitor d))))"
    using assms(2)
    by (simp add: monitor_tick_def d monitor_round_def get_latest_metrics_def case_prod_beta Let_def del: drain.simps)
  then show ?thesis
    using count_events [of es "fst (telemetry_monitor d)"] unfolding es Let_def
    by (simp add: publish_stats_def Let_def)
qed

text \<open>C12 From a client to the statistics: the packet of a complete request that finds room in the queue is in the
  published totals after the monitor's next round 100 milliseconds or more behind its last publication: one
  packet more, dropped when the limiter refused it, and otherwise with all bytes of the body.\<close>

theorem packet_reaches_totals:
  assumes "active_connections d fd = Some ctx" and "context_ok loop fd ctx"
    and "arena_clear (packet_arena d)" and "node_limiter (secure_node d) = Some l"
    and "sys_recv (sockets m) fd 2048 k = (Inr bytes, k1)" and "bytes \<noteq> []"
    and "parse_chunk (allocator m) bytes (ctx_parser ctx) = Inr (True, sim)"
    and "deserialize (little_endian m) (req_body (request sim)) = Inr pkt"
    and "ring_ok (telemetry_queue d)" and "length (ring_items (telemetry_queue d)) < length (buffer (telemetry_queue d))"
    and "100 \<le> to_milliseconds (now - snd (telemetry_monitor d))"
    and "on_client m fd (loop, k, d) = (r, loop', k', d')"
  shows "let mon = fst (telemetry_monitor d); es = ring_items (telemetry_queue d);
             published = get_latest_metrics (fst (telemetry_monitor (monitor_tick now d')));
             ok = fst (gcra_allow 0 l (of_int (clock_now (steady d))))
    in r = Inr () \<and>
       total_packets published = cumulative_packets mon + of_nat (length es) + 1 \<and>
       dropped_packets published =
         cumulative_dropped mon + of_nat (length (filter dropped es)) + (if ok then 0 else 1) \<and>
       total_bytes published = total_bytes (stats mon) + cumulative_bytes mon + sum_bytes es +
         (if ok then ucast (of_nat (length (req_body (request sim))) :: u32) else 0)"
proof -
  let ?body = "req_body (request sim)" and ?q = "telemetry_queue d"
  let ?e = "packet_event l d fd ?body"
  have d': "r = Inr ()" "d' = (after_packet l fd ?body d)
      \<lparr>active_connections := (active_connections d)(fd \<mapsto> ctx\<lparr>ctx_parser := http_new\<rparr>)\<rparr>"
    using served [OF assms(1-7)] assms(12) by (auto simp: assms(8))
  have tele: "telemetry_monitor d' = telemetry_monitor d" "telemetry_queue d' = snd (ring_push ?e ?q)"
    by (simp_all add: d'(2) after_packet_def)
  have push: "ring_ok (snd (ring_push ?e ?q))" "ring_items (snd (ring_push ?e ?q)) = ring_items ?q @ [?e]"
    using ring.enq_law [OF assms(9), of ?e] assms(10) by simp_all
  have e: "dropped ?e \<longleftrightarrow> \<not> verdict l d" "\<not> dropped ?e \<Longrightarrow> packet_size ?e = of_nat (length ?body)"
    by (auto simp: packet_event_def expected_event_def)
  have ok: "verdict l d = fst (gcra_allow 0 l (of_int (clock_now (steady d))))"
    by (simp add: verdict_def gcra_allow_atomic gcra_atomic_spec clock_now_def)
  show ?thesis
    using tick_publishes [of d' now] assms(11) push e
    unfolding tele Let_def ok [symmetric] by (simp add: d'(1))
qed

lemma packet_reaches_totals_witness:
  "\<exists>d'. total_packets (get_latest_metrics (fst (telemetry_monitor (monitor_tick 100000000 d')))) = 1 \<and>
    snd (snd (snd (on_client sim_machine 5
      (sim_serving, sim_kernel_at [5, 4, 3] [5, 3] [(5, [sim_request])] [], sim_served)))) = d'"
proof -
  let ?w = "(sim_serving, sim_kernel_at [5, 4, 3] [5, 3] [(5, [sim_request])] [], sim_served)"
  obtain r loop' k' d' where run: "on_client sim_machine 5 ?w = (r, loop', k', d')"
    by (metis prod_cases4)
  obtain sim where sim: "parse_chunk (allocator sim_machine) sim_request (ctx_parser sim_context) = Inr (True, sim)"
    and de: "deserialize (little_endian sim_machine) (req_body (request sim)) = Inr sample_packet"
    using sim_request_parsed .
  have room: "length (ring_items (telemetry_queue sim_served)) < length (buffer (telemetry_queue sim_served))"
    by (simp add: sim_queue)
  have mon: "telemetry_monitor sim_served = (monitor_new\<lparr>running := True\<rparr>, 0)"
    by (simp add: sim_served_def sim_daemon_def)
  have due: "100 \<le> to_milliseconds (100000000 - snd (telemetry_monitor sim_served))"
    by (simp add: mon to_milliseconds_def trunc_div_def)
  from packet_reaches_totals [OF sim_served_ok(1) sim_context_ok sim_served_ok(2,3) sim_request_received sim de
      sim_queue(1) room due run]
  have "total_packets (get_latest_metrics (fst (telemetry_monitor (monitor_tick 100000000 d')))) =
      cumulative_packets (fst (telemetry_monitor sim_served)) + 0 + 1"
    unfolding Let_def by (simp add: sim_queue)
  then show ?thesis using run by (simp add: mon monitor_new_def)
qed

end
