(* ===== verification/DemoTraffic.thy ===== *)
theory DemoTraffic
  imports Daemon
begin

text \<open>
  The publisher of demonstration traffic in \<^verbatim>\<open>src/main/core_engine.cpp\<close> (\<open>run_demo_traffic_publisher\<close>): the
  three samples of a tick, the rounds of its endless loop, and the lines that it reports, without the
  pauses. It runs in a thread of its own and shares only the immutable telemetry client with the daemon. The facts:
  the arithmetic on \<open>double\<close> is exact, so every sample is given by a closed form with a congestion
  window of nine ticks in every eighteen; each sample's text is a JSON object; and no round leaks a descriptor.
\<close>

section \<open>Definitions\<close>

text \<open>\<open>current_timestamp_us\<close>, for a reading of the system clock in nanoseconds.\<close>

definition current_timestamp_us :: "int \<Rightarrow> u64" where
  "current_timestamp_us ns = of_int (trunc_div ns 1000)"

definition double_of_u32 :: "u32 \<Rightarrow> double" where
  "double_of_u32 w = double_of_nat (unat w)"

definition congestion_window :: "u32 \<Rightarrow> bool" where
  "congestion_window tick \<longleftrightarrow> 9 \<le> tick mod 18"

text \<open>The three samples, with the three readings of the clock.\<close>

definition demo_samples :: "u32 \<Rightarrow> int \<Rightarrow> int \<Rightarrow> int \<Rightarrow> telemetry_sample list" where
  "demo_samples tick t1 t2 t3 =
     (let congestion = congestion_window tick;
          router_b_c_latency =
            (if congestion then f_add (Finite 430) (f_mul (double_of_u32 (tick mod 3)) (Finite 35))
             else Finite 145);
          router_b_c_drops = (if congestion then 3 else 0);
          router_b_c_throughput = (if congestion then Finite 480 else Finite 1250)
      in [\<lparr>s_timestamp_us = current_timestamp_us t1, s_source_node = ''RouterA'',
           s_dest_node = ''RouterB'', s_packet_size = 1000,
           s_latency_ns = f_add (Finite 125) (f_mul (double_of_u32 (tick mod 4)) (Finite 4)),
           s_dropped_packets = 0, s_throughput_kbps = Finite 1320\<rparr>,
          \<lparr>s_timestamp_us = current_timestamp_us t2, s_source_node = ''RouterB'',
           s_dest_node = ''RouterC'', s_packet_size = (if congestion then 760 else 1000),
           s_latency_ns = router_b_c_latency, s_dropped_packets = router_b_c_drops,
           s_throughput_kbps = router_b_c_throughput\<rparr>,
          \<lparr>s_timestamp_us = current_timestamp_us t3, s_source_node = ''RouterA'',
           s_dest_node = ''RouterC'', s_packet_size = 1000,
           s_latency_ns = (if congestion then Finite 165 else Finite 118), s_dropped_packets = 0,
           s_throughput_kbps = (if congestion then Finite 1420 else Finite 1180)\<rparr>])"

datatype demo_line = Published string string double u32 | WaitingFor string

text \<open>The loop over the samples, with the lines it reports.\<close>

fun demo_publish ::
    "('a, 'k) machine \<Rightarrow> telemetry_http_client option \<Rightarrow> u32 \<Rightarrow> telemetry_sample list \<Rightarrow> 'k
      \<Rightarrow> demo_line list \<times> 'k" where
  "demo_publish m client tick [] k = ([], k)"
| "demo_publish m client tick (sample # samples) k =
     (let (published, k) =
            (case client of
               None \<Rightarrow> (False, k)
             | Some c \<Rightarrow> post_sample (sockets m) (network m) (client_endpoint c) sample k);
          line =
            (if published then
               [Published (s_source_node sample) (s_dest_node sample) (s_latency_ns sample)
                  (s_dropped_packets sample)]
             else if tick mod 5 = 0 then
               [WaitingFor (case client of None \<Rightarrow> ''unconfigured endpoint'' | Some c \<Rightarrow> endpoint_url c)]
             else []);
          (lines, k) = demo_publish m client tick samples k
      in (line @ lines, k))"

text \<open>The first \<open>n\<close> rounds of the endless loop, from the tick \<open>tick\<close>; \<open>clk\<close> has the readings of the system
  clock.\<close>

fun demo_rounds ::
    "('a, 'k) machine \<Rightarrow> telemetry_http_client option \<Rightarrow> nat \<Rightarrow> u32 \<Rightarrow> clock \<Rightarrow> 'k
      \<Rightarrow> demo_line list \<times> 'k" where
  "demo_rounds m client 0 tick clk k = ([], k)"
| "demo_rounds m client (Suc n) tick clk k =
     (let (lines, k) = demo_publish m client tick (demo_samples tick (clk 0) (clk 1) (clk 2)) k;
          (more, k) = demo_rounds m client n (tick + 1) (\<lambda>i. clk (i + 3)) k
      in (lines @ more, k))"

section \<open>The samples\<close>

lemma unat_mod_small:
  assumes "0 < unat n"
  shows "unat (tick mod n) < unat n"
  using assms by (simp add: unat_mod)

lemma double_of_u32_exact: "double_of_u32 w = Finite (of_nat (unat w))"
proof -
  have "unat w < 2 ^ 32" using unsigned_less [of w] by simp
  then have "unat w < 2 ^ 53" by (rule less_le_trans) simp
  then show ?thesis by (simp only: double_of_u32_def double_of_nat_exact)
qed

text \<open>A sum and a product of small natural numbers.\<close>

lemma exact_step:
  assumes "n < 1000" and "a < 1000" and "b < 1000"
  shows "f_add (Finite (of_nat a)) (f_mul (Finite (of_nat n)) (Finite (of_nat b))) = Finite (of_nat (a + n * b))"
proof -
  have "n * b \<le> 1000 * 1000" using assms by (intro mult_mono) simp_all
  then have small: "n * b < 2 ^ 53" "a + n * b < 2 ^ 53" using assms(2) by simp_all
  have "f_mul (Finite (of_nat n)) (Finite (of_nat b)) = Finite (of_nat (n * b))"
    using round_binary64_nat [OF small(1)] by simp
  then show ?thesis using round_binary64_nat [OF small(2)] by simp
qed

lemma demo_latency:
  assumes "k \<in> {3, 4}"
  shows "f_add (Finite 430) (f_mul (double_of_u32 (tick mod k)) (Finite 35)) =
      Finite (of_nat (430 + unat (tick mod k) * 35))"
    and "f_add (Finite 125) (f_mul (double_of_u32 (tick mod k)) (Finite 4)) =
      Finite (of_nat (125 + unat (tick mod k) * 4))"
proof -
  have "unat k < 5" "0 < unat k" using assms by auto
  then have "unat (tick mod k) < 1000" using unat_mod_small [of k tick] by linarith
  from exact_step [OF this, of 430 35] exact_step [OF this, of 125 4]
  show "f_add (Finite 430) (f_mul (double_of_u32 (tick mod k)) (Finite 35)) =
      Finite (of_nat (430 + unat (tick mod k) * 35))"
    "f_add (Finite 125) (f_mul (double_of_u32 (tick mod k)) (Finite 4)) =
      Finite (of_nat (125 + unat (tick mod k) * 4))"
    by (simp_all add: double_of_u32_exact)
qed

lemma timestamp_closed: "current_timestamp_us t = of_int (sgn t * (\<bar>t\<bar> div 1000))"
  by (simp add: current_timestamp_us_def trunc_div_def sgn_if)

text \<open>C36 The scenario, sample by sample and member by member: no rounding happens; on nine ticks of every eighteen the
  link from B to C is congested, with 430, 465 or 500 nanoseconds, packets of 760 bytes instead of 1000, three drops
  and 480 kbit/s instead of 1250; the link from A to C then takes over traffic, with 165 nanoseconds and 1420 kbit/s
  instead of 118 and 1180; the latency from A to B cycles through 125, 129, 133 and 137; each sample is
  stamped with its own reading of the clock, in whole microseconds towards zero.\<close>

theorem demo_samples_exact:
  "demo_samples tick t1 t2 t3 =
     (let n = unat tick; quiet = (n mod 18 < 9) in
      [\<lparr>s_timestamp_us = of_int (sgn t1 * (\<bar>t1\<bar> div 1000)), s_source_node = ''RouterA'', s_dest_node = ''RouterB'',
         s_packet_size = 1000, s_latency_ns = Finite (of_nat (125 + 4 * (n mod 4))), s_dropped_packets = 0,
         s_throughput_kbps = Finite 1320\<rparr>,
       \<lparr>s_timestamp_us = of_int (sgn t2 * (\<bar>t2\<bar> div 1000)), s_source_node = ''RouterB'', s_dest_node = ''RouterC'',
         s_packet_size = (if quiet then 1000 else 760),
         s_latency_ns = Finite (if quiet then 145 else of_nat (430 + 35 * (n mod 3))),
         s_dropped_packets = (if quiet then 0 else 3),
         s_throughput_kbps = Finite (if quiet then 1250 else 480)\<rparr>,
       \<lparr>s_timestamp_us = of_int (sgn t3 * (\<bar>t3\<bar> div 1000)), s_source_node = ''RouterA'', s_dest_node = ''RouterC'',
         s_packet_size = 1000, s_latency_ns = Finite (if quiet then 118 else 165), s_dropped_packets = 0,
         s_throughput_kbps = Finite (if quiet then 1180 else 1420)\<rparr>])"
proof -
  have w: "congestion_window tick \<longleftrightarrow> \<not> unat tick mod 18 < 9"
    by (simp add: congestion_window_def word_le_nat_alt unat_mod not_less)
  show ?thesis
    by (simp add: demo_samples_def w demo_latency Let_def unat_mod mult.commute timestamp_closed)
qed

text \<open>What the service receives.\<close>

lemma demo_sample_json:
  assumes "sample \<in> set (demo_samples tick t1 t2 t3)"
  shows "\<exists>members. read_object (to_json sample) = Some (members, []) \<and> length members = 7"
proof -
  have "list_all json_char (s_source_node sample)" "list_all json_char (s_dest_node sample)"
    "\<exists>a. s_latency_ns sample = Finite a" "\<exists>b. s_throughput_kbps sample = Finite b"
    using assms by (auto simp: demo_samples_def demo_latency Let_def json_char_def split: if_splits)
  then show ?thesis using read_to_json [of sample _ _ "[]"] by fastforce
qed

section \<open>The rounds\<close>

lemma demo_publish_fds:
  assumes "descriptors_spec (sockets m) fds" and "net_spec (sockets m) (network m) fds"
  shows "fds (snd (demo_publish m client tick samples k)) = fds k"
proof (induction samples arbitrary: k)
  case (Cons s samples)
  obtain p k1 where 1: "(case client of None \<Rightarrow> (False, k)
      | Some c \<Rightarrow> post_sample (sockets m) (network m) (client_endpoint c) s k) = (p, k1)" by fastforce
  have "fds k1 = fds k"
    using post_sample_fds [OF assms] 1 by (cases client) (auto simp: prod_eq_iff)
  with Cons.IH [of k1] show ?case by (simp add: 1 case_prod_beta)
qed simp

text \<open>However many rounds the publisher has done and whatever happened to its requests, it holds no descriptor
  between two rounds.\<close>

theorem demo_rounds_closed:
  assumes "descriptors_spec (sockets m) fds" and "net_spec (sockets m) (network m) fds"
  shows "fds (snd (demo_rounds m client n tick clk k)) = fds k"
proof (induction n arbitrary: tick clk k)
  case (Suc n)
  show ?case
    using Suc.IH demo_publish_fds [OF assms] by (simp add: case_prod_beta)
qed simp

text \<open>While the service cannot be reached, it is reported on every fifth tick only, three times.\<close>

lemma demo_publish_down:
  assumes "\<And>sample k. fst (post_sample (sockets m) (network m) (client_endpoint c) sample k) = False"
  shows "fst (demo_publish m (Some c) tick samples k) =
    (if tick mod 5 = 0 then replicate (length samples) (WaitingFor (endpoint_url c)) else [])"
proof (induction samples arbitrary: k)
  case (Cons s samples)
  obtain k1 where "post_sample (sockets m) (network m) (client_endpoint c) s k = (False, k1)"
    using assms [of s k] by (metis prod.collapse)
  with Cons.IH [of k1] show ?case by (simp add: case_prod_beta)
qed simp

theorem demo_outage:
  assumes "\<And>sample k. fst (post_sample (sockets m) (network m) (client_endpoint c) sample k) = False"
  shows "fst (demo_rounds m (Some c) n tick clk k) =
    concat (map (\<lambda>i. if (tick + of_nat i) mod 5 = 0 then replicate 3 (WaitingFor (endpoint_url c)) else []) [0..<n])"
proof (induction n arbitrary: tick clk k)
  case (Suc n)
  let ?line = "\<lambda>t. if t mod 5 = 0 then replicate 3 (WaitingFor (endpoint_url c)) else []"
  let ?samples = "demo_samples tick (clk 0) (clk 1) (clk 2)"
  have len: "length ?samples = 3" by (simp add: demo_samples_def Let_def)
  have "fst (demo_publish m (Some c) tick ?samples k) = ?line tick"
    using demo_publish_down [OF assms, of tick ?samples k] by (simp only: len)
  then have "fst (demo_rounds m (Some c) (Suc n) tick clk k) =
      ?line tick @ concat (map (\<lambda>i. ?line (tick + 1 + of_nat i)) [0..<n])"
    using Suc.IH by (simp add: case_prod_beta)
  also have "\<dots> = concat (map (\<lambda>i. ?line (tick + of_nat i)) [0..<Suc n])"
    by (simp add: upt_conv_Cons map_Suc_upt [symmetric] ac_simps comp_def del: upt_Suc)
  finally show ?case .
qed simp

end
