(* ===== verification/QueueBenchmark.thy ===== *)
theory QueueBenchmark
  imports Monitor
begin

text \<open>
  The benchmark of the telemetry queue, \<^verbatim>\<open>src/tools/portfolio/telemetry_queue_benchmark.cpp\<close>: one thread that pushes
  an event and drains the queue until a number of events has passed through it. Both loops may run
  for ever as far as their text goes, so they are partial functions whose value \<open>None\<close> means no
  return; the fact is that they return with equal counters and an empty queue. The formatted output is left out.
\<close>

section \<open>Definitions\<close>

text \<open>The inner loop: \<open>pop\<close> until the empty answer, counting.\<close>

partial_function (option) pop_all :: "'a ring \<Rightarrow> u32 \<Rightarrow> ('a ring \<times> u32) option" where
  "pop_all q consumed =
     (case ring_pop q of
        (None, q) \<Rightarrow> Some (q, consumed)
      | (Some _, q) \<Rightarrow> pop_all q (consumed + 1))"

definition try_push :: "u32 \<Rightarrow> 'a \<Rightarrow> 'a ring \<Rightarrow> u32 \<Rightarrow> 'a ring \<times> u32" where
  "try_push total_events event q produced =
     (if produced < total_events then
        (case ring_push event q of
           (True, q) \<Rightarrow> (q, produced + 1)
         | (False, q) \<Rightarrow> (q, produced))
      else (q, produced))"

partial_function (option) bench_loop ::
    "u32 \<Rightarrow> 'a \<Rightarrow> 'a ring \<Rightarrow> u32 \<Rightarrow> u32 \<Rightarrow> ('a ring \<times> u32 \<times> u32) option" where
  "bench_loop total_events event q produced consumed =
     (if consumed < total_events then
        (let (q, produced) = try_push total_events event q produced in
         case pop_all q consumed of
           None \<Rightarrow> None
         | Some (q, consumed) \<Rightarrow> bench_loop total_events event q produced consumed)
      else Some (q, produced, consumed))"

definition bench_event :: metric_event where
  "bench_event =
     \<lparr>timestamp_us = 0, source_node = ''RouterA'', dest_node = ''RouterB'', packet_size = 1000,
      latency_ns = 150, dropped = False\<rparr>"

text \<open>\<open>main\<close>, with the two readings of the clock: the counters, the elapsed seconds and the events per
  second.\<close>

definition queue_benchmark ::
    "metric_event list \<Rightarrow> int \<Rightarrow> int \<Rightarrow> (u32 \<times> u32 \<times> double \<times> double) option" where
  "queue_benchmark buf start finish =
     (case bench_loop 1000000 bench_event (ring_new buf) 0 0 of
        None \<Rightarrow> None
      | Some (_, produced, consumed) \<Rightarrow>
          (let elapsed_seconds = f_div (round_binary64 (of_int (finish - start))) (Finite 1000000000);
               events_per_second = f_div (double_of_nat 1000000) elapsed_seconds
           in Some (produced, consumed, elapsed_seconds, events_per_second)))"

section \<open>The benchmark returns\<close>

lemma pop_all_items:
  assumes "ring_ok q"
  shows "\<exists>q'. pop_all q c = Some (q', c + of_nat (length (ring_items q))) \<and> ring_ok q' \<and>
    ring_items q' = [] \<and> length (buffer q') = length (buffer q)"
  using assms
proof (induction "length (ring_items q)" arbitrary: q c rule: less_induct)
  case less
  obtain r q' where pop: "ring_pop q = (r, q')" by fastforce
  have step: "ring_ok q'" "length (buffer q') = length (buffer q)"
    "(Popped r, ring_items q') = fifo_step (length (buffer q)) Pop (ring_items q)"
    using ring.deq_law [OF less.prems] by (simp_all add: pop)
  show ?case
  proof (cases "ring_items q")
    case Nil
    then show ?thesis using step by (subst pop_all.simps) (simp add: pop)
  next
    case (Cons x xs)
    then have "r = Some x" "ring_items q' = xs" using step(3) by simp_all
    moreover obtain q'' where "pop_all q' (c + 1) = Some (q'', c + 1 + of_nat (length (ring_items q')))"
      "ring_ok q''" "ring_items q'' = []" "length (buffer q'') = length (buffer q')"
      using less.hyps [of q' "c + 1"] step(1) Cons calculation by auto
    ultimately show ?thesis
      using step(2) Cons by (subst pop_all.simps) (auto simp: pop algebra_simps)
  qed
qed

text \<open>One round on an empty queue moves one event through it.\<close>

lemma bench_round:
  assumes "ring_ok q" and "ring_items q = []" and "n < total_events"
  shows "\<exists>q' q''. try_push total_events event q n = (q', n + 1) \<and> pop_all q' n = Some (q'', n + 1) \<and>
    ring_ok q'' \<and> ring_items q'' = []"
proof -
  obtain b q' where push: "ring_push event q = (b, q')" by fastforce
  have "0 < length (buffer q)" using assms(1) by (auto simp: ring_ok_def)
  then have step: "ring_ok q'" "b" "ring_items q' = [event]"
    using ring.enq_law [OF assms(1), of event] assms(2) by (simp_all add: push)
  then show ?thesis
    using pop_all_items [OF step(1), of n] assms(3) by (auto simp: try_push_def push)
qed

lemma bench_loop_from:
  assumes "ring_ok q" and "ring_items q = []" and "n \<le> total_events"
  shows "\<exists>q'. bench_loop total_events event q n n = Some (q', total_events, total_events) \<and> ring_items q' = []"
  using assms
proof (induction "unat total_events - unat n" arbitrary: q n rule: less_induct)
  case less
  show ?case
  proof (cases "n < total_events")
    case False
    then have "n = total_events" using less.prems(3) by simp
    then show ?thesis using less.prems(2) by (subst bench_loop.simps) simp
  next
    case True
    obtain q1 q2 where round: "try_push total_events event q n = (q1, n + 1)" "pop_all q1 n = Some (q2, n + 1)"
      "ring_ok q2" "ring_items q2 = []"
      using bench_round [OF less.prems(1,2) True] by blast
    have s: "unat (n + 1) = unat n + 1" by (rule unat_Suc_less [OF True])
    then have "unat total_events - unat (n + 1) < unat total_events - unat n" "n + 1 \<le> total_events"
      using True by (simp_all add: word_less_nat_alt word_le_nat_alt)
    then obtain q' where "bench_loop total_events event q2 (n + 1) (n + 1) = Some (q', total_events, total_events)"
      "ring_items q' = []"
      using less.hyps round(3,4) by blast
    then show ?thesis using True by (subst bench_loop.simps) (simp add: round(1,2))
  qed
qed

text \<open>C30 The benchmark ends, for every number of events and every event, having pushed and popped each of them
  exactly once, with nothing left in the queue.\<close>

theorem bench_loop_returns:
  assumes "ring_ok (ring_new buf)"
  shows "\<exists>q. bench_loop total_events event (ring_new buf) 0 0 = Some (q, total_events, total_events) \<and> ring_items q = []"
  using bench_loop_from [OF assms, of 0 total_events] by (simp add: ring_items_def ring_new_def)

lemma bench_loop_returns_witness:
  "\<exists>q. bench_loop 1000000 bench_event (ring_new (replicate 1024 bench_event)) 0 0 =
    Some (q, 1000000, 1000000) \<and> ring_items q = []"
proof (rule bench_loop_returns)
  have "length (replicate 1024 bench_event) = 2 ^ 10" by simp
  then show "ring_ok (ring_new (replicate 1024 bench_event))"
    unfolding ring_ok_def ring_new_def by (intro conjI exI [of _ 10]) simp_all
qed

end
