(* ===== verification/SelfTest.thy ===== *)
theory SelfTest
  imports Daemon Router Arp Backoff
begin

text \<open>
  The self test \<^verbatim>\<open>src/main/controller.cpp\<close>: every test function over the models of the components that it
  exercises, and \<open>main\<close>. An assertion is an error value with its line; the flag \<open>checked\<close> tells
  whether assertions are compiled (they are not when \<open>NDEBUG\<close> is defined, as in a release build, and
  then the calls inside them do not happen either). Clocks, the byte order, the hash order, the kernel, the random
  generator and the monitor's schedule are parameters. Console output and pauses are left out; a pause shows in
  the readings of the clock.
\<close>

section \<open>Outcomes\<close>

datatype test_fault =
    AssertionFailed nat
  | AddressException addr_error
  | PacketException packet_error
  | CacheException arp_error
  | ArenaException arena_error
  | ParserException http_exception
  | SystemException net_error
  | MissingKey
  | UndefinedBehaviour

type_synonym test_result = "test_fault + unit"

definition asserting :: "bool \<Rightarrow> nat \<Rightarrow> bool \<Rightarrow> test_fault + 'a \<Rightarrow> test_fault + 'a" where
  "asserting checked line b rest = (if checked \<and> \<not> b then Inl (AssertionFailed line) else rest)"

definition attempt :: "('e \<Rightarrow> test_fault) \<Rightarrow> 'e + 'a \<Rightarrow> ('a \<Rightarrow> test_fault + 'b) \<Rightarrow> test_fault + 'b" where
  "attempt exc r rest = (case r of Inl e \<Rightarrow> Inl (exc e) | Inr x \<Rightarrow> rest x)"

lemma attempt_simps [simp]:
  "attempt exc (Inl e) rest = Inl (exc e)" "attempt exc (Inr x) rest = rest x"
  by (simp_all add: attempt_def)

lemma asserting_holds [simp]: "b \<Longrightarrow> asserting checked line b rest = rest"
  by (simp add: asserting_def)

section \<open>Phases 2 to 5\<close>

definition test_packet_codec :: "bool \<Rightarrow> bool \<Rightarrow> test_result" where
  "test_packet_codec checked le =
     attempt PacketException (packet_of_vector 0 (map byte_of_char ''ARP_TEST'')) (\<lambda>pkt.
     attempt PacketException (serialize le pkt) (\<lambda>wire_stream.
     attempt PacketException (deserialize le wire_stream) (\<lambda>decoded.
     asserting checked 364 (version (header decoded) = version (header pkt))
    (asserting checked 365 (take (unat (plength (header pkt))) (payload decoded) =
        take (unat (plength (header pkt))) (payload pkt))
    (Inr ())))))"

definition test_arp_eviction :: "bool \<Rightarrow> test_result" where
  "test_arp_eviction checked =
     attempt CacheException (arp_new 2) (\<lambda>c.
     attempt CacheException (arp_put c ''10.0.0.1'' ''00:1A:2B:3C:4D:5E'') (\<lambda>c.
     attempt CacheException (arp_put c ''10.0.0.2'' ''00:1A:2B:3C:4D:5F'') (\<lambda>c.
     attempt CacheException (arp_get c ''10.0.0.1'') (\<lambda>(_, c).
     attempt CacheException (arp_put c ''10.0.0.3'' ''00:1A:2B:3C:4D:60'') (\<lambda>c.
     attempt CacheException (arp_get c ''10.0.0.2'') (\<lambda>(check_evicted, c).
     attempt CacheException (arp_get c ''10.0.0.1'') (\<lambda>(check_retained, c).
     asserting checked 378 (fst check_evicted = False)
    (asserting checked 379 (fst check_retained = True)
    (Inr ())))))))))"

text \<open>The stream is cut into fragments of five bytes.\<close>

fun fragments :: "u8 list \<Rightarrow> u8 list list" where
  "fragments [] = []"
| "fragments (b # bs) = take 5 (b # bs) # fragments (drop 5 (b # bs))"

fun feed_fragments ::
    "(nat \<Rightarrow> bool) \<Rightarrow> u8 list list \<Rightarrow> bool \<Rightarrow> http_sim \<Rightarrow> http_exception + bool \<times> http_sim" where
  "feed_fragments alloc [] parser_finished sim = Inr (parser_finished, sim)"
| "feed_fragments alloc (chunk # chunks) parser_finished sim =
     (case parse_chunk alloc chunk sim of
        Inl e \<Rightarrow> Inl e
      | Inr (finished, sim) \<Rightarrow> feed_fragments alloc chunks (if finished then True else parser_finished) sim)"

definition raw_http_request :: string where
  "raw_http_request =
     ''POST /submit-telemetry HTTP/1.1'' @ CRLF @
     ''Host: localhost:8080'' @ CRLF @
     ''Content-Length: 19'' @ CRLF @
     CRLF @
     ''cpu_load=42&temp=61''"

definition test_fragmented_http_parsing :: "bool \<Rightarrow> (nat \<Rightarrow> bool) \<Rightarrow> test_result" where
  "test_fragmented_http_parsing checked alloc =
     attempt ParserException
       (feed_fragments alloc (fragments (map byte_of_char raw_http_request)) False http_new)
       (\<lambda>(parser_finished, sim). let req = request sim in
     asserting checked 337 (parser_finished = True)
    (asserting checked 342 (req_method req = ''POST'')
    (asserting checked 343 (req_uri req = ''/submit-telemetry'')
    (if checked \<and> req_headers req ''Content-Length'' = None then Inl MissingKey
     else asserting checked 344 (req_headers req ''Content-Length'' = Some ''19'')
    (asserting checked 347 (map char_of_byte (req_body req) = ''cpu_load=42&temp=61'')
    (Inr ()))))))"

text \<open>Every error of a mask's constructor is a \<open>std::invalid_argument\<close>, which the test expects.\<close>

definition test_ipv4_subnetting_logic :: "bool \<Rightarrow> test_result" where
  "test_ipv4_subnetting_logic checked =
     attempt AddressException (ipv4_of_string ''192.168.1.15'') (\<lambda>ip1.
     asserting checked 283 (ipv4_to_string ip1 = ''192.168.1.15'')
    (asserting checked 284 (to_u32 ip1 = 0xC0A8010F)
    (attempt AddressException (mask_of_prefix 24) (\<lambda>mask_slash_24.
     asserting checked 287 (mask_to_string mask_slash_24 = ''255.255.255.0'')
    (asserting checked 288 (mask_u32 mask_slash_24 = 0xFFFFFF00)
    (attempt AddressException (mask_of_string ''255.255.0.0'') (\<lambda>mask_slash_16.
     asserting checked 291 (to_prefix_length mask_slash_16 = 16)
    (asserting checked 295 (case mask_of_string ''255.255.0.255'' of Inl _ \<Rightarrow> True | Inr _ \<Rightarrow> False)
    (attempt AddressException (ipv4_of_string ''10.0.0.10'') (\<lambda>host_ip.
     attempt AddressException (mask_of_prefix 24) (\<lambda>host_mask.
     attempt AddressException (ipv4_of_string ''10.0.0.20'') (\<lambda>local_target.
     attempt AddressException (ipv4_of_string ''10.0.1.20'') (\<lambda>remote_target.
     let host_node = node_new 4 ''HostA'' host_ip host_mask ''00:11:22:33:44:55'' in
     asserting checked 304 (is_local host_node local_target = True)
    (asserting checked 305 (is_local host_node remote_target = False)
    (Inr ())))))))))))))))"

section \<open>Phases 6 and 8: routing\<close>

definition lab_router :: "u32 \<Rightarrow> string \<Rightarrow> string \<Rightarrow> string \<Rightarrow> test_fault + router" where
  "lab_router i name ip mac =
     attempt AddressException (ipv4_of_string ip) (\<lambda>ip.
     attempt AddressException (mask_of_prefix 24) (\<lambda>m.
     Inr (router_new i name ip m mac)))"

definition lab_ips :: "test_fault + (u32 \<rightharpoonup> ipv4_address)" where
  "lab_ips =
     attempt AddressException (ipv4_of_string ''10.0.1.1'') (\<lambda>a.
     attempt AddressException (ipv4_of_string ''10.0.2.1'') (\<lambda>b.
     attempt AddressException (ipv4_of_string ''10.0.3.1'') (\<lambda>c.
     Inr [1 \<mapsto> a, 2 \<mapsto> b, 3 \<mapsto> c])))"

definition lab_masks :: "test_fault + (u32 \<rightharpoonup> subnet_mask)" where
  "lab_masks =
     attempt AddressException (mask_of_prefix 24) (\<lambda>a.
     attempt AddressException (mask_of_prefix 24) (\<lambda>b.
     attempt AddressException (mask_of_prefix 24) (\<lambda>c.
     Inr [1 \<mapsto> a, 2 \<mapsto> b, 3 \<mapsto> c])))"

text \<open>The costs of the links 1-2, 1-3 and 2-3.\<close>

definition lab_graph :: "u32 \<Rightarrow> u32 \<Rightarrow> u32 \<Rightarrow> topology" where
  "lab_graph ab ac bc = [(1, [(2, ab), (3, ac)]), (2, [(1, ab), (3, bc)]), (3, [(1, ac), (2, bc)])]"

text \<open>Routes are computed and the address 10.0.3.100 is looked up; two assertions on the answer.\<close>

definition expect_route ::
    "bool \<Rightarrow> nat \<Rightarrow> u32 \<Rightarrow> ((u32 \<times> u32) list \<Rightarrow> (u32 \<times> u32) list) \<Rightarrow> topology \<Rightarrow>
      (u32 \<rightharpoonup> ipv4_address) \<Rightarrow> (u32 \<rightharpoonup> subnet_mask) \<Rightarrow> router \<times> clock \<Rightarrow> test_fault + router \<times> clock" where
  "expect_route checked line hop order graph node_to_ip node_to_mask st =
     (case compute_routes order (fst st) graph node_to_ip node_to_mask (snd st) of
        None \<Rightarrow> Inl UndefinedBehaviour
      | Some (router_a, clk) \<Rightarrow>
          attempt AddressException (ipv4_of_string ''10.0.3.100'') (\<lambda>target.
            let (found, next_hop) = lookup_route router_a target in
            asserting checked line (found = True)
           (asserting checked (line + 1) (next_hop = hop)
           (Inr (router_a, clk)))))"

definition test_dynamic_multi_hop_routing ::
    "bool \<Rightarrow> ((u32 \<times> u32) list \<Rightarrow> (u32 \<times> u32) list) \<Rightarrow> clock \<Rightarrow> test_fault + clock" where
  "test_dynamic_multi_hop_routing checked order clk =
     attempt id (lab_router 1 ''RouterA'' ''10.0.1.1'' ''00:AA:00:11:11:11'') (\<lambda>router_a.
     attempt id (lab_router 2 ''RouterB'' ''10.0.2.1'' ''00:AA:00:22:22:22'') (\<lambda>router_b.
     attempt id (lab_router 3 ''RouterC'' ''10.0.3.1'' ''00:AA:00:33:33:33'') (\<lambda>router_c.
     attempt id lab_ips (\<lambda>node_to_ip.
     attempt id lab_masks (\<lambda>node_to_mask.
     attempt id (expect_route checked 261 2 order (lab_graph 1 10 2) node_to_ip node_to_mask (router_a, clk)) (\<lambda>st.
     attempt id (expect_route checked 272 3 order (lab_graph 1 10 15) node_to_ip node_to_mask st) (\<lambda>(_, clk).
     Inr clk)))))))"

definition test_fault_tolerance_pipeline ::
    "bool \<Rightarrow> ((u32 \<times> u32) list \<Rightarrow> (u32 \<times> u32) list) \<Rightarrow> (u64 \<Rightarrow> 'g \<Rightarrow> u64 \<times> 'g) \<Rightarrow> 'g \<Rightarrow> clock
      \<Rightarrow> test_fault + clock" where
  "test_fault_tolerance_pipeline checked order uniform seed clk =
     attempt id (lab_router 1 ''RouterA'' ''10.0.1.1'' ''00:AA:00:11:11:11'') (\<lambda>router_a.
     attempt id (lab_router 2 ''RouterB'' ''10.0.2.1'' ''00:AA:00:22:22:22'') (\<lambda>router_b.
     attempt id (lab_router 3 ''RouterC'' ''10.0.3.1'' ''00:AA:00:33:33:33'') (\<lambda>router_c.
     attempt id lab_ips (\<lambda>node_to_ip.
     attempt id lab_masks (\<lambda>node_to_mask.
     attempt id (expect_route checked 163 2 order (lab_graph 1 10 2) node_to_ip node_to_mask (router_a, clk)) (\<lambda>st.
     let st = record_link_failure (fst st) 2 (snd st);
         st = record_link_failure (fst st) 2 (snd st);
         (state, st) = (if checked then get_link_state (fst st) 2 (snd st) else (Closed, st)) in
     asserting checked 168 (state = Closed)
    (let st = record_link_failure (fst st) 2 (snd st);
         (state, st) = (if checked then get_link_state (fst st) 2 (snd st) else (Open, st)) in
     asserting checked 171 (state = Open)
    (attempt id (expect_route checked 175 3 order (lab_graph 1 10 2) node_to_ip node_to_mask st) (\<lambda>(_, clk).
     case calculate_delay uniform (backoff_new 100 2000 seed) 1 of
       None \<Rightarrow> Inl UndefinedBehaviour
     | Some (delay_attempt_1, backoff_policy) \<Rightarrow>
         (case calculate_delay uniform backoff_policy 2 of
            None \<Rightarrow> Inl UndefinedBehaviour
          | Some (delay_attempt_2, _) \<Rightarrow>
              asserting checked 182 (delay_attempt_1 \<le> 100)
             (asserting checked 183 (delay_attempt_2 \<le> 200)
             (Inr clk))))))))))))"

section \<open>Phase 7: the telemetry bridge\<close>

definition bridge_event :: "u64 \<Rightarrow> metric_event" where
  "bridge_event now =
     \<lparr>timestamp_us = now, source_node = ''RouterA'', dest_node = ''RouterB'', packet_size = 1000,
      latency_ns = 150, dropped = False\<rparr>"

definition bridge_drop_event :: "u64 \<Rightarrow> metric_event" where
  "bridge_drop_event now =
     \<lparr>timestamp_us = now, source_node = ''RouterA'', dest_node = ''RouterB'', packet_size = 0,
      latency_ns = 0, dropped = True\<rparr>"

definition bridge_events :: "clock \<Rightarrow> metric_event list" where
  "bridge_events clk =
     map (\<lambda>i. bridge_event (of_int (clk i))) [0..<10] @
     map (\<lambda>i. bridge_drop_event (of_int (clk (10 + i)))) [0..<2]"

fun push_events :: "bool \<Rightarrow> metric_event list \<Rightarrow> metric_event ring \<Rightarrow> test_fault + metric_event ring" where
  "push_events checked [] q = Inr q"
| "push_events checked (e # es) q =
     (if checked then
        (let (ok, q) = ring_push e q
         in asserting checked (if dropped e then 217 else 205) (ok = True) (push_events checked es q))
      else push_events checked es q)"

text \<open>
  The interleaving with the monitor's thread: before a round, which reads the time \<open>now\<close>, the main
  thread has pushed \<open>n\<close> more of its events; after the last round it has pushed the rest. A push during
  a round counts before it when the round pops the event, and behind it otherwise.
\<close>

fun bridge_run ::
    "bool \<Rightarrow> metric_event list \<Rightarrow> (nat \<times> int) list \<Rightarrow> metric_event ring \<Rightarrow> monitor \<times> int
      \<Rightarrow> test_fault + monitor" where
  "bridge_run checked es [] q st = attempt id (push_events checked es q) (\<lambda>q. Inr (fst st))"
| "bridge_run checked es ((n, now) # rounds) q st =
     attempt id (push_events checked (take n es) q) (\<lambda>q.
       let (popped, q) = drain (Suc (length (buffer q))) q
       in bridge_run checked (drop n es) rounds q (monitor_round (popped, now) st))"

definition f_positive :: "double \<Rightarrow> bool" where
  "f_positive x = (case x of Finite q \<Rightarrow> 0 < q | Infinite negative \<Rightarrow> \<not> negative | NaN \<Rightarrow> False)"

definition test_lock_free_telemetry_bridge ::
    "bool \<Rightarrow> metric_event list \<Rightarrow> clock \<Rightarrow> int \<Rightarrow> (nat \<times> int) list \<Rightarrow> test_result" where
  "test_lock_free_telemetry_bridge checked buf clk t0 rounds =
     attempt id (bridge_run checked (bridge_events clk) rounds (ring_new buf) (snd (monitor_start monitor_new), t0))
       (\<lambda>mon. let stats = get_latest_metrics mon in
     asserting checked 223 (total_packets stats = 12)
    (asserting checked 224 (dropped_packets stats = 2)
    (asserting checked 225 (total_bytes stats = 10000)
    (asserting checked 226 (average_latency_ns stats = Finite 150)
    (asserting checked 227 (f_positive (throughput_kbps stats))
    (Inr ()))))))"

section \<open>Rate limiting\<close>

text \<open>\<open>assert(server_node.receive_packet() == expected)\<close>, \<open>n\<close> times.\<close>

fun expect_packets :: "bool \<Rightarrow> nat \<Rightarrow> bool \<Rightarrow> nat \<Rightarrow> node \<times> clock \<Rightarrow> test_fault + node \<times> clock" where
  "expect_packets checked line expected 0 st = Inr st"
| "expect_packets checked line expected (Suc n) st =
     (if checked then
        (let (ok, nd) = receive_packet 0 (fst st) (of_int (clock_now (snd st)))
         in asserting checked line (ok = expected)
              (expect_packets checked line expected n (nd, clock_rest (snd st))))
      else expect_packets checked line expected n st)"

text \<open>The calls of the four threads, in the order in which they take effect, with the two counters.\<close>

fun generate_traffic :: "nat \<Rightarrow> node \<times> clock \<Rightarrow> u32 \<times> u32 \<Rightarrow> u32 \<times> u32" where
  "generate_traffic 0 st counts = counts"
| "generate_traffic (Suc n) st (allowed_count, dropped_count) =
     (let (ok, nd) = receive_packet 0 (fst st) (of_int (clock_now (snd st)))
      in generate_traffic n (nd, clock_rest (snd st))
           (if ok then (allowed_count + 1, dropped_count) else (allowed_count, dropped_count + 1)))"

definition test_rate_limiting_security_pipeline :: "bool \<Rightarrow> clock \<Rightarrow> test_result" where
  "test_rate_limiting_security_pipeline checked clk =
     attempt AddressException (ipv4_of_string ''192.168.1.10'') (\<lambda>ip.
     attempt AddressException (mask_of_prefix 24) (\<lambda>m.
     case enable_rate_limiting (node_new 1 ''ProtectedServer'' ip m ''00:BB:00:11:11:11'') (Finite 10) (Finite 5) of
       None \<Rightarrow> Inl UndefinedBehaviour
     | Some server_node \<Rightarrow>
         attempt id (expect_packets checked 92 True 5 (server_node, clk)) (\<lambda>st.
         attempt id (expect_packets checked 95 False 1 st) (\<lambda>st.
         attempt id (expect_packets checked 101 True 5 st) (\<lambda>st.
         attempt id (expect_packets checked 103 False 1 st) (\<lambda>st.
         let (allowed_count, dropped_count) = generate_traffic 40 st (0, 0) in
         asserting checked 129 (allowed_count + dropped_count = 40)
        (Inr ())))))))"

section \<open>Sockets and memory\<close>

datatype test_callback = AcceptOne

text \<open>The callback: the accepted connection is closed again at its end.\<close>

definition accept_one ::
    "'k os \<Rightarrow> tcp_server \<Rightarrow> test_callback \<Rightarrow> int \<Rightarrow> u16 \<Rightarrow> (test_callback, 'k, bool) world
      \<Rightarrow> (test_fault + unit) \<times> (test_callback, 'k, bool) world" where
  "accept_one os server cb fd filter_flags w =
     (let (loop, k, connection_accepted) = w in
      case accept_connection os server k of
        (Inl e, k) \<Rightarrow> (Inl (SystemException e), loop, k, connection_accepted)
      | (Inr None, k) \<Rightarrow> (Inr (), loop, k, connection_accepted)
      | (Inr (Some conn), k) \<Rightarrow> (Inr (), loop, close_socket os (conn_socket conn) k, True))"

text \<open>
  The part from the client on, which returns the server and the loop for their destruction. Objects are
  destroyed when the function returns or throws, in the reverse order of their declarations; a failed assertion
  ends the process at once.
\<close>

definition async_client_scope ::
    "bool \<Rightarrow> 'k os \<Rightarrow> 'k epoll_os \<Rightarrow> tcp_server \<Rightarrow> test_callback event_loop \<Rightarrow> 'k
      \<Rightarrow> test_result \<times> tcp_server \<times> test_callback event_loop \<times> 'k" where
  "async_client_scope checked os eos server loop k =
     (case connect_to os ''127.0.0.1'' 9090 k of
        (Inl e, k) \<Rightarrow> (Inl (SystemException e), server, loop, k)
      | (Inr client, k) \<Rightarrow>
          (case poll_once eos SystemException (accept_one os server) 100 (loop, k, False) of
             (Inl f, loop, k, _) \<Rightarrow> (Inl f, server, loop, close_socket os (conn_socket client) k)
           | (Inr _, loop, k, connection_accepted) \<Rightarrow>
               if checked \<and> \<not> connection_accepted then (Inl (AssertionFailed 53), server, loop, k)
               else
                 (let (server, k) = tcp_server_stop os server k
                  in (Inr (), server, loop, close_socket os (conn_socket client) k))))"

definition test_kqueue_async_loop_pipeline ::
    "bool \<Rightarrow> 'k os \<Rightarrow> 'k epoll_os \<Rightarrow> 'k \<Rightarrow> test_result \<times> 'k" where
  "test_kqueue_async_loop_pipeline checked os eos k =
     (case tcp_server_start os (tcp_server_new 9090) k of
        (Inl e, server, k) \<Rightarrow> (Inl (SystemException e), close_socket os (server_socket server) k)
      | (Inr _, server, k) \<Rightarrow>
          (case event_loop_new eos k of
             (Inl e, k) \<Rightarrow> (Inl (SystemException e), close_socket os (server_socket server) k)
           | (Inr loop, k) \<Rightarrow>
               (case register_event eos (server_socket server) (ucast EPOLLIN) (Some AcceptOne) loop k of
                  (Inl e, loop, k) \<Rightarrow>
                    (Inl (SystemException e),
                     close_socket os (server_socket server) (event_loop_destroy os loop k))
                | (Inr _, loop, k) \<Rightarrow>
                    (case async_client_scope checked os eos server loop k of
                       (r, server, loop, k) \<Rightarrow>
                         if r = Inl (AssertionFailed 53) then (r, k)
                         else (r, close_socket os (server_socket server) (event_loop_destroy os loop k))))))"

definition test_trivially_destructible_memory_arena :: "bool \<Rightarrow> nat \<Rightarrow> test_result" where
  "test_trivially_destructible_memory_arena checked start =
     attempt ArenaException (arena_allocate (arena_new start 10240) sizeof_packet alignof_packet) (\<lambda>(ptr, arena).
     attempt PacketException (packet_of_buffer 0 (Some [0xAA, 0xBB, 0xCC, 0xDD]) 4) (\<lambda>pkt.
     asserting checked 71 (ptr \<noteq> 0)
    (asserting checked 72 (version (header pkt) = 1)
    (asserting checked 73 (plength (header pkt) = 4)
    (asserting checked 74 (payload pkt ! 0 = 0xAA)
    (asserting checked 75 (payload pkt ! 1 = 0xBB)
    (Inr ())))))))"

section \<open>The program\<close>

text \<open>What a run depends on.\<close>

record ('g, 'k) lab =
  lab_little_endian :: bool
  lab_allocator :: "nat \<Rightarrow> bool"
  lab_order :: "(u32 \<times> u32) list \<Rightarrow> (u32 \<times> u32) list"
  lab_routing_clock :: clock
  lab_buffer :: "metric_event list"
  lab_event_clock :: clock
  lab_monitor_start :: int
  lab_rounds :: "(nat \<times> int) list"
  lab_uniform :: "u64 \<Rightarrow> 'g \<Rightarrow> u64 \<times> 'g"
  lab_seed :: 'g
  lab_limiter_clock :: clock
  lab_os :: "'k os"
  lab_epoll :: "'k epoll_os"
  lab_arena :: nat

definition self_test :: "bool \<Rightarrow> ('g, 'k) lab \<Rightarrow> 'k \<Rightarrow> test_result" where
  "self_test checked s k =
     attempt id (test_packet_codec checked (lab_little_endian s)) (\<lambda>_.
     attempt id (test_arp_eviction checked) (\<lambda>_.
     attempt id (test_fragmented_http_parsing checked (lab_allocator s)) (\<lambda>_.
     attempt id (test_ipv4_subnetting_logic checked) (\<lambda>_.
     attempt id (test_dynamic_multi_hop_routing checked (lab_order s) (lab_routing_clock s)) (\<lambda>clk.
     attempt id (test_lock_free_telemetry_bridge checked (lab_buffer s) (lab_event_clock s)
       (lab_monitor_start s) (lab_rounds s)) (\<lambda>_.
     attempt id (test_fault_tolerance_pipeline checked (lab_order s) (lab_uniform s) (lab_seed s) clk) (\<lambda>_.
     attempt id (test_rate_limiting_security_pipeline checked (lab_limiter_clock s)) (\<lambda>_.
     attempt id (fst (test_kqueue_async_loop_pipeline checked (lab_os s) (lab_epoll s) k)) (\<lambda>_.
     attempt id (test_trivially_destructible_memory_arena checked (lab_arena s)) (\<lambda>_.
     Inr ()))))))))))"

text \<open>The exit status of \<open>main\<close>; an assertion aborts, undefined behaviour has no status.\<close>

definition exit_status :: "test_result \<Rightarrow> int option" where
  "exit_status r =
     (case r of
        Inr _ \<Rightarrow> Some 0
      | Inl (AssertionFailed _) \<Rightarrow> None
      | Inl UndefinedBehaviour \<Rightarrow> None
      | Inl _ \<Rightarrow> Some 1)"

end
