(* ===== verification/SelfTestOutcome.thy ===== *)
theory SelfTestOutcome
  imports SelfTest DaemonInvariant
begin

text \<open>
  The outcome of the self test: each test of \<^verbatim>\<open>src/main/controller.cpp\<close> passes on the models, under stated
  conditions on the readings of the clocks, on the monitor's schedule and on the kernel; and the schedules on which the telemetry test fails although no component is at fault.
\<close>

section \<open>Addresses, packets, cache and parser\<close>

lemma dotted:
  assumes "s = p @ ''.'' @ q @ ''.'' @ r @ ''.'' @ t"
    and "octet_text p" and "octet_text q" and "octet_text r" and "octet_text t"
  shows "ipv4_of_string s = Inr (IPv4Address (of_nat (quad_value p q r t)))"
  using assms by (intro ipv4_of_quad) (simp add: quad_text_def)

lemmas octet_eval = octet_text_def is_digit_def digit_val_def dec_value_def quad_value_def

lemma lab_addresses:
  "ipv4_of_string ''10.0.1.1'' = Inr (IPv4Address 0x0A000101)"
  "ipv4_of_string ''10.0.2.1'' = Inr (IPv4Address 0x0A000201)"
  "ipv4_of_string ''10.0.3.1'' = Inr (IPv4Address 0x0A000301)"
  "ipv4_of_string ''10.0.3.100'' = Inr (IPv4Address 0x0A000364)"
  "ipv4_of_string ''192.168.1.15'' = Inr (IPv4Address 0xC0A8010F)"
  "ipv4_of_string ''192.168.1.10'' = Inr (IPv4Address 0xC0A8010A)"
  "ipv4_of_string ''10.0.0.10'' = Inr (IPv4Address 0x0A00000A)"
  "ipv4_of_string ''10.0.0.20'' = Inr (IPv4Address 0x0A000014)"
  "ipv4_of_string ''10.0.1.20'' = Inr (IPv4Address 0x0A000114)"
  "ipv4_of_string ''255.255.0.0'' = Inr (IPv4Address 0xFFFF0000)"
  "ipv4_of_string ''255.255.0.255'' = Inr (IPv4Address 0xFFFF00FF)"
  using dotted [of "''10.0.1.1''" "''10''" "''0''" "''1''" "''1''"]
    dotted [of "''10.0.2.1''" "''10''" "''0''" "''2''" "''1''"]
    dotted [of "''10.0.3.1''" "''10''" "''0''" "''3''" "''1''"]
    dotted [of "''10.0.3.100''" "''10''" "''0''" "''3''" "''100''"]
    dotted [of "''192.168.1.15''" "''192''" "''168''" "''1''" "''15''"]
    dotted [of "''192.168.1.10''" "''192''" "''168''" "''1''" "''10''"]
    dotted [of "''10.0.0.10''" "''10''" "''0''" "''0''" "''10''"]
    dotted [of "''10.0.0.20''" "''10''" "''0''" "''0''" "''20''"]
    dotted [of "''10.0.1.20''" "''10''" "''0''" "''1''" "''20''"]
    dotted [of "''255.255.0.0''" "''255''" "''255''" "''0''" "''0''"]
    dotted [of "''255.255.0.255''" "''255''" "''255''" "''0''" "''255''"]
  by (simp_all add: octet_eval)

lemma mask_24: "mask_of_prefix 24 = Inr (SubnetMask 0xFFFFFF00)"
  by (simp add: mask_of_prefix_def) code_simp

lemma nineteen: "std_to_string 19 = ''19''"
  by (simp add: std_to_string.simps [of 19] std_to_string.simps [of "Suc 0"] digit_char_def char_of_eq_iff)

lemma codec_passes: "test_packet_codec True le = Inr ()"
proof -
  obtain p where p: "packet_of_vector 0 (map byte_of_char ''ARP_TEST'') = Inr p" "canonical p"
    using packet_of_vector_truncates by blast
  obtain bytes where "serialize le p = Inr bytes" "deserialize le bytes = Inr p"
    using serialize_deserialize [OF p(2)] by blast
  then show ?thesis by (simp add: test_packet_codec_def p(1) del: list.map)
qed

lemma arp_passes: "test_arp_eviction True = Inr ()"
  by (simp add: test_arp_eviction_def arp_new_def arp_put_def arp_get_def arp_evict_def arp_size_def
      splice_front_def Let_def)

text \<open>Feeding fragments is feeding their concatenation.\<close>

lemma concat_fragments: "concat (fragments bytes) = bytes"
  by (induction bytes rule: fragments.induct) simp_all

lemma feed_fragments_all:
  "feed_fragments alloc cs fin sim =
     (case http_feed alloc (concat cs) sim of
        Inl e \<Rightarrow> Inl e
      | Inr sim' \<Rightarrow> Inr (fin \<or> cs \<noteq> [] \<and> hstate sim' = Complete, sim'))"
proof (induction cs arbitrary: fin sim)
  case (Cons c cs)
  show ?case
  proof (cases "http_feed alloc c sim")
    case (Inl e)
    then show ?thesis by (simp add: parse_chunk_def http_feed_append)
  next
    case (Inr sim1)
    have "http_feed alloc (concat cs) sim1 = Inr sim1" if "hstate sim1 = Complete"
      using that by (intro feed_absorbed) simp
    with Inr Cons.IH [of _ sim1] show ?thesis
      by (cases "cs = []") (auto simp: parse_chunk_def http_feed_append split: sum.splits)
  qed
qed simp

lemma parsing_passes:
  assumes "alloc 19"
  shows "test_fragmented_http_parsing True alloc = Inr ()"
proof -
  let ?body = "map byte_of_char ''cpu_load=42&temp=61''"
  have len: "length ?body = 19" by simp
  have raw: "map byte_of_char raw_http_request =
      map byte_of_char (request_head ''POST'' ''/submit-telemetry'' ''HTTP/1.1''
        [(''Host'', ''localhost:8080'')] (length ?body) []) @ ?body"
    unfolding len by (simp add: raw_http_request_def request_head_def render_header_def nineteen)
  have "\<exists>sim. parse_chunk alloc (map byte_of_char raw_http_request) http_new = Inr (True, sim) \<and>
    request sim = \<lparr>req_method = ''POST'', req_uri = ''/submit-telemetry'', req_version = ''HTTP/1.1'',
      req_headers = map_of (rev ([(''Host'', ''localhost:8080'')] @ (''Content-Length'', std_to_string (length ?body)) # [])),
      req_body = ?body\<rparr>"
    unfolding raw
  proof (rule parse_request)
    show "alloc (length ?body)" using assms unfolding len .
  qed (simp_all add: header_ok_def)
  then obtain sim where sim: "parse_chunk alloc (map byte_of_char raw_http_request) http_new = Inr (True, sim)"
    "request sim = \<lparr>req_method = ''POST'', req_uri = ''/submit-telemetry'', req_version = ''HTTP/1.1'',
      req_headers = [''Host'' \<mapsto> ''localhost:8080'', ''Content-Length'' \<mapsto> ''19''], req_body = ?body\<rparr>"
    unfolding len nineteen by (auto simp: fun_upd_twist simp del: list.map)
  then have feed: "http_feed alloc (map byte_of_char raw_http_request) http_new = Inr sim" "hstate sim = Complete"
    by (auto simp: parse_chunk_def split: sum.splits)
  have ne: "fragments (map byte_of_char raw_http_request) \<noteq> []" by (simp add: raw_http_request_def)
  have "feed_fragments alloc (fragments (map byte_of_char raw_http_request)) False http_new = Inr (True, sim)"
    unfolding feed_fragments_all concat_fragments using feed ne by simp
  then show ?thesis
    by (simp add: test_fragmented_http_parsing_def sim(2) nineteen)
qed

lemma subnetting_passes: "test_ipv4_subnetting_logic True = Inr ()"
proof -
  have p: "ipv4_to_string (IPv4Address 0xC0A8010F) = ''192.168.1.15''"
    "mask_to_string (SubnetMask 0xFFFFFF00) = ''255.255.255.0''"
    by (simp_all add: ipv4_to_string_def mask_to_string_def std_to_string.simps digit_char_def char_of_eq_iff)
  have m: "mask_of_string ''255.255.0.0'' = Inr (SubnetMask 0xFFFF0000)"
    "mask_of_string ''255.255.0.255'' = Inl NonContiguousMask"
    by (simp_all add: mask_of_string_def lab_addresses Let_def)
  have "prefix_mask 16 = 0xFFFF0000" by (simp add: prefix_mask_def) code_simp
  then have "unat (to_prefix_length (SubnetMask 0xFFFF0000)) = 16"
    using bit_count_prefix_mask [of 16] by (simp add: unat_prefix_length)
  then have "to_prefix_length (SubnetMask 0xFFFF0000) = 16" by (simp add: word_unat_eq_iff)
  then show ?thesis
    by (simp add: test_ipv4_subnetting_logic_def lab_addresses mask_24 p m is_local_def node_new_def)
qed

section \<open>Routing\<close>

text \<open>All matching entries agree on the next hop.\<close>

lemma lookup_agrees:
  assumes "\<forall>e \<in> set (routing_table rt). entry_matches a e \<longrightarrow> next_hop_id e = h"
    and "\<exists>e \<in> set (routing_table rt). entry_matches a e"
  shows "lookup_route rt a = (True, h)"
proof -
  let ?ms = "filter (entry_matches a) (routing_table rt)"
  have "?ms \<noteq> []" using assms(2) by (auto simp: filter_empty_conv)
  with decides_fold [of a "routing_table rt"] obtain pre e post where "?ms = pre @ e # post"
    "fold (lookup_step (to_u32 a)) (routing_table rt) (False, 0, 0) =
       (True, next_hop_id e, to_prefix_length (entry_mask e))"
    unfolding decides_def by blast
  moreover from this have "e \<in> set ?ms" by simp
  then have "next_hop_id e = h" using assms(1) by auto
  ultimately show ?thesis by (simp add: lookup_route_def)
qed

text \<open>From the result of the search to the looked-up next hop, in the address plan of the tests.\<close>

definition plan_ips :: "u32 \<rightharpoonup> ipv4_address" where
  "plan_ips = [1 \<mapsto> IPv4Address 0x0A000101, 2 \<mapsto> IPv4Address 0x0A000201, 3 \<mapsto> IPv4Address 0x0A000301]"

definition plan_masks :: "u32 \<rightharpoonup> subnet_mask" where
  "plan_masks = [1 \<mapsto> SubnetMask 0xFFFFFF00, 2 \<mapsto> SubnetMask 0xFFFFFF00, 3 \<mapsto> SubnetMask 0xFFFFFF00]"

lemma plan_built: "lab_ips = Inr plan_ips" "lab_masks = Inr plan_masks"
  by (simp_all add: lab_ips_def lab_masks_def plan_ips_def plan_masks_def lab_addresses mask_24)

lemma plan_route:
  assumes G: "map_of G 1 \<noteq> None" and id: "node_id (router_node rt) = 1"
    and st: "search_loop G 1 (search_init G 1 (link_breakers rt) clk) = st"
    and dist: "distances st = [(1, 0), (2, d2), (3, d3)]" and near: "\<not> 999999 \<le> d3"
    and hop: "first_hop 1 (parent st) 2 = Some h2" "first_hop 1 (parent st) 3 = Some h3" "h3 \<in> {2, 3}"
    and order: "\<forall>xs. mset (order xs) = mset xs"
  shows "\<exists>rt'. expect_route True line h3 order G plan_ips plan_masks (rt, clk) = Inr (rt', search_clock st) \<and>
    router_node rt' = router_node rt \<and> link_breakers rt' = links st"
proof -
  let ?ds = "order (distances st)"
  have ds: "set ?ds = {(1, 0), (2, d2), (3, d3)}" using order dist mset_eq_setD [of "order (distances st)" "distances st"] by simp
  obtain tbl where tbl: "route_entries 1 (parent st) plan_ips plan_masks ?ds = Some tbl"
    "set tbl = {e. \<exists>(v, d) \<in> set ?ds. entry_for 1 (parent st) plan_ips plan_masks v d e}"
    using route_entries_some [of ?ds 1 "parent st" plan_ips plan_masks] hop ds by auto
  let ?rt = "rt\<lparr>routing_table := tbl, link_breakers := links st\<rparr>"
  have run: "compute_routes order rt G plan_ips plan_masks clk = Some (?rt, search_clock st)"
    using G tbl(1) by (auto simp: compute_routes_def id st Let_def)
  let ?a = "IPv4Address 0x0A000364"
  have "\<not> entry_matches ?a e" if "entry_for 1 (parent st) plan_ips plan_masks 2 d2 e" for e
    using that by (auto simp: entry_for_def plan_ips_def plan_masks_def route_entry_def entry_matches_def)
  moreover have "next_hop_id e = h3" if "entry_for 1 (parent st) plan_ips plan_masks 3 d3 e" for e
    using that hop(2) by (auto simp: entry_for_def route_entry_def)
  moreover have "\<not> entry_for 1 (parent st) plan_ips plan_masks 1 0 e" for e by (simp add: entry_for_def)
  ultimately have 1: "\<forall>e \<in> set tbl. entry_matches ?a e \<longrightarrow> next_hop_id e = h3"
    unfolding tbl(2) ds by blast
  let ?e = "route_entry (IPv4Address 0x0A000301) (SubnetMask 0xFFFFFF00) h3 (unat d3)"
  have "entry_for 1 (parent st) plan_ips plan_masks 3 d3 ?e" "entry_matches ?a ?e"
    using near hop(2,3) by (auto simp: entry_for_def plan_ips_def plan_masks_def route_entry_def entry_matches_def)
  then have "\<exists>e \<in> set tbl. entry_matches ?a e" unfolding tbl(2) ds by blast
  then have "lookup_route ?rt ?a = (True, h3)" using 1 by (intro lookup_agrees) simp_all
  then show ?thesis by (simp add: expect_route_def run lab_addresses)
qed

lemma cheap_detour:
  "search_loop (lab_graph 1 10 2) 1 (search_init (lab_graph 1 10 2) 1 Map.empty clk) =
     \<lparr>distances = [(1, 0), (2, 1), (3, 3)], parent = [2 \<mapsto> 1, 3 \<mapsto> 2], min_heap = [],
      links = Map.empty, search_clock = clk\<rparr>"
  by (simp add: search_eval lab_graph_def)

lemma dear_detour:
  "search_loop (lab_graph 1 10 15) 1 (search_init (lab_graph 1 10 15) 1 Map.empty clk) =
     \<lparr>distances = [(1, 0), (2, 1), (3, 10)], parent = [2 \<mapsto> 1, 3 \<mapsto> 1], min_heap = [],
      links = Map.empty, search_clock = clk\<rparr>"
  by (simp add: search_eval lab_graph_def)

lemma detour_open:
  assumes "cb_get_state cb clk = (Open, cb, clk')"
  shows "search_loop (lab_graph 1 10 2) 1 (search_init (lab_graph 1 10 2) 1 [2 \<mapsto> cb] clk) =
     \<lparr>distances = [(1, 0), (2, 12), (3, 10)], parent = [2 \<mapsto> 3, 3 \<mapsto> 1], min_heap = [],
      links = [2 \<mapsto> cb], search_clock = clk'\<rparr>"
  using assms by (simp add: search_eval lab_graph_def) auto

lemma lab_router_built:
  "ipv4_of_string ip = Inr a \<Longrightarrow> lab_router i name ip mac = Inr (router_new i name a (SubnetMask 0xFFFFFF00) mac)"
  by (simp add: lab_router_def mask_24)

lemma router_new_fields [simp]:
  "node_id (router_node (router_new i name ip m mac)) = i" "link_breakers (router_new i name ip m mac) = Map.empty"
  by (simp_all add: router_new_def node_new_def)

lemma lab_graph_source: "map_of (lab_graph ab ac bc) 1 \<noteq> None"
  by (simp add: lab_graph_def)

text \<open>The three situations: over node 2 when that is cheap, directly when it is dear, and directly
  when the link to node 2 is open.\<close>

lemma route_over_two:
  assumes "node_id (router_node rt) = 1" and "link_breakers rt = Map.empty" and "\<forall>xs. mset (order xs) = mset xs"
  shows "\<exists>rt'. expect_route True line 2 order (lab_graph 1 10 2) plan_ips plan_masks (rt, clk) = Inr (rt', clk) \<and>
    router_node rt' = router_node rt \<and> link_breakers rt' = Map.empty"
  using plan_route [OF lab_graph_source assms(1) cheap_detour [of clk, folded assms(2)], of 1 3 2 2 order line] assms
  by (simp add: first_hop.simps)

lemma route_direct:
  assumes "node_id (router_node rt) = 1" and "link_breakers rt = Map.empty" and "\<forall>xs. mset (order xs) = mset xs"
  shows "\<exists>rt'. expect_route True line 3 order (lab_graph 1 10 15) plan_ips plan_masks (rt, clk) = Inr (rt', clk)"
  using plan_route [OF lab_graph_source assms(1) dear_detour [of clk, folded assms(2)], of 1 10 2 3 order line] assms
  by (auto simp: first_hop.simps)

lemma route_around_open:
  assumes "node_id (router_node rt) = 1" and "link_breakers rt = [2 \<mapsto> cb]" and "\<forall>xs. mset (order xs) = mset xs"
    and "cb_get_state cb clk = (Open, cb, clk')"
  shows "\<exists>rt'. expect_route True line 3 order (lab_graph 1 10 2) plan_ips plan_masks (rt, clk) = Inr (rt', clk')"
  using plan_route [OF lab_graph_source assms(1) detour_open [OF assms(4), folded assms(2)], of 12 10 3 3 order line] assms
  by (auto simp: first_hop.simps)

lemma routing_passes:
  assumes "\<forall>xs. mset (order xs) = mset xs"
  shows "test_dynamic_multi_hop_routing True order clk = Inr clk"
proof -
  let ?a = "router_new 1 ''RouterA'' (IPv4Address 0x0A000101) (SubnetMask 0xFFFFFF00) ''00:AA:00:11:11:11''"
  obtain rt where 1: "expect_route True 261 2 order (lab_graph 1 10 2) plan_ips plan_masks (?a, clk) = Inr (rt, clk)"
    "router_node rt = router_node ?a" "link_breakers rt = Map.empty"
    using route_over_two [of ?a order 261 clk] assms by auto
  obtain rt' where "expect_route True 272 3 order (lab_graph 1 10 15) plan_ips plan_masks (rt, clk) = Inr (rt', clk)"
    using route_direct [of rt order 272 clk] assms 1(2,3) by auto
  with 1(1) show ?thesis
    by (simp add: test_dynamic_multi_hop_routing_def lab_router_built lab_addresses plan_built)
qed

text \<open>Three failures within the recovery timeout open the link.\<close>

lemma three_failures:
  assumes "link_breakers rt = Map.empty" and "readings_in t0 (t0 + 1000000 * 5000) clk"
  shows "\<exists>rt1 clk1 rt2 clk2 rt3 clk3 rt4 clk4 cb clk5.
    record_link_failure rt 2 clk = (rt1, clk1) \<and> record_link_failure rt1 2 clk1 = (rt2, clk2) \<and>
    get_link_state rt2 2 clk2 = (Closed, rt2, clk2) \<and> record_link_failure rt2 2 clk2 = (rt3, clk3) \<and>
    get_link_state rt3 2 clk3 = (Open, rt4, clk4) \<and> link_breakers rt4 = [2 \<mapsto> cb] \<and>
    router_node rt4 = router_node rt \<and> cb_get_state cb clk4 = (Open, cb, clk5)"
proof -
  let ?clk1 = "clock_rest clk"
  let ?cb = "\<lambda>n. \<lparr>cb_state = Closed, failure_threshold = 3, recovery_timeout_ms = 5000, failure_count = n,
    success_count = 0, last_state_change = clock_now clk\<rparr>"
  let ?rt = "\<lambda>cb. rt\<lparr>link_breakers := [2 \<mapsto> cb]\<rparr>"
  let ?open = "\<lparr>cb_state = Open, failure_threshold = 3, recovery_timeout_ms = 5000, failure_count = 0,
    success_count = 0, last_state_change = clock_now ?clk1\<rparr>"
  let ?clk2 = "clock_rest ?clk1"
  have in1: "readings_in t0 (t0 + 1000000 * 5000) ?clk1" and in2: "readings_in t0 (t0 + 1000000 * 5000) ?clk2"
    and in3: "readings_in t0 (t0 + 1000000 * 5000) (clock_rest ?clk2)"
    using assms(2) by blast+
  have le: "t0 \<le> clock_now ?clk1" using readings_now [OF in1] by simp
  have get: "cb_get_state ?open c = (Open, ?open, clock_rest c)"
    if "readings_in t0 (t0 + 1000000 * 5000) c" for c
    using readings_elapsed [OF that le] by (simp add: cb_get_state_def Let_def)
  have "record_link_failure rt 2 clk = (?rt (?cb 1), ?clk1)"
    by (simp add: record_link_failure_def breaker_at_def assms(1) cb_defs word_le_nat_alt)
  moreover have "record_link_failure (?rt (?cb 1)) 2 ?clk1 = (?rt (?cb 2), ?clk1)"
    by (simp add: record_link_failure_def breaker_at_def cb_defs word_le_nat_alt)
  moreover have "get_link_state (?rt (?cb 2)) 2 ?clk1 = (Closed, ?rt (?cb 2), ?clk1)"
    by (simp add: get_link_state_def breaker_at_def cb_defs)
  moreover have "record_link_failure (?rt (?cb 2)) 2 ?clk1 = (?rt ?open, ?clk2)"
    by (simp add: record_link_failure_def breaker_at_def cb_defs)
  moreover have "get_link_state (?rt ?open) 2 ?clk2 = (Open, ?rt ?open, clock_rest ?clk2)"
    by (simp add: get_link_state_def breaker_at_def get [OF in2])
  moreover have "cb_get_state ?open (clock_rest ?clk2) = (Open, ?open, clock_rest (clock_rest ?clk2))"
    by (rule get [OF in3])
  ultimately show ?thesis by fastforce
qed

lemma jitter_passes:
  assumes "within_bound uniform"
  shows "\<exists>x b y b'. calculate_delay uniform (backoff_new 100 2000 seed) 1 = Some (x, b) \<and> x \<le> 100 \<and>
    calculate_delay uniform b 2 = Some (y, b') \<and> y \<le> 200"
proof -
  obtain x g where x: "uniform 100 seed = (x, g)" by fastforce
  obtain y g' where y: "uniform 200 g = (y, g')" by fastforce
  have "fst (uniform 100 seed) \<le> 100" "fst (uniform 200 g) \<le> 200"
    using assms unfolding within_bound_def by blast+
  then show ?thesis
    by (simp add: calculate_delay_def backoff_new_def shift_one_def x y min_def)
qed

lemma fault_tolerance_passes:
  assumes "\<forall>xs. mset (order xs) = mset xs" and "within_bound uniform"
    and "readings_in t0 (t0 + 1000000 * 5000) clk"
  shows "\<exists>clk'. test_fault_tolerance_pipeline True order uniform seed clk = Inr clk'"
proof -
  let ?a = "router_new 1 ''RouterA'' (IPv4Address 0x0A000101) (SubnetMask 0xFFFFFF00) ''00:AA:00:11:11:11''"
  obtain rt where 1: "expect_route True 163 2 order (lab_graph 1 10 2) plan_ips plan_masks (?a, clk) = Inr (rt, clk)"
    "router_node rt = router_node ?a" "link_breakers rt = Map.empty"
    using route_over_two [of ?a order 163 clk] assms(1) by auto
  obtain rt1 clk1 rt2 clk2 rt3 clk3 rt4 clk4 cb clk5 where 2:
    "record_link_failure rt 2 clk = (rt1, clk1)" "record_link_failure rt1 2 clk1 = (rt2, clk2)"
    "get_link_state rt2 2 clk2 = (Closed, rt2, clk2)" "record_link_failure rt2 2 clk2 = (rt3, clk3)"
    "get_link_state rt3 2 clk3 = (Open, rt4, clk4)" "link_breakers rt4 = [2 \<mapsto> cb]"
    "router_node rt4 = router_node rt" "cb_get_state cb clk4 = (Open, cb, clk5)"
    using three_failures [OF 1(3) assms(3)] by metis
  obtain rt5 where 3: "expect_route True 175 3 order (lab_graph 1 10 2) plan_ips plan_masks (rt4, clk4) = Inr (rt5, clk5)"
    using route_around_open [of rt4 cb order clk4 clk5 175] 1(2) 2(6-8) assms(1) by auto
  show ?thesis
    using jitter_passes [OF assms(2), of seed] 3
    by (auto simp: test_fault_tolerance_pipeline_def lab_router_built lab_addresses plan_built 1(1) 2(1-5))
qed

section \<open>The telemetry bridge\<close>

lemma push_events_items:
  assumes "ring_ok q" and "length (ring_items q) + length es \<le> length (buffer q)"
  shows "\<exists>q'. push_events True es q = Inr q' \<and> ring_ok q' \<and> ring_items q' = ring_items q @ es \<and>
    length (buffer q') = length (buffer q)"
  using assms
proof (induction es arbitrary: q)
  case (Cons e es)
  obtain b q1 where push: "ring_push e q = (b, q1)" by fastforce
  have "length (ring_items q) < length (buffer q)" using Cons.prems(2) by simp
  then have q1: "ring_ok q1" "b" "ring_items q1 = ring_items q @ [e]" "length (buffer q1) = length (buffer q)"
    using ring.enq_law [OF Cons.prems(1), of e] by (simp_all add: push del: length_ring_items)
  have "length (ring_items q1) + length es \<le> length (buffer q1)"
    unfolding q1(3,4) using Cons.prems(2) by (simp del: length_ring_items)
  from Cons.IH [OF q1(1) this] show ?case using q1 by (auto simp: push)
qed simp

text \<open>What the monitor's rounds pop.\<close>

fun bridge_inputs :: "metric_event list \<Rightarrow> (nat \<times> int) list \<Rightarrow> (metric_event list \<times> int) list" where
  "bridge_inputs es [] = []"
| "bridge_inputs es ((n, now) # rounds) = (take n es, now) # bridge_inputs (drop n es) rounds"

lemma bridge_run_inputs:
  assumes "ring_ok q" and "ring_items q = []" and "length es \<le> length (buffer q)"
  shows "bridge_run True es rounds q st = Inr (fst (monitor_rounds (bridge_inputs es rounds) st))"
  using assms
proof (induction rounds arbitrary: es q st)
  case Nil
  then show ?case using push_events_items [of q es] by (auto simp: monitor_rounds_def)
next
  case (Cons r rounds)
  obtain n now where r: "r = (n, now)" by fastforce
  obtain q1 where q1: "push_events True (take n es) q = Inr q1" "ring_ok q1" "ring_items q1 = take n es"
    "length (buffer q1) = length (buffer q)"
    using push_events_items [of q "take n es"] Cons.prems by fastforce
  let ?n = "Suc (length (buffer q1))"
  obtain popped q2 where d: "drain ?n q1 = (popped, q2)" by fastforce
  have "length (ring_items q1) < ?n" unfolding q1(3,4) using Cons.prems(3) by simp
  then have "popped = take n es" "ring_items q2 = []"
    using drain_items [OF q1(2), of ?n] q1(3) unfolding d by auto
  moreover have "ring_ok q2" "length (buffer q2) = length (buffer q)"
    using drain_ok [OF q1(2), of ?n] drain_buffer [OF q1(2), of ?n] q1(4) unfolding d by auto
  ultimately show ?case
    using Cons.IH [of q2 "drop n es"] Cons.prems(3)
    by (simp add: r q1(1) d monitor_rounds_def del: drain.simps)
qed

lemma bridge_inputs_append:
  "bridge_inputs es (pre @ post) = bridge_inputs es pre @ bridge_inputs (drop (sum_list (map fst pre)) es) post"
  by (induction es pre rule: bridge_inputs.induct) (simp_all add: add.commute)

lemma bridge_inputs_events: "concat (map fst (bridge_inputs es rounds)) = take (sum_list (map fst rounds)) es"
  by (induction es rounds rule: bridge_inputs.induct) (simp_all add: take_add)

lemma bridge_inputs_times: "map snd (bridge_inputs es rounds) = map snd rounds"
  by (induction es rounds rule: bridge_inputs.induct) simp_all

text \<open>Rounds that come too early to publish only count.\<close>

lemma early: "x < 100000000 \<Longrightarrow> to_milliseconds x < 100"
  by (cases "0 \<le> x") (auto simp: to_milliseconds_def trunc_div_def sgn_if not_less)

lemma quiet_rounds:
  assumes "\<forall>t \<in> set (map snd inps). t - prev < 100000000"
  shows "monitor_rounds inps (m, prev) = (fold count_event (concat (map fst inps)) m, prev)"
  using assms
proof (induction inps arbitrary: m)
  case (Cons i inps)
  obtain evs t where i: "i = (evs, t)" by fastforce
  have "monitor_round i (m, prev) = (fold count_event evs m, prev)"
    using early [of "t - prev"] Cons.prems by (simp add: i monitor_round_def Let_def)
  then show ?case using Cons by (simp add: i monitor_rounds_def)
qed (simp add: monitor_rounds_def)

lemma count_event_stats: "stats (fold count_event evs m) = stats m"
  by (induction evs arbitrary: m) (simp_all add: count_event_def Let_def)

text \<open>The throughput of a publication.\<close>

lemma moderate: "(2::rat) powi - 1000 \<le> 1 / 2 ^ 40" "(2::rat) ^ 40 \<le> 2 powi 1000"
proof -
  have "(2::rat) powi - 1000 \<le> 2 powi - 40" "(2::rat) powi 40 \<le> 2 powi 1000"
    by (rule power_int_increasing; simp)+
  then show "(2::rat) powi - 1000 \<le> 1 / 2 ^ 40" "(2::rat) ^ 40 \<le> 2 powi 1000"
    by (simp_all only: power_int_minus power_int_numeral inverse_eq_divide)
qed

lemma published_throughput:
  assumes "unat (cumulative_bytes m) < 10 ^ 6" and "100 \<le> elapsed" and "elapsed \<le> 10 ^ 9"
  shows "f_positive (throughput_kbps (stats (publish_stats elapsed m))) \<longleftrightarrow> cumulative_bytes m \<noteq> 0"
proof -
  define n where "n = unat (cumulative_bytes m)"
  have n: "n < 10 ^ 6" using assms(1) by (simp add: n_def)
  have "\<bar>elapsed\<bar> < 2 ^ 53" using assms(2,3) by simp
  then have t: "round_binary64 (of_int elapsed) = Finite (of_int elapsed)" by (rule round_binary64_int)
  have "of_int 100 \<le> (of_int elapsed :: rat)" "(of_int elapsed :: rat) \<le> of_int (10 ^ 9)"
    using assms(2,3) by (simp_all only: of_int_le_iff)
  then have bounds: "100 \<le> (of_int elapsed :: rat)" "(of_int elapsed :: rat) \<le> 10 ^ 9" by simp_all
  have near: "\<exists>r. round_binary64 q = Finite r \<and> q / 2 \<le> r \<and> r \<le> 2 * q" if "1 / 2 ^ 40 \<le> q" "q \<le> 2 ^ 40" for q
    using that moderate by (intro round_binary64_near) (auto intro: order_trans)
  obtain s where s: "round_binary64 (of_int elapsed / 1000) = Finite s" "of_int elapsed / 1000 / 2 \<le> s"
    "s \<le> 2 * (of_int elapsed / 1000)"
    using near [of "of_int elapsed / 1000"] bounds by auto
  have pos: "0 < s" "1 / 20 \<le> s" "s \<le> 2 * 10 ^ 6" using s bounds by simp_all
  obtain u where u: "round_binary64 (s * 1000) = Finite u" "s * 1000 / 2 \<le> u" "u \<le> 2 * (s * 1000)"
    using near [of "s * 1000"] pos by auto
  have upos: "25 \<le> u" "u \<le> 4 * 10 ^ 9" using u pos by simp_all
  have "n * 8 < 2 ^ 53" "n < 2 ^ 53" using n by simp_all
  then have b: "double_of_u64 (cumulative_bytes m) = Finite (of_nat n)"
    "round_binary64 (of_nat n * 8) = Finite (of_nat (n * 8))"
    using round_binary64_nat [of "n * 8"] by (simp_all add: double_of_u64_def double_of_nat_exact flip: n_def)
  have "throughput_kbps (stats (publish_stats elapsed m)) = round_binary64 (of_nat (n * 8) / u)"
    using upos by (simp add: publish_stats_def t s(1) pos(1) u(1) b Let_def)
  moreover have "f_positive (round_binary64 (of_nat (n * 8) / u))" if "n \<noteq> 0"
  proof -
    have "(1::rat) \<le> of_nat n" using that by simp
    have "(8::rat) / (4 * 10 ^ 9) \<le> of_nat (n * 8) / u"
      using upos that by (intro frac_le) simp_all
    moreover have "of_nat (n * 8) / u \<le> of_nat (n * 8) / 25"
      using upos by (intro divide_left_mono) simp_all
    moreover have "(of_nat n :: rat) \<le> of_nat (10 ^ 6)" using n by (simp only: of_nat_le_iff)
    ultimately obtain r where r: "round_binary64 (of_nat (n * 8) / u) = Finite r" "of_nat (n * 8) / u / 2 \<le> r"
      using near [of "of_nat (n * 8) / u"] by auto
    have "0 < (of_nat (n * 8) :: rat) / u / 2" using upos that by simp
    then have "0 < r" using r(2) by (rule less_le_trans)
    then show ?thesis unfolding f_positive_def r(1) by simp
  qed
  moreover have "\<not> f_positive (round_binary64 (of_nat (n * 8) / u))" if "n = 0"
    using that by (simp add: round_binary64_def f_positive_def)
  ultimately show ?thesis by (auto simp: n_def unat_eq_0)
qed

text \<open>The events of the test.\<close>

lemma bridge_events_facts:
  "length (bridge_events clk) = 12"
  "delivered (bridge_events clk) = map (\<lambda>i. bridge_event (of_int (clk i))) [0..<10]"
  "sum_bytes (bridge_events clk) = 10000"
  "sum_list (map (\<lambda>e. unat (latency_ns e)) (delivered (bridge_events clk))) = 1500"
proof -
  show "length (bridge_events clk) = 12" by (simp add: bridge_events_def)
  show d: "delivered (bridge_events clk) = map (\<lambda>i. bridge_event (of_int (clk i))) [0..<10]"
    by (simp add: bridge_events_def filter_map comp_def bridge_event_def bridge_drop_event_def)
  show "sum_bytes (bridge_events clk) = 10000"
    "sum_list (map (\<lambda>e. unat (latency_ns e)) (delivered (bridge_events clk))) = 1500"
    unfolding d by (simp_all add: bridge_event_def comp_def sum_list_triv)
qed

definition bridge_monitor :: "metric_event list \<Rightarrow> monitor" where
  "bridge_monitor es = fold count_event es (monitor_new\<lparr>running := True\<rparr>)"

lemma bridge_monitor_facts:
  "accounts es (bridge_monitor es)" "stats (bridge_monitor es) = stats monitor_new"
  using accounts_events [of "[]" "monitor_new\<lparr>running := True\<rparr>" es] accounts_new
  by (simp_all add: bridge_monitor_def accounts_def count_event_stats)

text \<open>What the test sees after a publication of all events, and of none after that.\<close>

lemma bridge_published:
  fixes clk :: clock
  assumes "100 \<le> elapsed" and "elapsed \<le> 10 ^ 9"
  defines "m \<equiv> publish_stats elapsed (bridge_monitor (bridge_events clk))"
  shows "total_packets (stats m) = 12" and "dropped_packets (stats m) = 2" and "total_bytes (stats m) = 10000"
    and "average_latency_ns (stats m) = Finite 150" and "f_positive (throughput_kbps (stats m))"
    and "accounts (bridge_events clk) m" and "cumulative_bytes m = 0"
proof -
  let ?m = "bridge_monitor (bridge_events clk)"
  note acc = bridge_monitor_facts(1) [of "bridge_events clk"]
  have bytes: "cumulative_bytes ?m = 10000"
    using acc bridge_monitor_facts(2) [of "bridge_events clk"] bridge_events_facts(3) [of clk]
    by (simp add: accounts_def monitor_new_def)
  have counts: "cumulative_packets ?m = 12" "cumulative_dropped ?m = 2"
    using acc bridge_events_facts [of clk] by (simp_all add: accounts_def)
  show "total_packets (stats m) = 12" "dropped_packets (stats m) = 2" "total_bytes (stats m) = 10000"
      "cumulative_bytes m = 0"
    using bytes counts bridge_monitor_facts(2) [of "bridge_events clk"]
    by (simp_all add: m_def publish_stats_def Let_def monitor_new_def)
  have "average_latency_ns (get_latest_metrics m) = round_binary64 (of_nat 1500 / of_nat 10)"
    using published_average [OF acc, of elapsed] unfolding m_def bridge_events_facts(1,4)
    by (simp add: bridge_events_facts(2))
  then show "average_latency_ns (stats m) = Finite 150"
    using round_binary64_int [of 150] by (simp add: get_latest_metrics_def)
  show "f_positive (throughput_kbps (stats m))"
    using published_throughput [of ?m elapsed] assms(1,2) by (simp add: bytes m_def)
  show "accounts (bridge_events clk) m" unfolding m_def by (rule accounts_publish [OF acc])
qed

text \<open>The schedules on which the test was written to run: one round publishes, all events have been pushed
  before it, and no later round publishes before the main thread looks.\<close>

definition published_once :: "int \<Rightarrow> (nat \<times> int) list \<Rightarrow> bool" where
  "published_once t0 rounds \<longleftrightarrow>
     (\<exists>pre n now post. rounds = pre @ (n, now) # post \<and> 12 \<le> sum_list (map fst pre) + n \<and>
        (\<forall>t \<in> set (map snd pre). t - t0 < 100000000) \<and>
        100000000 \<le> now - t0 \<and> now - t0 \<le> 10 ^ 15 \<and>
        (\<forall>t \<in> set (map snd post). t - now < 100000000))"

lemma due:
  assumes "100000000 \<le> x" and "x \<le> 10 ^ 15"
  shows "100 \<le> to_milliseconds x" and "to_milliseconds x \<le> 10 ^ 9"
  using assms by (simp_all add: to_milliseconds_nonneg)

lemma started_monitor: "snd (monitor_start monitor_new) = monitor_new\<lparr>running := True\<rparr>"
  by (simp add: monitor_start_def monitor_new_def)

lemma bridge_result:
  assumes "length buf = 1024"
  shows "test_lock_free_telemetry_bridge True buf clk t0 rounds =
    (let stats = get_latest_metrics (fst (monitor_rounds (bridge_inputs (bridge_events clk) rounds)
           (monitor_new\<lparr>running := True\<rparr>, t0))) in
     asserting True 223 (total_packets stats = 12)
    (asserting True 224 (dropped_packets stats = 2)
    (asserting True 225 (total_bytes stats = 10000)
    (asserting True 226 (average_latency_ns stats = Finite 150)
    (asserting True 227 (f_positive (throughput_kbps stats))
    (Inr ()))))))"
proof -
  have "ring_ok (ring_new buf)" "ring_items (ring_new buf) = []"
    "length (bridge_events clk) \<le> length (buffer (ring_new buf))"
    using assms by (auto simp: ring_new_def ring_ok_def ring_items_def bridge_events_facts intro: exI [of _ 10])
  from bridge_run_inputs [OF this] show ?thesis
    by (simp add: test_lock_free_telemetry_bridge_def started_monitor)
qed

lemma monitor_rounds_append: "monitor_rounds (a @ b) st = monitor_rounds b (monitor_rounds a st)"
  by (simp add: monitor_rounds_def)

lemma first_publication:
  assumes "12 \<le> sum_list (map fst pre) + n" and "\<forall>t \<in> set (map snd pre). t - t0 < 100000000"
    and "100000000 \<le> now - t0" and "now - t0 \<le> 10 ^ 15"
  shows "monitor_rounds (bridge_inputs (bridge_events clk) (pre @ (n, now) # post)) (monitor_new\<lparr>running := True\<rparr>, t0) =
    monitor_rounds (bridge_inputs [] post)
      (publish_stats (to_milliseconds (now - t0)) (bridge_monitor (bridge_events clk)), now)"
proof -
  let ?es = "bridge_events clk" and ?k = "sum_list (map fst pre)"
  have all: "take ?k ?es @ take n (drop ?k ?es) = ?es" "drop n (drop ?k ?es) = []"
    using assms(1) bridge_events_facts(1) [of clk] by (simp_all flip: take_add)
  have "monitor_rounds (bridge_inputs ?es pre) (monitor_new\<lparr>running := True\<rparr>, t0) =
      (bridge_monitor (take ?k ?es), t0)"
    using assms(2) quiet_rounds [of "bridge_inputs ?es pre" t0]
    unfolding bridge_inputs_times bridge_inputs_events by (simp add: bridge_monitor_def)
  moreover have "fold count_event (take n (drop ?k ?es)) (bridge_monitor (take ?k ?es)) = bridge_monitor ?es"
    unfolding bridge_monitor_def fold_append [symmetric, THEN fun_cong, unfolded comp_def] all(1) ..
  ultimately show ?thesis
    using due [OF assms(3,4)] all(2)
    by (simp add: bridge_inputs_append monitor_rounds_append) (simp add: monitor_rounds_def monitor_round_def Let_def)
qed

lemma bridge_inputs_Nil_events: "concat (map fst (bridge_inputs [] rounds)) = []"
  by (simp add: bridge_inputs_events)

lemma bridge_passes:
  assumes "length buf = 1024" and "published_once t0 rounds"
  shows "test_lock_free_telemetry_bridge True buf clk t0 rounds = Inr ()"
proof -
  obtain pre n now post where r: "rounds = pre @ (n, now) # post" "12 \<le> sum_list (map fst pre) + n"
    "\<forall>t \<in> set (map snd pre). t - t0 < 100000000" "100000000 \<le> now - t0" "now - t0 \<le> 10 ^ 15"
    "\<forall>t \<in> set (map snd post). t - now < 100000000"
    using assms(2) unfolding published_once_def by blast
  let ?m = "publish_stats (to_milliseconds (now - t0)) (bridge_monitor (bridge_events clk))"
  have "monitor_rounds (bridge_inputs [] post) (?m, now) = (?m, now)"
    using quiet_rounds [of "bridge_inputs [] post" now ?m] r(6)
    unfolding bridge_inputs_times bridge_inputs_Nil_events by simp
  then show ?thesis
    using bridge_published [OF due [OF r(4,5)], of clk] first_publication [OF r(2-5), of clk post]
    unfolding bridge_result [OF assms(1)] r(1) by (simp add: get_latest_metrics_def)
qed

text \<open>Two schedules on which the test fails with correct components: the main thread looks before the first
  publication, or only after a second one, which finds no new bytes and publishes a throughput of 0.\<close>

theorem bridge_depends_on_schedule:
  assumes "length buf = 1024" and "\<forall>t \<in> set (map snd pre). t - t0 < 100000000"
    and "100000000 \<le> t1 - t0" and "t1 - t0 \<le> 10 ^ 15" and "100000000 \<le> t2 - t1" and "t2 - t1 \<le> 10 ^ 15"
    and "12 \<le> sum_list (map fst pre) + n"
  shows "test_lock_free_telemetry_bridge True buf clk t0 pre = Inl (AssertionFailed 223) \<and>
    test_lock_free_telemetry_bridge True buf clk t0 (pre @ [(n, t1)]) = Inr () \<and>
    test_lock_free_telemetry_bridge True buf clk t0 (pre @ [(n, t1), (0, t2)]) = Inl (AssertionFailed 227)"
proof (intro conjI)
  have "monitor_rounds (bridge_inputs (bridge_events clk) pre) (monitor_new\<lparr>running := True\<rparr>, t0) =
      (bridge_monitor (take (sum_list (map fst pre)) (bridge_events clk)), t0)"
    using assms(2) quiet_rounds [of "bridge_inputs (bridge_events clk) pre" t0]
    unfolding bridge_inputs_times bridge_inputs_events by (simp add: bridge_monitor_def)
  then show "test_lock_free_telemetry_bridge True buf clk t0 pre = Inl (AssertionFailed 223)"
    unfolding bridge_result [OF assms(1)]
    by (simp add: get_latest_metrics_def bridge_monitor_facts asserting_def) (simp add: monitor_new_def)
  show "test_lock_free_telemetry_bridge True buf clk t0 (pre @ [(n, t1)]) = Inr ()"
  proof (rule bridge_passes [OF assms(1)])
    show "published_once t0 (pre @ [(n, t1)])"
      unfolding published_once_def using assms(2-4,7)
      by (intro exI [of _ pre] exI [of _ n] exI [of _ t1] exI [of _ "[]"]) simp_all
  qed
  let ?m1 = "publish_stats (to_milliseconds (t1 - t0)) (bridge_monitor (bridge_events clk))"
  let ?m2 = "publish_stats (to_milliseconds (t2 - t1)) ?m1"
  note m1 = bridge_published [OF due [OF assms(3,4)], of clk]
  have run: "monitor_rounds (bridge_inputs (bridge_events clk) (pre @ [(n, t1), (0, t2)]))
      (monitor_new\<lparr>running := True\<rparr>, t0) = (?m2, t2)"
    using first_publication [OF assms(7,2,3,4), of clk "[(0, t2)]"] due(1) [OF assms(5,6)]
    by (simp add: monitor_rounds_def monitor_round_def Let_def)
  have "total_packets (stats ?m2) = 12" "dropped_packets (stats ?m2) = 2"
    using m1(6) bridge_events_facts [of clk] by (simp_all add: publish_stats_def Let_def accounts_def)
  moreover have "total_bytes (stats ?m2) = 10000"
    using m1(3,7) by (simp add: publish_stats_def [of _ ?m1] Let_def)
  moreover have "average_latency_ns (stats ?m2) = Finite 150"
  proof -
    have "average_latency_ns (get_latest_metrics ?m2) = round_binary64 (of_nat 1500 / of_nat 10)"
      using published_average [OF m1(6), of "to_milliseconds (t2 - t1)"] unfolding bridge_events_facts(1,4)
      by (simp add: bridge_events_facts(2))
    then show ?thesis using round_binary64_int [of 150] by (simp add: get_latest_metrics_def)
  qed
  moreover have "\<not> f_positive (throughput_kbps (stats ?m2))"
    using published_throughput [of ?m1 "to_milliseconds (t2 - t1)"] due [OF assms(5,6)] m1(7) by simp
  ultimately show "test_lock_free_telemetry_bridge True buf clk t0 (pre @ [(n, t1), (0, t2)]) = Inl (AssertionFailed 227)"
    unfolding bridge_result [OF assms(1)] run by (simp add: get_latest_metrics_def asserting_def)
qed

section \<open>The rate limiter\<close>

abbreviation lab_limiter :: "rate_limiter \<Rightarrow> bool" where
  "lab_limiter l \<equiv> unat (emission_interval_ns l) = 100000000 \<and> unat (tolerance_ns l) = 400000000"

definition lab_node :: "node \<Rightarrow> nat \<Rightarrow> bool" where
  "lab_node nd tat \<longleftrightarrow> (\<exists>l. node_limiter nd = Some l \<and> lab_limiter l \<and> unat (tat_ns l) = tat)"

text \<open>One packet at the time \<open>t\<close>.\<close>

lemma lab_receive:
  assumes "lab_node nd tat" and "t + 1000000000 < 2 ^ 64" and "0 \<le> t"
  shows "tat \<le> nat t + 400000000 \<Longrightarrow>
      \<exists>nd'. receive_packet 0 nd (of_int t) = (True, nd') \<and> lab_node nd' (max (nat t) tat + 100000000)"
    and "nat t + 400000000 < tat \<Longrightarrow>
      \<exists>nd'. receive_packet 0 nd (of_int t) = (False, nd') \<and> lab_node nd' tat"
proof -
  obtain l where l: "node_limiter nd = Some l" "lab_limiter l" "unat (tat_ns l) = tat"
    using assms(1) unfolding lab_node_def by blast
  have "(of_int t :: u64) = of_nat (nat t)" using assms(3) by simp
  moreover have "nat t < 2 ^ LENGTH(64)" using assms(2,3) by simp
  ultimately have t: "unat (of_int t :: u64) = nat t" by (simp only: unat_of_nat_small)
  have nw: "no_wrap l (nat t)" using assms(2,3) l(2) by (simp add: no_wrap_def)
  have r: "receive_packet 0 nd (of_int t) =
      (fst (gcra_atomic l (of_int t)), nd\<lparr>node_limiter := Some (snd (gcra_atomic l (of_int t)))\<rparr>)"
    by (simp add: receive_packet_def l(1) gcra_allow_atomic case_prod_beta)
  have le: "unat (of_int t :: u64) \<le> nat t" by (simp only: t)
  show "\<exists>nd'. receive_packet 0 nd (of_int t) = (True, nd') \<and> lab_node nd' (max (nat t) tat + 100000000)"
    if "tat \<le> nat t + 400000000"
    using nw le
  proof (cases rule: atomic_cases)
    case reject
    then show ?thesis using that l(2,3) unfolding t by linarith
  next
    case (admit l')
    then show ?thesis using l(2,3) unfolding r t lab_node_def by simp
  qed
  show "\<exists>nd'. receive_packet 0 nd (of_int t) = (False, nd') \<and> lab_node nd' tat"
    if "nat t + 400000000 < tat"
    using nw le
  proof (cases rule: atomic_cases)
    case reject
    then show ?thesis using l unfolding r lab_node_def by simp
  next
    case (admit l')
    then show ?thesis using that l(2,3) unfolding t by linarith
  qed
qed

text \<open>A window: six readings within the first 100 milliseconds after an instant at which the bucket is full.\<close>

definition burst_window :: "clock \<Rightarrow> bool" where
  "burst_window clk \<longleftrightarrow> 0 \<le> clk 0 \<and> clk 0 + 10000000000 < 2 ^ 64 \<and>
     (\<forall>i < 6. clk 0 \<le> clk i \<and> clk i < clk 0 + 100000000)"

lemma window_rest:
  assumes "lab_node nd (nat t0 + k * 100000000)" and "1 \<le> k" and "k + n \<le> 5" and "0 \<le> t0"
    and "t0 + 10000000000 < 2 ^ 64" and "\<forall>i < n. t0 \<le> clk i \<and> clk i < t0 + 100000000"
  shows "\<exists>nd'. expect_packets True line True n (nd, clk) = Inr (nd', \<lambda>i. clk (i + n)) \<and>
    lab_node nd' (nat t0 + (k + n) * 100000000)"
  using assms
proof (induction n arbitrary: nd clk k)
  case (Suc n)
  have now: "t0 \<le> clk 0" "clk 0 < t0 + 100000000" using Suc.prems(6) by auto
  have small: "clk 0 + 1000000000 < 2 ^ 64" "0 \<le> clk 0" using now Suc.prems(4,5) by simp_all
  have "k * 100000000 \<le> 400000000" using Suc.prems(3) by simp
  moreover have "nat t0 \<le> nat (clk 0)" using now(1) by simp
  ultimately have "nat t0 + k * 100000000 \<le> nat (clk 0) + 400000000" by linarith
  from lab_receive(1) [OF Suc.prems(1) small this] obtain nd1 where
    nd1: "receive_packet 0 nd (of_int (clk 0)) = (True, nd1)"
    "lab_node nd1 (max (nat (clk 0)) (nat t0 + k * 100000000) + 100000000)" by blast
  have "nat (clk 0) \<le> nat t0 + k * 100000000" using now(2) Suc.prems(2,4) by (cases k) auto
  then have "lab_node nd1 (nat t0 + Suc k * 100000000)" using nd1(2) by (simp add: max_def algebra_simps)
  moreover have "\<forall>i < n. t0 \<le> clock_rest clk i \<and> clock_rest clk i < t0 + 100000000"
    using Suc.prems(6) by (auto simp: clock_rest_def)
  ultimately obtain nd' where "expect_packets True line True n (nd1, clock_rest clk) =
      Inr (nd', \<lambda>i. clock_rest clk (i + n))" "lab_node nd' (nat t0 + (Suc k + n) * 100000000)"
    using Suc.IH [of nd1 "Suc k" "clock_rest clk"] Suc.prems(3-5) by auto
  then show ?case by (simp add: clock_now_def nd1(1)) (simp add: clock_rest_def)
qed simp

lemma window_passes:
  assumes "lab_node nd tat" and "burst_window clk" and "int tat \<le> clk 0"
  shows "\<exists>nd' nd''. expect_packets True a True 5 (nd, clk) = Inr (nd', \<lambda>i. clk (i + 5)) \<and>
    expect_packets True b False 1 (nd', \<lambda>i. clk (i + 5)) = Inr (nd'', \<lambda>i. clk (i + 6)) \<and>
    lab_node nd'' (nat (clk 0) + 500000000)"
proof -
  have w: "0 \<le> clk 0" "clk 0 + 10000000000 < 2 ^ 64" "\<And>i. i < 6 \<Longrightarrow> clk 0 \<le> clk i \<and> clk i < clk 0 + 100000000"
    using assms(2) by (auto simp: burst_window_def)
  have "tat \<le> nat (clk 0) + 400000000" using assms(3) by simp
  then obtain nd1 where nd1: "receive_packet 0 nd (of_int (clk 0)) = (True, nd1)"
    "lab_node nd1 (max (nat (clk 0)) tat + 100000000)"
    using lab_receive(1) [OF assms(1), of "clk 0"] w(1,2) by auto
  have "max (nat (clk 0)) tat = nat (clk 0)" using assms(3) by simp
  then have "lab_node nd1 (nat (clk 0) + 1 * 100000000)" using nd1(2) by simp
  moreover have "\<forall>i < 4. clk 0 \<le> clock_rest clk i \<and> clock_rest clk i < clk 0 + 100000000"
    using w(3) by (simp add: clock_rest_def)
  ultimately obtain nd5 where nd5: "expect_packets True a True 4 (nd1, clock_rest clk) =
      Inr (nd5, \<lambda>i. clock_rest clk (i + 4))" "lab_node nd5 (nat (clk 0) + 500000000)"
    using window_rest [of nd1 "clk 0" 1 4 "clock_rest clk" a] w(1,2) by auto
  have five: "expect_packets True a True 5 (nd, clk) = Inr (nd5, \<lambda>i. clk (i + 5))"
  proof -
    have "expect_packets True a True (Suc 4) (nd, clk) = Inr (nd5, \<lambda>i. clock_rest clk (i + 4))"
      by (simp only: expect_packets.simps) (simp add: clock_now_def nd1(1) nd5(1))
    then show ?thesis by (simp add: clock_rest_def eval_nat_numeral)
  qed
  have "0 \<le> clk 5" "clk 5 < clk 0 + 100000000" using w(1) w(3) [of 5] by simp_all
  then have late: "nat (clk 5) + 400000000 < nat (clk 0) + 500000000" using w(1) by arith
  obtain nd6 where nd6: "receive_packet 0 nd5 (of_int (clk 5)) = (False, nd6)" "lab_node nd6 (nat (clk 0) + 500000000)"
    using lab_receive(2) [OF nd5(2), of "clk 5"] late w(1,2) w(3) [of 5] by auto
  have rest: "clock_rest (\<lambda>i. clk (i + 5)) = (\<lambda>i. clk (i + 6))"
    by (simp add: clock_rest_def eval_nat_numeral)
  have "expect_packets True b False (Suc 0) (nd5, \<lambda>i. clk (i + 5)) = Inr (nd6, \<lambda>i. clk (i + 6))"
    by (simp add: rest clock_now_def nd6(1))
  with five nd6(2) show ?thesis by auto
qed

lemma traffic_counted: "(case generate_traffic n st (a, b) of (x, y) \<Rightarrow> x + y) = a + b + of_nat n"
proof (induction n arbitrary: st a b)
  case (Suc n)
  obtain ok nd where "receive_packet 0 (fst st) (of_int (clock_now (snd st))) = (ok, nd)" by fastforce
  then show ?case
    using Suc.IH [of "(nd, clock_rest (snd st))"] by (cases ok) (auto simp: algebra_simps split: prod.splits)
qed simp

lemma lab_limiter_new: "\<exists>l. gcra_new (Finite 10) (Finite 5) = Some l \<and> lab_limiter l \<and> tat_ns l = 0"
  using gcra_new_exact [of 10 5] by (auto simp: dvd_def)

lemma rate_limiting_passes:
  assumes "burst_window clk" and "burst_window (\<lambda>i. clk (i + 6))" and "clk 0 + 500000000 \<le> clk 6"
  shows "test_rate_limiting_security_pipeline True clk = Inr ()"
proof -
  obtain l where l: "gcra_new (Finite 10) (Finite 5) = Some l" "lab_limiter l" "tat_ns l = 0"
    using lab_limiter_new by blast
  define nd where "nd = node_new 1 ''ProtectedServer'' (IPv4Address 0xC0A8010A) (SubnetMask 0xFFFFFF00) ''00:BB:00:11:11:11''"
  have en: "enable_rate_limiting nd (Finite 10) (Finite 5) = Some (nd\<lparr>node_limiter := Some l\<rparr>)"
    by (simp add: enable_rate_limiting_def l(1))
  have "lab_node (nd\<lparr>node_limiter := Some l\<rparr>) 0" using l(2,3) by (simp add: lab_node_def)
  moreover have "int 0 \<le> clk 0" using assms(1) by (simp add: burst_window_def)
  ultimately obtain nd1 nd2 where 1:
    "expect_packets True 92 True 5 (nd\<lparr>node_limiter := Some l\<rparr>, clk) = Inr (nd1, \<lambda>i. clk (i + 5))"
    "expect_packets True 95 False 1 (nd1, \<lambda>i. clk (i + 5)) = Inr (nd2, \<lambda>i. clk (i + 6))"
    "lab_node nd2 (nat (clk 0) + 500000000)"
    using window_passes [OF _ assms(1)] by blast
  have "int (nat (clk 0) + 500000000) \<le> clk (0 + 6)" using assms(1,3) by (simp add: burst_window_def)
  then have "\<exists>nd3 nd4. expect_packets True 101 True 5 (nd2, \<lambda>i. clk (i + 6)) = Inr (nd3, \<lambda>i. clk (i + 11)) \<and>
    expect_packets True 103 False 1 (nd3, \<lambda>i. clk (i + 11)) = Inr (nd4, \<lambda>i. clk (i + 12))"
    using window_passes [OF 1(3) assms(2), of 101 103] by (simp add: add.assoc del: One_nat_def) blast
  then obtain nd3 nd4 where 2: "expect_packets True 101 True 5 (nd2, \<lambda>i. clk (i + 6)) = Inr (nd3, \<lambda>i. clk (i + 11))"
    "expect_packets True 103 False 1 (nd3, \<lambda>i. clk (i + 11)) = Inr (nd4, \<lambda>i. clk (i + 12))"
    by blast
  show ?thesis
    using traffic_counted [of 40 "(nd4, \<lambda>i. clk (i + 12))" 0 0]
    by (simp add: test_rate_limiting_security_pipeline_def lab_addresses mask_24 en 1 2 case_prod_beta
        flip: nd_def del: expect_packets.simps generate_traffic.simps One_nat_def)
qed

end
