(* ===== verification/SelfTestKernel.thy ===== *)
theory SelfTestKernel
  imports SelfTestOutcome
begin

text \<open>
  The self test on a kernel: the socket test closes what it opens on every path but a failed assertion; it passes on
  a machine with a loopback interface; and then, under the conditions \<open>lab_ready\<close> on clocks, schedule and allocator,
  the whole program ends with status 0.
\<close>

section \<open>Descriptors\<close>

lemma accept_one_fds:
  assumes "descriptors_spec os fds" and "accept_one os srv cb fd fl (loop, k, b) = (r, loop', k', b')"
  shows "loop' = loop \<and> fds k' = fds k"
proof -
  obtain c k1 where 1: "accept_connection os srv k = (c, k1)" by fastforce
  note acc = accept_connection_fds [OF assms(1), where srv = srv and k = k, unfolded 1]
  show ?thesis
  proof (cases "\<exists>conn. c = Inr (Some conn)")
    case False
    then show ?thesis using acc assms(2) by (auto simp: accept_one_def 1 split: sum.splits option.splits)
  next
    case True
    then obtain conn where c: "c = Inr (Some conn)" by blast
    have "fds (close_socket os (conn_socket conn) k1) = fds k1 - {conn_socket conn}"
      using accept_connection_valid [OF assms(1) 1 [unfolded c]] by (rule close_valid_fds [OF assms(1)])
    then show ?thesis using acc assms(2) by (auto simp: accept_one_def 1 c)
  qed
qed

lemma poll_accept_fds:
  assumes "descriptors_spec os fds" and "epoll_fds_spec eos fds"
    and "poll_once eos SystemException (accept_one os srv) t (loop, k, b) = (r, loop', k', b')"
  shows "loop' = loop \<and> fds k' = fds k"
proof -
  have dispatch: "loop' = loop \<and> fds k' = fds k"
    if "dispatch (accept_one os srv) evs (loop, k, b) = (r, loop', k', b')" for evs k b r loop' k' b'
    using that
  proof (induction evs arbitrary: k b)
    case (Cons e evs)
    obtain fd ev where e: "e = (fd, ev)" by fastforce
    show ?case
    proof (cases "callbacks loop fd")
      case None
      then show ?thesis using Cons by (simp add: e)
    next
      case (Some cb)
      obtain q loop1 k1 b1 where 1: "accept_one os srv cb fd (ucast ev) (loop, k, b) = (q, loop1, k1, b1)"
        by (metis prod_cases4)
      note acc = accept_one_fds [OF assms(1) 1]
      then show ?thesis using Cons by (cases q) (auto simp: e Some 1)
    qed
  qed simp
  obtain w k1 where w: "sys_epoll_wait eos 10 t k = (w, k1)" by fastforce
  have "fds k1 = fds k" using assms(2) w unfolding epoll_fds_spec_def by (metis snd_conv)
  then show ?thesis
    using assms(3) dispatch by (cases w) (auto simp: poll_once_def w split: if_splits)
qed

lemma connect_to_valid:
  assumes "descriptors_spec os fds" and "connect_to os ip p k = (Inr conn, k')"
  shows "is_valid (conn_socket conn)"
proof -
  have "0 \<le> fd" if "sys_socket os k = (Inr fd, k1)" for fd k1
    using socket_fds [OF assms(1), where k = k] that by simp
  then show ?thesis
    using assms(2)
    by (auto simp: connect_to_def connection_new_def is_valid_def split: prod.splits sum.splits option.splits if_splits)
qed

text \<open>The inner scope closes the client's socket, and the server's when it returns normally.\<close>

lemma client_scope_fds:
  assumes os: "descriptors_spec os fds" and eos: "epoll_fds_spec eos fds"
    and run: "async_client_scope checked os eos srv loop k = (r, srv', loop', k')"
    and "r \<noteq> Inl (AssertionFailed 53)" and "is_valid (server_socket srv)" and "server_socket srv \<in> fds k"
  shows "loop' = loop \<and>
    (srv' = srv \<and> fds k' = fds k \<or> server_socket srv' = - 1 \<and> fds k' = fds k - {server_socket srv})"
proof -
  obtain r1 k1 where 1: "connect_to os ''127.0.0.1'' 9090 k = (r1, k1)" by fastforce
  note con = connect_to_fds [OF os, where ip = "''127.0.0.1''" and p = 9090 and k = k, unfolded 1]
  show ?thesis
  proof (cases r1)
    case (Inl e)
    then show ?thesis using run con by (simp add: async_client_scope_def 1)
  next
    case r1: (Inr client)
    let ?c = "conn_socket client"
    have c: "is_valid ?c" "?c \<notin> fds k" "fds k1 = insert ?c (fds k)"
      using connect_to_valid [OF os 1 [unfolded r1]] con r1 by simp_all
    obtain r2 loop2 k2 b where 2: "poll_once eos SystemException (accept_one os srv) 100 (loop, k1, False) =
        (r2, loop2, k2, b)" by (metis prod_cases4)
    have k2: "loop2 = loop" "fds k2 = insert ?c (fds k)" using poll_accept_fds [OF os eos 2] c(3) by simp_all
    show ?thesis
    proof (cases r2)
      case (Inl f)
      then have "srv' = srv" "loop' = loop" "k' = close_socket os ?c k2"
        using run k2(1) by (simp_all add: async_client_scope_def 1 r1 2)
      then show ?thesis using close_valid_fds [OF os c(1)] c(2) k2(2) by simp
    next
      case (Inr u)
      then have "server_socket srv' = - 1" "loop' = loop"
        "k' = close_socket os ?c (close_socket os (server_socket srv) k2)"
        using run assms(4) k2(1)
        by (auto simp: async_client_scope_def 1 r1 2 tcp_server_stop_def move_assign_def split: if_splits)
      then show ?thesis
        using close_valid_fds [OF os c(1)] close_valid_fds [OF os assms(5)] assms(6) c(2) k2(2) by auto
    qed
  qed
qed

text \<open>The socket test leaks no descriptor: unless its assertion ends the process, the same descriptors are open
  after it as before, also when some call throws.\<close>

theorem socket_test_closes:
  assumes os: "descriptors_spec os fds" and eos: "epoll_fds_spec eos fds"
    and run: "test_kqueue_async_loop_pipeline checked os eos k = (r, k')" and "r \<noteq> Inl (AssertionFailed 53)"
  shows "fds k' = fds k"
proof -
  obtain r1 srv k1 where 1: "tcp_server_start os (tcp_server_new 9090) k = (r1, srv, k1)" by (metis prod_cases3)
  note start = tcp_server_start_fds [OF os 1]
  let ?s = "server_socket srv"
  show ?thesis
  proof (cases r1)
    case (Inl e)
    have "fds (close_socket os ?s k1) = fds k"
      using start sys_close_fds [OF os] by (auto simp: close_socket_def)
    then show ?thesis using run by (simp add: test_kqueue_async_loop_pipeline_def 1 Inl)
  next
    case r1: (Inr u)
    then have s: "is_valid ?s" "?s \<notin> fds k" "fds k1 = insert ?s (fds k)" using start by (auto simp: is_valid_def)
    obtain r2 :: "net_error + test_callback event_loop" and k2 where 2: "event_loop_new eos k1 = (r2, k2)"
      by fastforce
    note new = event_loop_new_fds [OF eos 2]
    show ?thesis
    proof (cases r2)
      case (Inl e)
      then have "k' = close_socket os ?s k2"
        using run by (simp add: test_kqueue_async_loop_pipeline_def 1 r1 2)
      then show ?thesis using new Inl s close_valid_fds [OF os s(1)] by simp
    next
      case r2: (Inr loop)
      let ?l = "loop_fd loop"
      have l: "0 \<le> ?l" "?l \<notin> fds k1" "fds k2 = insert ?l (fds k1)" using new r2 by simp_all
      have destroy: "fds (event_loop_destroy os lp k3) = fds k3 - {?l}" if "loop_fd lp = ?l" for lp :: "test_callback event_loop" and k3
        using that l(1) sys_close_fds [OF os] by (simp add: event_loop_destroy_def)
      obtain r3 loop3 k3 where 3: "register_event eos ?s (ucast EPOLLIN) (Some AcceptOne) loop k2 = (r3, loop3, k3)"
        by (metis prod_cases3)
      have k3: "fds k3 = insert ?l (insert ?s (fds k))" "loop_fd loop3 = ?l"
        using register_event_fds [OF eos 3] register_loop_fd [OF 3] l(3) s(3) by auto
      show ?thesis
      proof (cases r3)
        case (Inl e)
        then have "k' = close_socket os ?s (event_loop_destroy os loop3 k3)"
          using run by (simp add: test_kqueue_async_loop_pipeline_def 1 r1 2 r2 3)
        then show ?thesis using close_valid_fds [OF os s(1)] destroy [OF k3(2)] k3(1) l(2) s by auto
      next
        case r3: (Inr u)
        obtain r4 srv4 loop4 k4 where 4: "async_client_scope checked os eos srv loop3 k3 = (r4, srv4, loop4, k4)"
          by (metis prod_cases4)
        have "r4 = r" "k' = close_socket os (server_socket srv4) (event_loop_destroy os loop4 k4)"
          using run assms(4) by (auto simp: test_kqueue_async_loop_pipeline_def 1 r1 2 r2 3 r3 4 split: if_splits)
        moreover have "loop4 = loop3 \<and>
            (srv4 = srv \<and> fds k4 = fds k3 \<or> server_socket srv4 = - 1 \<and> fds k4 = fds k3 - {?s})"
          using client_scope_fds [OF os eos 4 _ s(1)] assms(4) k3(1) calculation(1) by simp
        ultimately show ?thesis
          using close_valid_fds [OF os s(1)] destroy [OF k3(2)] k3(1) l(2) s
          by (auto simp: close_socket_def is_valid_def)
      qed
    qed
  qed
qed

section \<open>A loopback interface\<close>

text \<open>A machine on which the calls of the socket test succeed: port 9090 is free, descriptors and memory are
  available, a connection to the listening socket is put into its backlog, and \<open>epoll_wait\<close> then reports
  the one descriptor that is watched. \<open>watched\<close> is the interest set and \<open>waiting\<close> tells whether the backlog
  has a connection.\<close>

definition loopback_spec :: "'k os \<Rightarrow> 'k epoll_os \<Rightarrow> ('k \<Rightarrow> int set) \<Rightarrow> ('k \<Rightarrow> bool) \<Rightarrow> bool" where
  "loopback_spec os eos watched waiting \<longleftrightarrow>
     (\<forall>k. \<exists>fd k'. sys_socket os k = (Inr fd, k') \<and> 0 \<le> fd \<and> watched k' = watched k) \<and>
     (\<forall>fd k. \<exists>fl k'. sys_getfl os fd k = (Inr fl, k') \<and> watched k' = watched k \<and> waiting k' = waiting k) \<and>
     (\<forall>fd fl k. \<exists>k'. sys_setfl os fd fl k = (None, k') \<and> watched k' = watched k \<and> waiting k' = waiting k) \<and>
     (\<forall>fd k. \<exists>k'. sys_reuseaddr os fd k = (None, k') \<and> watched k' = watched k) \<and>
     (\<forall>fd k. \<exists>k'. sys_bind os fd 9090 k = (None, k') \<and> watched k' = watched k) \<and>
     (\<forall>fd n k. \<exists>k'. sys_listen os fd n k = (None, k') \<and> watched k' = watched k) \<and>
     (\<exists>addr. inet_pton os ''127.0.0.1'' = Some addr) \<and>
     (\<forall>fd a k. \<exists>rc k'. sys_connect os fd a 9090 k = (rc, k') \<and> rc \<in> {None, Some EINPROGRESS} \<and>
        watched k' = watched k \<and> waiting k') \<and>
     (\<forall>s k. waiting k \<longrightarrow> (\<exists>fd k'. sys_accept os s k = (Inr fd, k') \<and> 0 \<le> fd)) \<and>
     (\<forall>k. \<exists>fd k'. sys_epoll_create eos k = (Inr fd, k') \<and> watched k' = watched k) \<and>
     (\<forall>fd ev k. fd \<notin> watched k \<longrightarrow>
        (\<exists>k'. sys_epoll_ctl eos EPOLL_CTL_ADD fd ev k = (None, k') \<and> watched k' = insert fd (watched k))) \<and>
     (\<forall>s t k. waiting k \<longrightarrow> watched k = {s} \<longrightarrow>
        (\<exists>k'. sys_epoll_wait eos 10 t k = (Inr [(s, EPOLLIN)], k') \<and> waiting k'))"

lemma loopbackD:
  assumes "loopback_spec os eos watched waiting"
  shows "\<exists>fd k'. sys_socket os k = (Inr fd, k') \<and> 0 \<le> fd \<and> watched k' = watched k"
    and "\<exists>fl k'. sys_getfl os fd k = (Inr fl, k') \<and> watched k' = watched k \<and> waiting k' = waiting k"
    and "\<exists>k'. sys_setfl os fd fl k = (None, k') \<and> watched k' = watched k \<and> waiting k' = waiting k"
    and "\<exists>k'. sys_reuseaddr os fd k = (None, k') \<and> watched k' = watched k"
    and "\<exists>k'. sys_bind os fd 9090 k = (None, k') \<and> watched k' = watched k"
    and "\<exists>k'. sys_listen os fd n k = (None, k') \<and> watched k' = watched k"
    and "\<exists>addr. inet_pton os ''127.0.0.1'' = Some addr"
    and "\<exists>rc k'. sys_connect os fd a 9090 k = (rc, k') \<and> rc \<in> {None, Some EINPROGRESS} \<and>
      watched k' = watched k \<and> waiting k'"
    and "waiting k \<Longrightarrow> \<exists>fd k'. sys_accept os s k = (Inr fd, k') \<and> 0 \<le> fd"
    and "\<exists>fd k'. sys_epoll_create eos k = (Inr fd, k') \<and> watched k' = watched k"
    and "fd \<notin> watched k \<Longrightarrow>
      \<exists>k'. sys_epoll_ctl eos EPOLL_CTL_ADD fd ev k = (None, k') \<and> watched k' = insert fd (watched k)"
    and "waiting k \<Longrightarrow> watched k = {s} \<Longrightarrow>
      \<exists>k'. sys_epoll_wait eos 10 t k = (Inr [(s, EPOLLIN)], k') \<and> waiting k'"
  using assms by (simp_all add: loopback_spec_def)

lemma loopback_nonblocking:
  assumes "loopback_spec os eos watched waiting"
  shows "\<exists>k'. set_nonblocking os what fd k = (Inr (), k') \<and> watched k' = watched k \<and> waiting k' = waiting k"
proof -
  obtain fl k1 where 1: "sys_getfl os fd k = (Inr fl, k1)" "watched k1 = watched k" "waiting k1 = waiting k"
    using loopbackD(2) [OF assms] by blast
  obtain k2 where "sys_setfl os fd (fl OR O_NONBLOCK) k1 = (None, k2)" "watched k2 = watched k1" "waiting k2 = waiting k1"
    using loopbackD(3) [OF assms] by blast
  with 1 show ?thesis by (simp add: set_nonblocking_def)
qed

lemma loopback_connection:
  assumes "loopback_spec os eos watched waiting" and "0 \<le> fd"
  shows "\<exists>conn k'. connection_new os fd k = (Inr conn, k') \<and> watched k' = watched k \<and> waiting k' = waiting k"
  using loopback_nonblocking [OF assms(1), of "''Failed to set O_NONBLOCK''" fd k] assms(2)
  by (auto simp: connection_new_def is_valid_def)

lemma loopback_server:
  assumes "loopback_spec os eos watched waiting"
  shows "\<exists>srv k'. tcp_server_start os (tcp_server_new 9090) k = (Inr (), srv, k') \<and> watched k' = watched k"
proof -
  obtain fd k1 where 1: "sys_socket os k = (Inr fd, k1)" "watched k1 = watched k"
    using loopbackD(1) [OF assms] by blast
  obtain k2 where 2: "sys_reuseaddr os fd k1 = (None, k2)" "watched k2 = watched k1"
    using loopbackD(4) [OF assms] by blast
  obtain k3 where 3: "set_nonblocking os ''Failed to set O_NONBLOCK on server socket'' fd k2 = (Inr (), k3)"
    "watched k3 = watched k2" using loopback_nonblocking [OF assms] by blast
  obtain k4 where 4: "sys_bind os fd 9090 k3 = (None, k4)" "watched k4 = watched k3"
    using loopbackD(5) [OF assms] by blast
  obtain k5 where "sys_listen os fd 10 k4 = (None, k5)" "watched k5 = watched k4"
    using loopbackD(6) [OF assms] by blast
  with 1 2 3 4 show ?thesis
    by (simp add: tcp_server_start_def tcp_server_new_def move_assign_def close_socket_def)
qed

lemma loopback_connect:
  assumes "loopback_spec os eos watched waiting"
  shows "\<exists>conn k'. connect_to os ''127.0.0.1'' 9090 k = (Inr conn, k') \<and> watched k' = watched k \<and> waiting k'"
proof -
  obtain fd k1 where 1: "sys_socket os k = (Inr fd, k1)" "0 \<le> fd" "watched k1 = watched k"
    using loopbackD(1) [OF assms] by blast
  obtain k2 where 2: "set_nonblocking os ''Failed to set O_NONBLOCK on client socket'' fd k1 = (Inr (), k2)"
    "watched k2 = watched k1" using loopback_nonblocking [OF assms] by blast
  obtain addr where 3: "inet_pton os ''127.0.0.1'' = Some addr" using loopbackD(7) [OF assms] by blast
  obtain rc k4 where 4: "sys_connect os fd addr 9090 k2 = (rc, k4)" "rc \<in> {None, Some EINPROGRESS}"
    "watched k4 = watched k2" "waiting k4" using loopbackD(8) [OF assms] by blast
  obtain conn k5 where "connection_new os fd k4 = (Inr conn, k5)" "watched k5 = watched k4" "waiting k5 = waiting k4"
    using loopback_connection [OF assms 1(2)] by blast
  with 1 2 3 4 show ?thesis by (auto simp: connect_to_def)
qed

lemma socket_test_passes:
  assumes spec: "loopback_spec os eos watched waiting" and "watched k = {}"
  shows "fst (test_kqueue_async_loop_pipeline checked os eos k) = Inr ()"
proof -
  obtain srv k1 where 1: "tcp_server_start os (tcp_server_new 9090) k = (Inr (), srv, k1)" "watched k1 = {}"
    using loopback_server [OF spec, of k] assms(2) by auto
  let ?s = "server_socket srv"
  obtain l k2 where 2: "sys_epoll_create eos k1 = (Inr l, k2)" "watched k2 = {}"
    using loopbackD(10) [OF spec, of k1] 1(2) by auto
  obtain k3 where 3: "sys_epoll_ctl eos EPOLL_CTL_ADD ?s (ucast (ucast EPOLLIN :: u16) OR EPOLLRDHUP) k2 = (None, k3)"
    "watched k3 = {?s}"
    using loopbackD(11) [OF spec, where fd = ?s and k = k2 and ev = "ucast (ucast EPOLLIN :: u16) OR EPOLLRDHUP"] 2(2)
    by auto
  let ?loop = "\<lparr>loop_fd = l, callbacks = [?s \<mapsto> AcceptOne]\<rparr>"
  have reg: "register_event eos ?s (ucast EPOLLIN) (Some AcceptOne) \<lparr>loop_fd = l, callbacks = Map.empty\<rparr> k2 =
      (Inr (), ?loop, k3)"
    using 3(1) by (simp add: register_event_def Let_def)
  obtain client k4 where 4: "connect_to os ''127.0.0.1'' 9090 k3 = (Inr client, k4)" "watched k4 = {?s}" "waiting k4"
    using loopback_connect [OF spec, of k3] 3(2) by auto
  obtain k5 where 5: "sys_epoll_wait eos 10 100 k4 = (Inr [(?s, EPOLLIN)], k5)" "waiting k5"
    using loopbackD(12) [OF spec 4(3,2)] by blast
  obtain fd k6 where 6: "sys_accept os ?s k5 = (Inr fd, k6)" "0 \<le> fd" using loopbackD(9) [OF spec 5(2)] by blast
  obtain conn k7 where 7: "connection_new os fd k6 = (Inr conn, k7)" using loopback_connection [OF spec 6(2)] by blast
  have acc: "accept_connection os srv k5 = (Inr (Some conn), k7)"
    using 6(1) 7 by (simp add: accept_connection_def)
  have poll: "poll_once eos SystemException (accept_one os srv) 100 (?loop, k4, False) =
      (Inr (), ?loop, close_socket os (conn_socket conn) k7, True)"
    by (simp add: poll_once_def 5(1) accept_one_def acc)
  have scope: "fst (async_client_scope checked os eos srv ?loop k3) = Inr ()"
    by (simp add: async_client_scope_def 4(1) poll case_prod_beta)
  obtain r srv' loop' k' where run: "async_client_scope checked os eos srv ?loop k3 = (r, srv', loop', k')"
    by (metis prod_cases4)
  show ?thesis
    using scope by (simp add: test_kqueue_async_loop_pipeline_def 1(1) event_loop_new_def 2(1) reg run)
qed

section \<open>The program\<close>

lemma arena_test_passes:
  assumes "0 < start"
  shows "test_trivially_destructible_memory_arena True start = Inr ()"
proof -
  have "arena_allocate (arena_new start 10240) sizeof_packet alignof_packet =
      Inr (start, (arena_new start 10240)\<lparr>current_cursor := start + sizeof_packet\<rparr>)"
    by (simp add: arena_allocate_def arena_new_def std_align_def align_up_def sizeof_packet_def alignof_packet_def)
  moreover have "packet_of_buffer 0 (Some [0xAA, 0xBB, 0xCC, 0xDD]) 4 =
      Inr \<lparr>header = \<lparr>version = 1, ptype = 0, plength = 4\<rparr>, payload = [0xAA, 0xBB, 0xCC, 0xDD] @ replicate 1496 0\<rparr>"
    using packet_of_buffer_cases [of 0 4 "[0xAA, 0xBB, 0xCC, 0xDD]"] by (simp add: MTU_def min_def)
  ultimately show ?thesis
    using assms by (simp add: test_trivially_destructible_memory_arena_def)
qed

text \<open>The conditions under which the test program was meant to run: the hash order is some order, the routing test
  takes less than the recovery timeout of five seconds, the packets come in two bursts of less than 100
  milliseconds half a second apart, the monitor publishes once, and the kernel has a loopback interface.\<close>

definition lab_ready :: "('k \<Rightarrow> int set) \<Rightarrow> ('k \<Rightarrow> bool) \<Rightarrow> ('g, 'k) lab \<Rightarrow> 'k \<Rightarrow> bool" where
  "lab_ready watched waiting s k \<longleftrightarrow>
     lab_allocator s 19 \<and> (\<forall>xs. mset (lab_order s xs) = mset xs) \<and>
     (\<exists>t0. readings_in t0 (t0 + 5000000000) (lab_routing_clock s)) \<and>
     length (lab_buffer s) = 1024 \<and> published_once (lab_monitor_start s) (lab_rounds s) \<and>
     within_bound (lab_uniform s) \<and>
     burst_window (lab_limiter_clock s) \<and> burst_window (\<lambda>i. lab_limiter_clock s (i + 6)) \<and>
     lab_limiter_clock s 0 + 500000000 \<le> lab_limiter_clock s 6 \<and>
     loopback_spec (lab_os s) (lab_epoll s) watched waiting \<and> watched k = {} \<and> 0 < lab_arena s"

text \<open>C14 With assertions compiled, and under the conditions \<open>lab_ready\<close> (the clocks of the routing and the limiter test
  within their windows, a monitor that publishes exactly once, a successful allocation, a non-null arena, a lawful
  hash order and random generator, a kernel with a loopback interface), the whole self test passes on the models and
  ends with status 0: every component, and their interplay in
  routing under a tripped breaker, in the telemetry bridge and on the sockets, behaves as the authors' tests
  expect, for every byte order.\<close>

theorem self_test_passes:
  assumes "lab_ready watched waiting s k"
  shows "exit_status (self_test True s k) = Some 0"
proof -
  have order: "\<forall>xs. mset (lab_order s xs) = mset xs" and unif: "within_bound (lab_uniform s)"
    and alloc: "lab_allocator s 19" and arena: "0 < lab_arena s"
    and bridge: "length (lab_buffer s) = 1024" "published_once (lab_monitor_start s) (lab_rounds s)"
    and limiter: "burst_window (lab_limiter_clock s)" "burst_window (\<lambda>i. lab_limiter_clock s (i + 6))"
      "lab_limiter_clock s 0 + 500000000 \<le> lab_limiter_clock s 6"
    and kernel: "loopback_spec (lab_os s) (lab_epoll s) watched waiting" "watched k = {}"
    using assms unfolding lab_ready_def by - (elim conjE exE, assumption)+
  obtain t0 where "readings_in t0 (t0 + 5000000000) (lab_routing_clock s)"
    using assms unfolding lab_ready_def by (elim conjE exE)
  then have t0: "readings_in t0 (t0 + 1000000 * 5000) (lab_routing_clock s)" by simp
  obtain clk where fault: "test_fault_tolerance_pipeline True (lab_order s) (lab_uniform s) (lab_seed s)
      (lab_routing_clock s) = Inr clk"
    using fault_tolerance_passes [OF order unif t0] by blast
  have "self_test True s k = Inr ()"
    by (simp add: self_test_def codec_passes arp_passes parsing_passes [of "lab_allocator s", OF alloc] subnetting_passes
        routing_passes [OF order] bridge_passes [OF bridge] fault rate_limiting_passes [OF limiter]
        socket_test_passes [OF kernel] arena_test_passes [OF arena])
  then show ?thesis by (simp add: exit_status_def)
qed

section \<open>A run\<close>

text \<open>A kernel with a loopback interface: the next descriptor, the interest set and the backlog.\<close>

type_synonym loop_kernel = "nat \<times> int list \<times> bool"

definition next_fd :: "loop_kernel \<Rightarrow> (errno + int) \<times> loop_kernel" where
  "next_fd k = (Inr (int (fst k)), Suc (fst k), snd k)"

definition loop_os :: "loop_kernel os" where
  "loop_os =
     \<lparr>sys_socket = next_fd,
      sys_close = (\<lambda>fd k. k),
      sys_getfl = (\<lambda>fd k. (Inr 2, k)),
      sys_setfl = (\<lambda>fd flags k. (None, k)),
      sys_reuseaddr = (\<lambda>fd k. (None, k)),
      sys_connect = (\<lambda>fd a p k. (Some EINPROGRESS, fst k, fst (snd k), True)),
      sys_bind = (\<lambda>fd p k. (None, k)),
      sys_listen = (\<lambda>fd n k. (None, k)),
      sys_accept = (\<lambda>s k. if snd (snd k) then next_fd (fst k, fst (snd k), False) else (Inl EAGAIN, k)),
      sys_send = (\<lambda>fd bytes k. (Inr (length bytes), k)),
      sys_recv = (\<lambda>fd n k. (Inl EAGAIN, k)),
      inet_pton = (\<lambda>s. Some 0x7F000001)\<rparr>"

definition loop_epoll :: "loop_kernel epoll_os" where
  "loop_epoll =
     \<lparr>sys_epoll_create = next_fd,
      sys_epoll_ctl = (\<lambda>op fd ev k. (None, fst k, fd # fst (snd k), snd (snd k))),
      sys_epoll_wait = (\<lambda>n t k.
        (Inr (if snd (snd k) then map (\<lambda>fd. (fd, EPOLLIN)) (remdups (fst (snd k))) else []), k))\<rparr>"

lemma remdups_one: "set xs = {s} \<Longrightarrow> remdups xs = [s]"
proof -
  assume s: "set xs = {s}"
  then have "length (remdups xs) = 1" using length_remdups_card_conv [of xs] by simp
  then obtain y where "remdups xs = [y]" by (auto simp: length_Suc_conv)
  moreover from this have "set xs = {y}" by (metis list.set(1,2) set_remdups)
  ultimately show ?thesis using s by simp
qed

lemma loop_kernel_spec: "loopback_spec loop_os loop_epoll (set \<circ> fst \<circ> snd) (snd \<circ> snd)"
  unfolding loopback_spec_def
  by (auto simp: loop_os_def loop_epoll_def next_fd_def remdups_one)

definition lab_setup :: "(unit, loop_kernel) lab" where
  "lab_setup =
     \<lparr>lab_little_endian = True, lab_allocator = (\<lambda>_. True), lab_order = rev, lab_routing_clock = (\<lambda>_. 0),
      lab_buffer = replicate 1024 (bridge_event 0), lab_event_clock = int, lab_monitor_start = 0,
      lab_rounds = [(7, 50000000), (5, 110000000)], lab_uniform = (\<lambda>n g. (n div 2, g)), lab_seed = (),
      lab_limiter_clock = (\<lambda>i. if i < 6 then 1000 + int i else 600000000 + int (min i 12)),
      lab_os = loop_os, lab_epoll = loop_epoll, lab_arena = 64\<rparr>"

lemma lab_setup_ready: "lab_ready (set \<circ> fst \<circ> snd) (snd \<circ> snd) lab_setup (3, [], False)"
proof -
  have "published_once 0 [(7, 50000000), (5, 110000000)]"
    unfolding published_once_def
    by (intro exI [of _ "[(7, 50000000)]"] exI [of _ 5] exI [of _ 110000000] exI [of _ "[]"]) simp
  moreover have "within_bound (\<lambda>n g. (n div 2 :: u64, g :: unit))"
    by (simp add: within_bound_def word_le_nat_alt unat_div)
  moreover have "\<exists>t0. readings_in t0 (t0 + 5000000000) (\<lambda>_. 0)"
    by (rule exI [of _ 0]) (simp add: readings_in_def)
  moreover have "length (replicate 1024 (bridge_event 0)) = 1024" by (rule length_replicate)
  ultimately show ?thesis
    using loop_kernel_spec
    by (auto simp: lab_ready_def lab_setup_def burst_window_def simp del: replicate.simps)
qed

lemma self_test_passes_witness: "exit_status (self_test True lab_setup (3, [], False)) = Some 0"
  by (rule self_test_passes [OF lab_setup_ready])

lemma bridge_depends_on_schedule_witness:
  "test_lock_free_telemetry_bridge True (replicate 1024 (bridge_event 0)) int 0 [(12, 100000000), (0, 200000000)] =
     Inl (AssertionFailed 227)"
proof -
  have "length (replicate 1024 (bridge_event 0)) = 1024" by (rule length_replicate)
  from bridge_depends_on_schedule [OF this, of "[]" 0 100000000 200000000 12 int] show ?thesis by simp
qed

lemma socket_test_closes_witness:
  "(set \<circ> fst) (snd (test_kqueue_async_loop_pipeline False small_os
      \<lparr>sys_epoll_create = (\<lambda>k. (Inl ENOENT, k)), sys_epoll_ctl = (\<lambda>op fd ev k. (None, k)),
       sys_epoll_wait = (\<lambda>n t k. (Inr [], k))\<rparr> ([], []))) = {}"
proof -
  let ?eos = "\<lparr>sys_epoll_create = (\<lambda>k. (Inl ENOENT, k)), sys_epoll_ctl = (\<lambda>op fd ev k. (None, k)),
    sys_epoll_wait = (\<lambda>n t k. (Inr [], k))\<rparr> :: small_kernel epoll_os"
  have eos: "epoll_fds_spec ?eos (set \<circ> fst)" by (simp add: epoll_fds_spec_def)
  obtain r k' where run: "test_kqueue_async_loop_pipeline False small_os ?eos ([], []) = (r, k')"
    by (meson surj_pair)
  have "fst (test_kqueue_async_loop_pipeline False small_os ?eos ([], [])) \<noteq> Inl (AssertionFailed 53)"
    by (simp add: test_kqueue_async_loop_pipeline_def event_loop_new_def case_prod_beta Let_def split: sum.split)
  then have "r \<noteq> Inl (AssertionFailed 53)" by (simp add: run)
  from socket_test_closes [OF small_os_descriptors eos run this] show ?thesis by (simp add: run)
qed

end
