(* ===== verification/Spec2Isabelle.thy ===== *)
theory Spec2Isabelle
  imports Addressing Packet Arena Arp Breaker RateLimiter Node Router HttpSim EventQueue Backoff Monitor Sockets SocketFd EventLoop Kqueue TelemetryClient DaemonRuns DaemonExit DaemonHistory DemoTraffic QueueBenchmark SelfTestKernel
begin

text \<open>
  Verification of the C++ core engine of the network simulator, \<^verbatim>\<open>src/core-engine\<close>, and of its queue
  benchmark in \<^verbatim>\<open>src/tools/portfolio\<close>. Paths below are relative to \<^verbatim>\<open>src/core-engine\<close>.

  \<^bold>\<open>The program.\<close> The daemon \<^verbatim>\<open>network_core\<close> (\<^verbatim>\<open>src/main/core_engine.cpp\<close>) listens on port 9090. Its event loop calls
  back when clients connect or send; the bytes of a connection go through an incremental HTTP parser; the body
  of a complete request is deserialized into a packet in a memory arena, passed to a rate limiter, and
  recorded as an event in a lock-free queue. A second thread, the telemetry monitor, drains the queue into
  statistics; events are also posted as JSON to an HTTP service, and a third thread posts demonstration
  traffic. Routers with circuit breakers, an ARP cache, addressing and backoff are library components that the test
  driver \<^verbatim>\<open>network_test\<close> (\<^verbatim>\<open>src/main/controller.cpp\<close>) exercises together with all others.

  \<^bold>\<open>Theories and sources.\<close> Definitions carry the names of the functions, types and members that they translate.
    \<^item> \<^verbatim>\<open>Prelude\<close>: fixed-width words, results (\<open>Inl\<close> an exception), clocks as streams of readings,
      \<open>std::to_string\<close>. \<^verbatim>\<open>Binary64\<close>: \<open>double\<close> with IEEE rounding. \<^verbatim>\<open>Json\<close>: output of numbers, and a JSON reader.
    \<^item> \<^verbatim>\<open>Addressing\<close> (\<^verbatim>\<open>network/addressing\<close>), \<^verbatim>\<open>Packet\<close> (\<^verbatim>\<open>core/packet\<close>, \<^verbatim>\<open>core/message\<close>), \<^verbatim>\<open>Arena\<close>
      (\<^verbatim>\<open>core/memory_arena\<close>), \<^verbatim>\<open>Arp\<close> (\<^verbatim>\<open>network/arp\<close>), \<^verbatim>\<open>Breaker\<close> (\<^verbatim>\<open>network/circuit_breaker\<close>), \<^verbatim>\<open>RateLimiter\<close>
      (\<^verbatim>\<open>network/rate_limiter\<close>), \<^verbatim>\<open>Backoff\<close> (\<^verbatim>\<open>network/backoff\<close>), \<^verbatim>\<open>Node\<close> (\<^verbatim>\<open>network/node\<close>).
    \<^item> \<^verbatim>\<open>PathHeap\<close>, \<^verbatim>\<open>Dijkstra\<close>, \<^verbatim>\<open>ShortestPaths\<close>, \<^verbatim>\<open>Router\<close> (\<^verbatim>\<open>network/router\<close>): the priority queue, the search of
      \<open>compute_routes\<close>, its correctness, and the routing table with \<open>lookup_route\<close>.
    \<^item> \<^verbatim>\<open>HttpSim\<close> (\<^verbatim>\<open>protocols/http_sim\<close>, \<^verbatim>\<open>protocols/protocol.hpp\<close>): one step per byte of \<open>parse_chunk\<close>.
    \<^item> \<^verbatim>\<open>EventQueue\<close> (\<^verbatim>\<open>system/event_queue.hpp\<close>), \<^verbatim>\<open>Monitor\<close> (\<^verbatim>\<open>system/monitor\<close>, \<^verbatim>\<open>system/metrics.hpp\<close>),
      \<^verbatim>\<open>QueueBenchmark\<close> (\<^verbatim>\<open>telemetry_queue_benchmark.cpp\<close>).
    \<^item> \<^verbatim>\<open>Sockets\<close>, \<^verbatim>\<open>SocketFd\<close> (\<^verbatim>\<open>core/connection\<close>, \<^verbatim>\<open>core/tcp_server\<close>), \<^verbatim>\<open>EventLoop\<close> and \<^verbatim>\<open>Kqueue\<close>
      (\<^verbatim>\<open>system/event_loop\<close>, Linux and macOS), \<^verbatim>\<open>TelemetryClient\<close> (\<^verbatim>\<open>system/telemetry_http_client\<close>).
    \<^item> \<^verbatim>\<open>Daemon\<close>, \<^verbatim>\<open>DemoTraffic\<close> (\<^verbatim>\<open>src/main/core_engine.cpp\<close>): the globals and locals of \<open>main\<close> as the record
      \<open>daemon\<close>, the callbacks, start, loop and exit. \<^verbatim>\<open>SelfTest\<close> (\<^verbatim>\<open>src/main/controller.cpp\<close>).
    \<^item> Facts about these: \<^verbatim>\<open>DaemonInvariant\<close>, \<^verbatim>\<open>DaemonService\<close>, \<^verbatim>\<open>DaemonExit\<close>, \<^verbatim>\<open>DaemonHistory\<close>, the runs on a
      simulated kernel in \<^verbatim>\<open>DaemonRuns\<close>; \<^verbatim>\<open>SelfTestOutcome\<close>, \<^verbatim>\<open>SelfTestKernel\<close>.

  \<^bold>\<open>Interfaces.\<close> Clients' lemmas rest on contracts, which the models of the code discharge: \<open>min_queue\<close> (the path
  finder's frontier), \<open>bounded_queue\<close> (the ring buffer), \<open>lru_cache\<close> (the ARP cache), and \<open>reactor\<close> with its
  extensions \<open>throwing_reactor\<close> and \<open>invariant_reactor\<close> (an event loop and the program whose callbacks it runs),
  which the daemon interprets three times: for its invariant, for what callbacks never change, and for
  the states it reaches.

  \<^bold>\<open>What is shown.\<close>
    \<^item> Routing: on a topology that lists every neighbour and whose path costs do not overflow, the table of
      \<open>compute_routes\<close> is the table of the shortest paths where the router's links with an
      open breaker cost 999999, for every iteration order of the hash maps; an open link is not a next hop;
      \<open>lookup_route\<close> is longest-prefix match.
    \<^item> Queue and limiter: all interleavings of producer and consumer are linearizable to a bounded FIFO without
      races, also when positions wrap; all interleavings of limiter calls are linearizable, and what is
      admitted conforms to rate and burst.
    \<^item> Data: round trips of packets across hosts of either byte order, addresses, JSON (doubles to six significant
      digits) and HTTP requests; the parser is independent of the cut into chunks; exact error cases; the arena's blocks are disjoint.
    \<^item> State machines: the breaker's legal transitions, when it trips and that it recovers; the cache is LRU.
    \<^item> Operating system: no path leaks a descriptor or closes one twice, down to the moves of \<open>SocketFD\<close>
      objects; loops over system calls end.
    \<^item> The daemon: start-up succeeds exactly when its system calls do and the URL is supported; an invariant of all
      reachable states; fragmented requests are served; in every reachable state limiter, queue and totals are what
      the log of the packets received requires (\<open>daemon_log\<close>, \<open>limiter_at\<close>, \<open>stored_events\<close>), so the limit of three packets and five a
      second holds for what the totals report; every way to end closes what was opened.
    \<^item> The test driver: under the conditions \<open>lab_ready\<close> on clocks, schedule, allocator and kernel it passes on
      these models.
  Some facts state what the code does where it deviates from its documentation or its intention, such as
  \<open>reconnect_ends_daemon\<close>, \<open>one_request_ends_daemon\<close> and \<open>phantom_route\<close>.

  \<^bold>\<open>Parameters.\<close> System calls are a record of functions on an abstract kernel state; what is assumed of them is
  stated by \<open>descriptors_spec\<close>, \<open>closes_spec\<close>, \<open>send_spec\<close>, \<open>net_spec\<close>, \<open>epoll_spec\<close>, \<open>epoll_fds_spec\<close>, \<open>kevent_spec\<close>,
  \<open>interest_spec\<close>, \<open>backlog_spec\<close> and \<open>loopback_spec\<close>, each met by a concrete kernel in the witnesses. Clock readings,
  byte order, allocator, hash order and random numbers are arguments of the definitions that use them.

  \<^bold>\<open>Loops.\<close> Loops that may not end are \<open>partial_function (option)\<close> with a proof that they return: the send loop, the
  parents' walk, the benchmark. \<open>on_accept\<close> takes fuel, and \<open>on_accept_terminates\<close> shows that fuel above the
  length of the backlog is never used up; \<open>drain\<close> runs with one more than the queue's capacity, which
  empties the queue; \<open>daemon_run\<close>, \<open>demo_rounds\<close> and \<open>monitor_rounds\<close> are finite parts of endless loops, for every
  length.

  \<^bold>\<open>Not modelled.\<close> Console output, the creation of threads and pauses (a pause shows in the clock's
  readings); the data races that the breaker's plain members allow, as its calls are taken one after the
  other; weak memory beyond the acquire/release pairs that \<^verbatim>\<open>EventQueue\<close> justifies; and the monitor's round
  inside the daemon is one step, since \<^verbatim>\<open>EventQueue\<close> shows that concurrent queue operations act like atomic ones.
  \<^verbatim>\<open>protocols/packet.hpp\<close> is a declaration that nothing includes and nothing implements. The Python service, the
  dashboard, the mock servers and the build files are other programs.
\<close>

end
